(* ===== verification/Panda_Prelude.thy ===== *)
theory Panda_Prelude
  imports Main "HOL-Library.Word"
begin

text \<open>
  Shared material of the development: the machine integer types of the C code, the
  results of code that may abort (\<open>'e + 'a\<close>, \<open>Inl\<close> the way it stops), little-endian
  images of machine integers, and the part of C's \<open>stdio\<close> that PANDA uses
  (\<open>fread\<close>, \<open>fwrite\<close>, \<open>rewind\<close>, \<open>fseek\<close>, \<open>ftell\<close>, \<open>feof\<close> on a file that is a list of
  bytes with a position).
\<close>

unbundle bit_operations_syntax

named_theorems rr_simps \<open>definitions and equations of the record/replay model\<close>

section \<open>Machine integers\<close>

type_synonym u8 = "8 word"
type_synonym u16 = "16 word"
type_synonym u32 = "32 word"
type_synonym u64 = "64 word"

section \<open>Results of code that may stop\<close>

definition bindR :: "'e + 'a \<Rightarrow> ('a \<Rightarrow> 'e + 'b) \<Rightarrow> 'e + 'b" where
  "bindR m f = (case m of Inl e \<Rightarrow> Inl e | Inr x \<Rightarrow> f x)"

lemma bindR_simps [simp]:
  "bindR (Inl e) f = Inl e"
  "bindR (Inr x) f = f x"
  by (simp_all add: bindR_def)

lemma bindR_Inr_iff: "bindR m f = Inr y \<longleftrightarrow> (\<exists>x. m = Inr x \<and> f x = Inr y)"
  by (cases m) auto

lemma bindR_Inl_iff:
  "bindR m f = Inl e \<longleftrightarrow> m = Inl e \<or> (\<exists>x. m = Inr x \<and> f x = Inl e)"
  by (cases m) auto

lemma bindR_assoc: "bindR (bindR m f) g = bindR m (\<lambda>x. bindR (f x) g)"
  by (cases m) auto

lemma bindR_InrE [elim!]:
  assumes "bindR m f = Inr y"
  obtains x where "m = Inr x" and "f x = Inr y"
  using assms by (auto simp: bindR_Inr_iff)

lemma bindR_if: "bindR (if b then m else n) f = (if b then bindR m f else bindR n f)"
  by simp

lemma bindR_cong [fundef_cong]:
  assumes "m = m'" and "\<And>x. m' = Inr x \<Longrightarrow> f x = f' x"
  shows "bindR m f = bindR m' f'"
  using assms by (cases m') auto

section \<open>How the code stops\<close>

text \<open>
  \<open>Assert_fail\<close> is \<^verbatim>\<open>rr_assert_fail\<close>, which prints its expression and calls \<^verbatim>\<open>exit(1)\<close>;
  \<open>Replay_abort\<close> is \<^verbatim>\<open>rr_do_end_replay(1)\<close>, which ends in \<^verbatim>\<open>abort()\<close>; the others are reads
  or writes through NULL or past a buffer, uses of freed memory, a walk along the links of a cyclic
  list, which never ends, and other undefined behaviour of C (a shift by the width of its operand
  or more, overlapping \<^verbatim>\<open>memcpy\<close>).
\<close>

datatype rr_exit =
    Assert_fail string
  | Replay_abort
  | Null_deref
  | Out_of_bounds
  | Use_after_free
  | Endless_loop
  | Undefined_behaviour

definition rr_assert :: "bool \<Rightarrow> string \<Rightarrow> rr_exit + unit" where
  "rr_assert b exp = (if b then Inr () else Inl (Assert_fail exp))"

lemma rr_assert_simps [simp]:
  "rr_assert True exp = Inr ()"
  "rr_assert False exp = Inl (Assert_fail exp)"
  by (simp_all add: rr_assert_def)

lemma rr_assert_Inr [simp]: "rr_assert b exp = Inr u \<longleftrightarrow> b"
  by (simp add: rr_assert_def)

section \<open>Little-endian images of machine integers\<close>

definition le_bytes :: "nat \<Rightarrow> 'a::len word \<Rightarrow> u8 list" where
  "le_bytes n w = map (\<lambda>i. ucast (drop_bit (8 * i) w)) [0..<n]"

fun le_word :: "u8 list \<Rightarrow> 'a::len word" where
  "le_word [] = 0"
| "le_word (b # bs) = ucast b OR push_bit 8 (le_word bs)"

lemma length_le_bytes [simp]: "length (le_bytes n w) = n"
  by (simp add: le_bytes_def)

lemma bit_le_word:
  "bit (le_word bs :: 'a::len word) k \<longleftrightarrow>
     k < LENGTH('a) \<and> k div 8 < length bs \<and> bit (bs ! (k div 8)) (k mod 8)"
proof (induction bs arbitrary: k)
  case Nil
  then show ?case by simp
next
  case (Cons b bs)
  show ?case
  proof (cases "k < 8")
    case True
    then show ?thesis
      by (auto simp: bit_simps)
  next
    case False
    then obtain j where j: "k = j + 8"
      by (metis add.commute le_Suc_ex linorder_not_less)
    have "\<not> bit b k"
      using False bit_imp_le_length [of b k] by auto
    moreover have "(j + 8) div 8 = Suc (j div 8)" and "(j + 8) mod 8 = j mod 8"
      by simp_all
    ultimately show ?thesis
      using Cons.IH [of j] by (auto simp: j bit_simps)
  qed
qed

lemma le_word_le_bytes [simp]:
  fixes w :: "'a::len word"
  assumes "LENGTH('a) = 8 * n"
  shows "le_word (le_bytes n w) = w"
proof (rule bit_word_eqI)
  fix k
  assume k: "k < LENGTH('a)"
  with assms have "k div 8 < n"
    by (simp add: less_mult_imp_div_less mult.commute)
  then show "bit (le_word (le_bytes n w) :: 'a word) k \<longleftrightarrow> bit w k"
    using k by (simp add: bit_le_word le_bytes_def bit_simps)
qed

lemma le_bytes_le_word:
  assumes "LENGTH('a::len) = 8 * n" and "length bs = n"
  shows "le_bytes n (le_word bs :: 'a word) = bs"
proof (rule nth_equalityI)
  show "length (le_bytes n (le_word bs :: 'a word)) = length bs"
    using assms by simp
next
  fix i
  assume "i < length (le_bytes n (le_word bs :: 'a word))"
  then have i: "i < n" by simp
  show "le_bytes n (le_word bs :: 'a word) ! i = bs ! i"
  proof (rule bit_word_eqI)
    fix k
    assume k: "k < LENGTH(8)"
    then have "8 * i + k < 8 * n" and "(8 * i + k) div 8 = i" and "(8 * i + k) mod 8 = k"
      using i by auto
    then show "bit (le_bytes n (le_word bs :: 'a word) ! i) k \<longleftrightarrow> bit (bs ! i) k"
      using i k assms by (simp add: le_bytes_def bit_simps bit_le_word)
  qed
qed

lemma le_bytes_inject:
  fixes v w :: "'a::len word"
  assumes "LENGTH('a) = 8 * n"
  shows "le_bytes n v = le_bytes n w \<longleftrightarrow> v = w"
  by (metis assms le_word_le_bytes)

lemma le_bytes_1 [simp]: "le_bytes (Suc 0) (b :: u8) = [b]"
  by (simp add: le_bytes_def)

section \<open>Byte files\<close>

record FILE =
  f_bytes :: "u8 list"
  f_pos :: nat
  f_eof :: bool

text \<open>\<open>fopen(name, "w")\<close> truncates; \<open>fopen(name, "r")\<close> starts at the first byte.\<close>

definition fopen_w :: FILE where
  "fopen_w = \<lparr>f_bytes = [], f_pos = 0, f_eof = False\<rparr>"

definition fopen_r :: "u8 list \<Rightarrow> FILE" where
  "fopen_r bs = \<lparr>f_bytes = bs, f_pos = 0, f_eof = False\<rparr>"

text \<open>What is left to read.\<close>

definition f_rest :: "FILE \<Rightarrow> u8 list" where
  "f_rest f = drop (f_pos f) (f_bytes f)"

text \<open>
  \<open>fread\<close> of \<open>n\<close> bytes: the bytes that were there (fewer than \<open>n\<close> at the end of the file,
  which sets the end-of-file indicator) and the advanced file.
\<close>

definition fread :: "nat \<Rightarrow> FILE \<Rightarrow> u8 list \<times> FILE" where
  "fread n f =
     (let bs = take n (f_rest f)
      in (bs, f\<lparr>f_pos := f_pos f + length bs, f_eof := f_eof f \<or> length bs < n\<rparr>))"

text \<open>\<open>fwrite\<close> overwrites from the position on and extends the file.\<close>

definition fwrite :: "u8 list \<Rightarrow> FILE \<Rightarrow> FILE" where
  "fwrite bs f = f\<lparr>f_bytes := take (f_pos f) (f_bytes f) @ bs @ drop (f_pos f + length bs) (f_bytes f),
                  f_pos := f_pos f + length bs\<rparr>"

definition rewind :: "FILE \<Rightarrow> FILE" where
  "rewind f = f\<lparr>f_pos := 0, f_eof := False\<rparr>"

definition fseek_set :: "nat \<Rightarrow> FILE \<Rightarrow> FILE" where
  "fseek_set n f = f\<lparr>f_pos := n, f_eof := False\<rparr>"

definition fseek_cur :: "nat \<Rightarrow> FILE \<Rightarrow> FILE" where
  "fseek_cur n f = f\<lparr>f_pos := f_pos f + n, f_eof := False\<rparr>"

text \<open>A file whose position is at its end, as a log being written is.\<close>

definition at_end :: "FILE \<Rightarrow> bool" where
  "at_end f \<longleftrightarrow> f_pos f = length (f_bytes f)"

lemma at_end_fopen_w [simp]: "at_end fopen_w"
  by (simp add: at_end_def fopen_w_def)

lemma fwrite_at_end [simp]:
  assumes "at_end f"
  shows "f_bytes (fwrite bs f) = f_bytes f @ bs" and "at_end (fwrite bs f)"
  using assms by (simp_all add: at_end_def fwrite_def)

lemma f_pos_fwrite [simp]: "f_pos (fwrite bs f) = f_pos f + length bs"
  by (simp add: fwrite_def)

text \<open>A file whose position is not past its end.\<close>

definition f_ok :: "FILE \<Rightarrow> bool" where
  "f_ok f \<longleftrightarrow> f_pos f \<le> length (f_bytes f)"

lemma f_ok_fwrite [simp]: "f_ok f \<Longrightarrow> f_ok (fwrite bs f)"
  by (simp add: f_ok_def fwrite_def)

lemma at_end_imp_f_ok: "at_end f \<Longrightarrow> f_ok f"
  by (simp add: at_end_def f_ok_def)

lemma fwrite_fwrite [simp]:
  assumes "f_ok f"
  shows "fwrite cs (fwrite bs f) = fwrite (bs @ cs) f"
  using assms by (simp add: f_ok_def fwrite_def add.commute add.left_commute)

lemma fwrite_Nil [simp]: "fwrite [] f = f"
  by (simp add: fwrite_def)

lemma fread_enough:
  assumes "f_rest f = bs @ cs" and "length bs = n"
  shows "fread n f = (bs, f\<lparr>f_pos := f_pos f + n\<rparr>)"
  using assms by (simp add: fread_def Let_def)

lemma f_rest_advance [simp]:
  "f_rest (f\<lparr>f_pos := f_pos f + n\<rparr>) = drop n (f_rest f)"
  by (simp add: f_rest_def add.commute)

lemma f_rest_after_read:
  assumes "f_rest f = bs @ cs" and "length bs = n"
  shows "f_rest (f\<lparr>f_pos := f_pos f + n\<rparr>) = cs"
  using assms by simp

lemma fread_bytes [simp]: "f_bytes (snd (fread n f)) = f_bytes f"
  by (simp add: fread_def Let_def)

lemma fread_length: "length (fst (fread n f)) = min n (length (f_rest f))"
  by (simp add: fread_def Let_def)

lemma bit_u64_less: "bit (w :: u64) n \<Longrightarrow> n < 64"
  using bit_imp_le_length [of w n] by simp

end
