(* ===== verification/RR_Types.thy ===== *)
theory RR_Types
  imports Panda_Prelude
begin

text \<open>
  The data of the record/replay log: the program point, the enumerations and structures of
  \<^verbatim>\<open>qemu/rr_log_all.h\<close> and \<^verbatim>\<open>qemu/rr_log.h\<close>, and the tables that name them. The sizes
  are those of the x86 system emulators on an x86-64 host: \<^verbatim>\<open>target_phys_addr_t\<close>,
  \<^verbatim>\<open>ram_addr_t\<close> and pointers have 64 bits and an enumeration has 32.
  A C union with its tag is a datatype, so an entry's \<^verbatim>\<open>kind\<close> is a function of its variant.
\<close>

section \<open>Mode and program point (rr\_log\_all.h)\<close>

datatype RR_mode = RR_OFF | RR_RECORD | RR_REPLAY

record RR_prog_point =
  pc :: u64
  secondary :: u64
  guest_instr_count :: u64

definition zero_prog_point :: RR_prog_point where
  "zero_prog_point = \<lparr>pc = 0, secondary = 0, guest_instr_count = 0\<rparr>"

section \<open>Enumerations and their names\<close>

datatype RR_skipped_call_kind =
    RR_CALL_CPU_MEM_RW
  | RR_CALL_CPU_REG_MEM_REGION
  | RR_CALL_CPU_MEM_UNMAP
  | RR_CALL_HD_TRANSFER
  | RR_CALL_NET_TRANSFER
  | RR_CALL_HANDLE_PACKET
  | RR_CALL_LAST

fun skipped_call_code :: "RR_skipped_call_kind \<Rightarrow> u8" where
  "skipped_call_code RR_CALL_CPU_MEM_RW = 0"
| "skipped_call_code RR_CALL_CPU_REG_MEM_REGION = 1"
| "skipped_call_code RR_CALL_CPU_MEM_UNMAP = 2"
| "skipped_call_code RR_CALL_HD_TRANSFER = 3"
| "skipped_call_code RR_CALL_NET_TRANSFER = 4"
| "skipped_call_code RR_CALL_HANDLE_PACKET = 5"
| "skipped_call_code RR_CALL_LAST = 6"

definition skipped_call_kind_str :: "string list" where
  "skipped_call_kind_str =
   [''RR_CALL_CPU_MEM_RW'', ''RR_CALL_CPU_REG_MEM_REGION'', ''RR_CALL_CPU_MEM_UNMAP'',
    ''RR_CALL_HD_TRANSFER'', ''RR_CALL_NET_TRANSFER'', ''RR_CALL_HANDLE_PACKET'',
    ''RR_CALL_LAST'']"

definition get_skipped_call_kind_string :: "u32 \<Rightarrow> string option" where
  "get_skipped_call_kind_string k =
     (if k \<le> 6 then Some (skipped_call_kind_str ! unat k) else None)"

datatype RR_log_entry_kind =
    RR_INPUT_1
  | RR_INPUT_2
  | RR_INPUT_4
  | RR_INPUT_8
  | RR_INTERRUPT_REQUEST
  | RR_EXIT_REQUEST
  | RR_SKIPPED_CALL
  | RR_DEBUG
  | RR_LAST

fun log_entry_kind_code :: "RR_log_entry_kind \<Rightarrow> u8" where
  "log_entry_kind_code RR_INPUT_1 = 0"
| "log_entry_kind_code RR_INPUT_2 = 1"
| "log_entry_kind_code RR_INPUT_4 = 2"
| "log_entry_kind_code RR_INPUT_8 = 3"
| "log_entry_kind_code RR_INTERRUPT_REQUEST = 4"
| "log_entry_kind_code RR_EXIT_REQUEST = 5"
| "log_entry_kind_code RR_SKIPPED_CALL = 6"
| "log_entry_kind_code RR_DEBUG = 7"
| "log_entry_kind_code RR_LAST = 8"

definition log_entry_kind_str :: "string list" where
  "log_entry_kind_str =
   [''RR_INPUT_1'', ''RR_INPUT_2'', ''RR_INPUT_4'', ''RR_INPUT_8'',
    ''RR_INTERRUPT_REQUEST'', ''RR_EXIT_REQUEST'', ''RR_SKIPPED_CALL'', ''RR_DEBUG'',
    ''RR_LAST'']"

definition get_log_entry_kind_string :: "u32 \<Rightarrow> string option" where
  "get_log_entry_kind_string k =
     (if k \<le> 8 then Some (log_entry_kind_str ! unat k) else None)"

text \<open>
  Call sites: the log stores them in one byte, so they are their byte values here.
\<close>

type_synonym RR_callsite_id = u8

abbreviation (input) RR_CALLSITE_DEFAULT_IOPORT_READW :: RR_callsite_id where "RR_CALLSITE_DEFAULT_IOPORT_READW \<equiv> 0"
abbreviation (input) RR_CALLSITE_CPU_INB :: RR_callsite_id where "RR_CALLSITE_CPU_INB \<equiv> 1"
abbreviation (input) RR_CALLSITE_CPU_INW :: RR_callsite_id where "RR_CALLSITE_CPU_INW \<equiv> 2"
abbreviation (input) RR_CALLSITE_CPU_INL :: RR_callsite_id where "RR_CALLSITE_CPU_INL \<equiv> 3"
abbreviation (input) RR_CALLSITE_CPU_PHYSICAL_MEMORY_RW_1 :: RR_callsite_id where "RR_CALLSITE_CPU_PHYSICAL_MEMORY_RW_1 \<equiv> 4"
abbreviation (input) RR_CALLSITE_CPU_PHYSICAL_MEMORY_RW_2 :: RR_callsite_id where "RR_CALLSITE_CPU_PHYSICAL_MEMORY_RW_2 \<equiv> 5"
abbreviation (input) RR_CALLSITE_CPU_PHYSICAL_MEMORY_RW_3 :: RR_callsite_id where "RR_CALLSITE_CPU_PHYSICAL_MEMORY_RW_3 \<equiv> 6"
abbreviation (input) RR_CALLSITE_CPU_PHYSICAL_MEMORY_RW_4 :: RR_callsite_id where "RR_CALLSITE_CPU_PHYSICAL_MEMORY_RW_4 \<equiv> 7"
abbreviation (input) RR_CALLSITE_CPU_PHYSICAL_MEMORY_UNMAP :: RR_callsite_id where "RR_CALLSITE_CPU_PHYSICAL_MEMORY_UNMAP \<equiv> 8"
abbreviation (input) RR_CALLSITE_LDL_PHYS :: RR_callsite_id where "RR_CALLSITE_LDL_PHYS \<equiv> 9"
abbreviation (input) RR_CALLSITE_LDQ_PHYS :: RR_callsite_id where "RR_CALLSITE_LDQ_PHYS \<equiv> 10"
abbreviation (input) RR_CALLSITE_IO_READ_0 :: RR_callsite_id where "RR_CALLSITE_IO_READ_0 \<equiv> 11"
abbreviation (input) RR_CALLSITE_IO_READ_1 :: RR_callsite_id where "RR_CALLSITE_IO_READ_1 \<equiv> 12"
abbreviation (input) RR_CALLSITE_IO_READ_2 :: RR_callsite_id where "RR_CALLSITE_IO_READ_2 \<equiv> 13"
abbreviation (input) RR_CALLSITE_IO_READ_3 :: RR_callsite_id where "RR_CALLSITE_IO_READ_3 \<equiv> 14"
abbreviation (input) RR_CALLSITE_WAIT_IO_EVENT :: RR_callsite_id where "RR_CALLSITE_WAIT_IO_EVENT \<equiv> 15"
abbreviation (input) RR_CALLSITE_CPU_EXEC_0 :: RR_callsite_id where "RR_CALLSITE_CPU_EXEC_0 \<equiv> 16"
abbreviation (input) RR_CALLSITE_CPU_EXEC_00 :: RR_callsite_id where "RR_CALLSITE_CPU_EXEC_00 \<equiv> 17"
abbreviation (input) RR_CALLSITE_CPU_EXEC_000 :: RR_callsite_id where "RR_CALLSITE_CPU_EXEC_000 \<equiv> 18"
abbreviation (input) RR_CALLSITE_CPU_EXEC_1 :: RR_callsite_id where "RR_CALLSITE_CPU_EXEC_1 \<equiv> 19"
abbreviation (input) RR_CALLSITE_CPU_EXEC_2 :: RR_callsite_id where "RR_CALLSITE_CPU_EXEC_2 \<equiv> 20"
abbreviation (input) RR_CALLSITE_CPU_EXEC_3 :: RR_callsite_id where "RR_CALLSITE_CPU_EXEC_3 \<equiv> 21"
abbreviation (input) RR_CALLSITE_CPU_EXEC_4 :: RR_callsite_id where "RR_CALLSITE_CPU_EXEC_4 \<equiv> 22"
abbreviation (input) RR_CALLSITE_CPU_EXEC_DBG :: RR_callsite_id where "RR_CALLSITE_CPU_EXEC_DBG \<equiv> 23"
abbreviation (input) RR_CALLSITE_CPU_HALTED :: RR_callsite_id where "RR_CALLSITE_CPU_HALTED \<equiv> 24"
abbreviation (input) RR_CALLSITE_RDTSC :: RR_callsite_id where "RR_CALLSITE_RDTSC \<equiv> 25"
abbreviation (input) RR_CALLSITE_TB_INVALIDATE_PHYS_PAGE_RANGE :: RR_callsite_id where "RR_CALLSITE_TB_INVALIDATE_PHYS_PAGE_RANGE \<equiv> 26"
abbreviation (input) RR_CALLSITE_CPU_OUTB :: RR_callsite_id where "RR_CALLSITE_CPU_OUTB \<equiv> 27"
abbreviation (input) RR_CALLSITE_CPU_OUTW :: RR_callsite_id where "RR_CALLSITE_CPU_OUTW \<equiv> 28"
abbreviation (input) RR_CALLSITE_CPU_OUTL :: RR_callsite_id where "RR_CALLSITE_CPU_OUTL \<equiv> 29"
abbreviation (input) RR_CALLSITE_IO_WRITE_0 :: RR_callsite_id where "RR_CALLSITE_IO_WRITE_0 \<equiv> 30"
abbreviation (input) RR_CALLSITE_IO_WRITE_1 :: RR_callsite_id where "RR_CALLSITE_IO_WRITE_1 \<equiv> 31"
abbreviation (input) RR_CALLSITE_IO_WRITE_2 :: RR_callsite_id where "RR_CALLSITE_IO_WRITE_2 \<equiv> 32"
abbreviation (input) RR_CALLSITE_IO_WRITE_3 :: RR_callsite_id where "RR_CALLSITE_IO_WRITE_3 \<equiv> 33"
abbreviation (input) RR_CALLSITE_DEFAULT_IOPORT_WRITEW :: RR_callsite_id where "RR_CALLSITE_DEFAULT_IOPORT_WRITEW \<equiv> 34"
abbreviation (input) RR_CALLSITE_MAIN_LOOP :: RR_callsite_id where "RR_CALLSITE_MAIN_LOOP \<equiv> 35"
abbreviation (input) RR_CALLSITE_MAIN_LOOP_WAIT :: RR_callsite_id where "RR_CALLSITE_MAIN_LOOP_WAIT \<equiv> 36"
abbreviation (input) RR_CALLSITE_PHYS_MEM_IO_1 :: RR_callsite_id where "RR_CALLSITE_PHYS_MEM_IO_1 \<equiv> 37"
abbreviation (input) RR_CALLSITE_PHYS_MEM_IO_2 :: RR_callsite_id where "RR_CALLSITE_PHYS_MEM_IO_2 \<equiv> 38"
abbreviation (input) RR_CALLSITE_PHYS_MEM_IO_3 :: RR_callsite_id where "RR_CALLSITE_PHYS_MEM_IO_3 \<equiv> 39"
abbreviation (input) RR_CALLSITE_STL_PHYS_ND :: RR_callsite_id where "RR_CALLSITE_STL_PHYS_ND \<equiv> 40"
abbreviation (input) RR_CALLSITE_STQ_PHYS_ND :: RR_callsite_id where "RR_CALLSITE_STQ_PHYS_ND \<equiv> 41"
abbreviation (input) RR_CALLSITE_STL_PHYS :: RR_callsite_id where "RR_CALLSITE_STL_PHYS \<equiv> 42"
abbreviation (input) RR_CALLSITE_DO_SMM_ENTER :: RR_callsite_id where "RR_CALLSITE_DO_SMM_ENTER \<equiv> 43"
abbreviation (input) RR_CALLSITE_HELPER_RSM :: RR_callsite_id where "RR_CALLSITE_HELPER_RSM \<equiv> 44"
abbreviation (input) RR_CALLSITE_IOPORT_READ :: RR_callsite_id where "RR_CALLSITE_IOPORT_READ \<equiv> 45"
abbreviation (input) RR_CALLSITE_IOPORT_WRITE :: RR_callsite_id where "RR_CALLSITE_IOPORT_WRITE \<equiv> 46"
abbreviation (input) RR_CALLSITE_SPARC_CPU_EXEC_1 :: RR_callsite_id where "RR_CALLSITE_SPARC_CPU_EXEC_1 \<equiv> 47"
abbreviation (input) RR_CALLSITE_MIPS_CPU_EXEC_1 :: RR_callsite_id where "RR_CALLSITE_MIPS_CPU_EXEC_1 \<equiv> 48"
abbreviation (input) RR_CALLSITE_IDE_SECTOR_READ :: RR_callsite_id where "RR_CALLSITE_IDE_SECTOR_READ \<equiv> 49"
abbreviation (input) RR_CALLSITE_IDE_SECTOR_WRITE :: RR_callsite_id where "RR_CALLSITE_IDE_SECTOR_WRITE \<equiv> 50"
abbreviation (input) RR_CALLSITE_IDE_DMA_CB :: RR_callsite_id where "RR_CALLSITE_IDE_DMA_CB \<equiv> 51"
abbreviation (input) RR_CALLSITE_IDE_DATA_WRITEW :: RR_callsite_id where "RR_CALLSITE_IDE_DATA_WRITEW \<equiv> 52"
abbreviation (input) RR_CALLSITE_IDE_DATA_WRITEL :: RR_callsite_id where "RR_CALLSITE_IDE_DATA_WRITEL \<equiv> 53"
abbreviation (input) RR_CALLSITE_IDE_DATA_READW :: RR_callsite_id where "RR_CALLSITE_IDE_DATA_READW \<equiv> 54"
abbreviation (input) RR_CALLSITE_IDE_DATA_READL :: RR_callsite_id where "RR_CALLSITE_IDE_DATA_READL \<equiv> 55"
abbreviation (input) RR_CALLSITE_E1000_RECEIVE_1 :: RR_callsite_id where "RR_CALLSITE_E1000_RECEIVE_1 \<equiv> 56"
abbreviation (input) RR_CALLSITE_E1000_RECEIVE_2 :: RR_callsite_id where "RR_CALLSITE_E1000_RECEIVE_2 \<equiv> 57"
abbreviation (input) RR_CALLSITE_E1000_RECEIVE_3 :: RR_callsite_id where "RR_CALLSITE_E1000_RECEIVE_3 \<equiv> 58"
abbreviation (input) RR_CALLSITE_E1000_RECEIVE_MEMCPY_1 :: RR_callsite_id where "RR_CALLSITE_E1000_RECEIVE_MEMCPY_1 \<equiv> 59"
abbreviation (input) RR_CALLSITE_E1000_XMIT_SEG_1 :: RR_callsite_id where "RR_CALLSITE_E1000_XMIT_SEG_1 \<equiv> 60"
abbreviation (input) RR_CALLSITE_E1000_XMIT_SEG_2 :: RR_callsite_id where "RR_CALLSITE_E1000_XMIT_SEG_2 \<equiv> 61"
abbreviation (input) RR_CALLSITE_E1000_PROCESS_TX_DESC_1 :: RR_callsite_id where "RR_CALLSITE_E1000_PROCESS_TX_DESC_1 \<equiv> 62"
abbreviation (input) RR_CALLSITE_E1000_PROCESS_TX_DESC_2 :: RR_callsite_id where "RR_CALLSITE_E1000_PROCESS_TX_DESC_2 \<equiv> 63"
abbreviation (input) RR_CALLSITE_E1000_PROCESS_TX_DESC_MEMMOVE_1 :: RR_callsite_id where "RR_CALLSITE_E1000_PROCESS_TX_DESC_MEMMOVE_1 \<equiv> 64"
abbreviation (input) RR_CALLSITE_E1000_PROCESS_TX_DESC_MEMMOVE_2 :: RR_callsite_id where "RR_CALLSITE_E1000_PROCESS_TX_DESC_MEMMOVE_2 \<equiv> 65"
abbreviation (input) RR_CALLSITE_E1000_TXDESC_WRITEBACK :: RR_callsite_id where "RR_CALLSITE_E1000_TXDESC_WRITEBACK \<equiv> 66"
abbreviation (input) RR_CALLSITE_E1000_START_XMIT :: RR_callsite_id where "RR_CALLSITE_E1000_START_XMIT \<equiv> 67"
abbreviation (input) RR_CALLSITE_LAST :: RR_callsite_id where "RR_CALLSITE_LAST \<equiv> 68"

definition callsite_str :: "string list" where
  "callsite_str =
   [
    ''RR_CALLSITE_DEFAULT_IOPORT_READW'',
    ''RR_CALLSITE_CPU_INB'',
    ''RR_CALLSITE_CPU_INW'',
    ''RR_CALLSITE_CPU_INL'',
    ''RR_CALLSITE_CPU_PHYSICAL_MEMORY_RW_1'',
    ''RR_CALLSITE_CPU_PHYSICAL_MEMORY_RW_2'',
    ''RR_CALLSITE_CPU_PHYSICAL_MEMORY_RW_3'',
    ''RR_CALLSITE_CPU_PHYSICAL_MEMORY_RW_4'',
    ''RR_CALLSITE_CPU_PHYSICAL_MEMORY_UNMAP'',
    ''RR_CALLSITE_LDL_PHYS'',
    ''RR_CALLSITE_LDQ_PHYS'',
    ''RR_CALLSITE_IO_READ_0'',
    ''RR_CALLSITE_IO_READ_1'',
    ''RR_CALLSITE_IO_READ_2'',
    ''RR_CALLSITE_IO_READ_3'',
    ''RR_CALLSITE_WAIT_IO_EVENT'',
    ''RR_CALLSITE_CPU_EXEC_0'',
    ''RR_CALLSITE_CPU_EXEC_00'',
    ''RR_CALLSITE_CPU_EXEC_000'',
    ''RR_CALLSITE_CPU_EXEC_1'',
    ''RR_CALLSITE_CPU_EXEC_2'',
    ''RR_CALLSITE_CPU_EXEC_3'',
    ''RR_CALLSITE_CPU_EXEC_4'',
    ''RR_CALLSITE_CPU_EXEC_DBG'',
    ''RR_CALLSITE_CPU_HALTED'',
    ''RR_CALLSITE_RDTSC'',
    ''RR_CALLSITE_TB_INVALIDATE_PHYS_PAGE_RANGE'',
    ''RR_CALLSITE_CPU_OUTB'',
    ''RR_CALLSITE_CPU_OUTW'',
    ''RR_CALLSITE_CPU_OUTL'',
    ''RR_CALLSITE_IO_WRITE_0'',
    ''RR_CALLSITE_IO_WRITE_1'',
    ''RR_CALLSITE_IO_WRITE_2'',
    ''RR_CALLSITE_IO_WRITE_3'',
    ''RR_CALLSITE_DEFAULT_IOPORT_WRITEW'',
    ''RR_CALLSITE_MAIN_LOOP'',
    ''RR_CALLSITE_MAIN_LOOP_WAIT'',
    ''RR_CALLSITE_PHYS_MEM_IO_1'',
    ''RR_CALLSITE_PHYS_MEM_IO_2'',
    ''RR_CALLSITE_PHYS_MEM_IO_3'',
    ''RR_CALLSITE_STL_PHYS_ND'',
    ''RR_CALLSITE_STQ_PHYS_ND'',
    ''RR_CALLSITE_STL_PHYS'',
    ''RR_CALLSITE_DO_SMM_ENTER'',
    ''RR_CALLSITE_HELPER_RSM'',
    ''RR_CALLSITE_IOPORT_READ'',
    ''RR_CALLSITE_IOPORT_WRITE'',
    ''RR_CALLSITE_SPARC_CPU_EXEC_1'',
    ''RR_CALLSITE_MIPS_CPU_EXEC_1'',
    ''RR_CALLSITE_IDE_SECTOR_READ'',
    ''RR_CALLSITE_IDE_SECTOR_WRITE'',
    ''RR_CALLSITE_IDE_DMA_CB'',
    ''RR_CALLSITE_IDE_DATA_WRITEW'',
    ''RR_CALLSITE_IDE_DATA_WRITEL'',
    ''RR_CALLSITE_IDE_DATA_READW'',
    ''RR_CALLSITE_IDE_DATA_READL'',
    ''RR_CALLSITE_E1000_RECEIVE_1'',
    ''RR_CALLSITE_E1000_RECEIVE_2'',
    ''RR_CALLSITE_E1000_RECEIVE_3'',
    ''RR_CALLSITE_E1000_RECEIVE_MEMCPY_1'',
    ''RR_CALLSITE_E1000_XMIT_SEG_1'',
    ''RR_CALLSITE_E1000_XMIT_SEG_2'',
    ''RR_CALLSITE_E1000_PROCESS_TX_DESC_1'',
    ''RR_CALLSITE_E1000_PROCESS_TX_DESC_2'',
    ''RR_CALLSITE_E1000_PROCESS_TX_DESC_MEMMOVE_1'',
    ''RR_CALLSITE_E1000_PROCESS_TX_DESC_MEMMOVE_2'',
    ''RR_CALLSITE_E1000_TXDESC_WRITEBACK'',
    ''RR_CALLSITE_E1000_START_XMIT'',
    ''RR_CALLSITE_LAST'']"

definition get_callsite_string :: "u32 \<Rightarrow> string option" where
  "get_callsite_string cid =
     (if cid \<le> ucast RR_CALLSITE_LAST then Some (callsite_str ! unat cid) else None)"

datatype Hd_transfer_type =
    HD_TRANSFER_HD_TO_IOB
  | HD_TRANSFER_IOB_TO_HD
  | HD_TRANSFER_PORT_TO_IOB
  | HD_TRANSFER_IOB_TO_PORT
  | HD_TRANSFER_HD_TO_RAM
  | HD_TRANSFER_RAM_TO_HD

fun hd_transfer_code :: "Hd_transfer_type \<Rightarrow> u32" where
  "hd_transfer_code HD_TRANSFER_HD_TO_IOB = 0"
| "hd_transfer_code HD_TRANSFER_IOB_TO_HD = 1"
| "hd_transfer_code HD_TRANSFER_PORT_TO_IOB = 2"
| "hd_transfer_code HD_TRANSFER_IOB_TO_PORT = 3"
| "hd_transfer_code HD_TRANSFER_HD_TO_RAM = 4"
| "hd_transfer_code HD_TRANSFER_RAM_TO_HD = 5"

datatype Net_transfer_type =
    NET_TRANSFER_RAM_TO_IOB
  | NET_TRANSFER_IOB_TO_RAM
  | NET_TRANSFER_IOB_TO_IOB

fun net_transfer_code :: "Net_transfer_type \<Rightarrow> u32" where
  "net_transfer_code NET_TRANSFER_RAM_TO_IOB = 0"
| "net_transfer_code NET_TRANSFER_IOB_TO_RAM = 1"
| "net_transfer_code NET_TRANSFER_IOB_TO_IOB = 2"

section \<open>Host buffers\<close>

text \<open>
  A \<^verbatim>\<open>uint8_t *\<close> of the log is NULL or an address together with the bytes there.
  The allocator is glib's: the address and the initial contents of the \<open>k\<close>-th block it
  returns are parameters of the model (\<open>host\<close>). \<^verbatim>\<open>g_malloc(0)\<close> is NULL.
\<close>

datatype host_buf = Host_NULL | Host_buf u64 "u8 list"

fun host_addr :: "host_buf \<Rightarrow> u64" where
  "host_addr Host_NULL = 0"
| "host_addr (Host_buf a bs) = a"

fun host_bytes :: "host_buf \<Rightarrow> u8 list" where
  "host_bytes Host_NULL = []"
| "host_bytes (Host_buf a bs) = bs"

record host =
  h_addr :: "nat \<Rightarrow> u64"
  h_fill :: "nat \<Rightarrow> nat \<Rightarrow> u8"

definition g_malloc :: "host \<Rightarrow> nat \<Rightarrow> nat \<Rightarrow> host_buf" where
  "g_malloc H k n =
     (if n = 0 then Host_NULL else Host_buf (h_addr H k) (map (h_fill H k) [0..<n]))"

text \<open>Storing \<open>bs\<close> at the start of a buffer.\<close>

fun host_store :: "u8 list \<Rightarrow> host_buf \<Rightarrow> host_buf" where
  "host_store bs Host_NULL = Host_NULL"
| "host_store bs (Host_buf a cs) = Host_buf a (bs @ drop (length bs) cs)"

section \<open>Arguments of skipped calls (rr\_log.h, rr\_log\_all.h)\<close>

record RR_cpu_mem_rw_args =
  rw_addr :: u64
  rw_buf :: host_buf
  rw_len :: u32

record RR_cpu_reg_mem_region_args =
  reg_start_addr :: u64
  reg_size :: u64
  reg_phys_offset :: u64

record RR_cpu_mem_unmap =
  um_addr :: u64
  um_buf :: host_buf
  um_len :: u64

record RR_hd_transfer_args =
  hd_type :: u32
  hd_src_addr :: u64
  hd_dest_addr :: u64
  hd_num_bytes :: u32

record RR_net_transfer_args =
  net_type :: u32
  net_src_addr :: u64
  net_dest_addr :: u64
  net_num_bytes :: u32

record RR_handle_packet_args =
  hp_buf :: host_buf
  hp_size :: u32
  hp_direction :: u8

text \<open>
  The union with its \<^verbatim>\<open>kind\<close>; \<^verbatim>\<open>old_buf_addr\<close> is only ever set and read for packets.
  \<open>Call_other\<close> is a kind no branch of the code handles (\<^verbatim>\<open>RR_CALL_LAST\<close>).
\<close>

datatype RR_skipped_call_args =
    Call_cpu_mem_rw RR_cpu_mem_rw_args
  | Call_cpu_reg_mem_region RR_cpu_reg_mem_region_args
  | Call_cpu_mem_unmap RR_cpu_mem_unmap
  | Call_hd_transfer RR_hd_transfer_args
  | Call_net_transfer RR_net_transfer_args
  | Call_handle_packet RR_handle_packet_args u64
  | Call_other

fun call_kind :: "RR_skipped_call_args \<Rightarrow> RR_skipped_call_kind" where
  "call_kind (Call_cpu_mem_rw a) = RR_CALL_CPU_MEM_RW"
| "call_kind (Call_cpu_reg_mem_region a) = RR_CALL_CPU_REG_MEM_REGION"
| "call_kind (Call_cpu_mem_unmap a) = RR_CALL_CPU_MEM_UNMAP"
| "call_kind (Call_hd_transfer a) = RR_CALL_HD_TRANSFER"
| "call_kind (Call_net_transfer a) = RR_CALL_NET_TRANSFER"
| "call_kind (Call_handle_packet a oba) = RR_CALL_HANDLE_PACKET"
| "call_kind Call_other = RR_CALL_LAST"

section \<open>Log entries and the log\<close>

datatype RR_variant =
    Input_1 u8
  | Input_2 u16
  | Input_4 u32
  | Input_8 u64
  | Interrupt_request u16
  | Exit_request u16
  | Skipped_call RR_skipped_call_args
  | Debug_entry
  | Last_entry

fun variant_kind :: "RR_variant \<Rightarrow> RR_log_entry_kind" where
  "variant_kind (Input_1 d) = RR_INPUT_1"
| "variant_kind (Input_2 d) = RR_INPUT_2"
| "variant_kind (Input_4 d) = RR_INPUT_4"
| "variant_kind (Input_8 d) = RR_INPUT_8"
| "variant_kind (Interrupt_request d) = RR_INTERRUPT_REQUEST"
| "variant_kind (Exit_request d) = RR_EXIT_REQUEST"
| "variant_kind (Skipped_call c) = RR_SKIPPED_CALL"
| "variant_kind Debug_entry = RR_DEBUG"
| "variant_kind Last_entry = RR_LAST"

text \<open>The link \<^verbatim>\<open>next\<close> of an entry is kept in the queue's store (theory \<open>RR_Queue\<close>).\<close>

record RR_log_entry =
  prog_point :: RR_prog_point
  callsite_loc :: RR_callsite_id
  variant :: RR_variant

abbreviation kind :: "RR_log_entry \<Rightarrow> RR_log_entry_kind" where
  "kind e \<equiv> variant_kind (variant e)"

text \<open>The entry after \<^verbatim>\<open>memset(item, 0, sizeof(RR_log_entry))\<close>.\<close>

definition zero_entry :: RR_log_entry where
  "zero_entry = \<lparr>prog_point = zero_prog_point, callsite_loc = 0, variant = Input_1 0\<rparr>"

datatype RR_log_type = RECORD | REPLAY

record RR_log =
  log_type :: RR_log_type
  last_prog_point :: RR_prog_point
  log_name :: string
  log_fp :: "FILE option"
  log_size :: u64
  bytes_read :: u64
  current_item :: RR_log_entry
  item_number :: u64

section \<open>Facts about the tables\<close>

lemma skipped_call_code_inject: "skipped_call_code a = skipped_call_code b \<longleftrightarrow> a = b"
  by (cases a; cases b) simp_all

lemma log_entry_kind_code_inject: "log_entry_kind_code a = log_entry_kind_code b \<longleftrightarrow> a = b"
  by (cases a; cases b) simp_all

lemma length_tables:
  "length skipped_call_kind_str = 7" "length log_entry_kind_str = 9" "length callsite_str = 69"
  by (simp_all add: skipped_call_kind_str_def log_entry_kind_str_def callsite_str_def)

lemma g_malloc_0 [simp]: "g_malloc H k 0 = Host_NULL"
  by (simp add: g_malloc_def)

lemma host_bytes_g_malloc [simp]: "length (host_bytes (g_malloc H k n)) = n"
  by (simp add: g_malloc_def)

lemma host_store_g_malloc:
  assumes "length bs = n" and "0 < n"
  shows "host_store bs (g_malloc H k n) = Host_buf (h_addr H k) bs"
  using assms by (simp add: g_malloc_def)

end
