(* ===== verification/RR_Codec.thy ===== *)
theory RR_Codec
  imports RR_Types
begin

text \<open>
  The nondeterminism log on disk: how \<^verbatim>\<open>rr_write_item\<close> writes an entry and how
  \<^verbatim>\<open>rr_read_item\<close> reads one (\<^verbatim>\<open>qemu/rr_log.c\<close>), byte for byte. The functions take and
  return the globals they use: the mode, the log, and the allocator's count. The main
  results: reading inverts writing (\<open>read_entry_image\<close>), and an entry whose buffer is empty is
  written but never read back (\<open>read_entry_empty_buffer\<close>).
\<close>

section \<open>Images of the structures\<close>

definition prog_point_image :: "RR_prog_point \<Rightarrow> u8 list" where
  "prog_point_image p =
     le_bytes 8 (pc p) @ le_bytes 8 (secondary p) @ le_bytes 8 (guest_instr_count p)"

definition mem_rw_image :: "RR_cpu_mem_rw_args \<Rightarrow> u8 list" where
  "mem_rw_image a =
     le_bytes 8 (rw_addr a) @ le_bytes 8 (host_addr (rw_buf a)) @ le_bytes 4 (rw_len a)
       @ replicate 4 0"

definition reg_region_image :: "RR_cpu_reg_mem_region_args \<Rightarrow> u8 list" where
  "reg_region_image a =
     le_bytes 8 (reg_start_addr a) @ le_bytes 8 (reg_size a) @ le_bytes 8 (reg_phys_offset a)"

definition mem_unmap_image :: "RR_cpu_mem_unmap \<Rightarrow> u8 list" where
  "mem_unmap_image a =
     le_bytes 8 (um_addr a) @ le_bytes 8 (host_addr (um_buf a)) @ le_bytes 8 (um_len a)"

definition hd_transfer_image :: "RR_hd_transfer_args \<Rightarrow> u8 list" where
  "hd_transfer_image a =
     le_bytes 4 (hd_type a) @ replicate 4 0 @ le_bytes 8 (hd_src_addr a)
       @ le_bytes 8 (hd_dest_addr a) @ le_bytes 4 (hd_num_bytes a) @ replicate 4 0"

definition net_transfer_image :: "RR_net_transfer_args \<Rightarrow> u8 list" where
  "net_transfer_image a =
     le_bytes 4 (net_type a) @ replicate 4 0 @ le_bytes 8 (net_src_addr a)
       @ le_bytes 8 (net_dest_addr a) @ le_bytes 4 (net_num_bytes a) @ replicate 4 0"

definition handle_packet_image :: "RR_handle_packet_args \<Rightarrow> u8 list" where
  "handle_packet_image a =
     le_bytes 8 (host_addr (hp_buf a)) @ le_bytes 4 (hp_size a) @ [hp_direction a]
       @ replicate 3 0"

text \<open>Reading a field of a structure from its image.\<close>

definition field :: "nat \<Rightarrow> nat \<Rightarrow> u8 list \<Rightarrow> 'a::len word" where
  "field off n bs = le_word (take n (drop off bs))"

definition prog_point_of :: "u8 list \<Rightarrow> RR_prog_point" where
  "prog_point_of bs = \<lparr>pc = field 0 8 bs, secondary = field 8 8 bs,
     guest_instr_count = field 16 8 bs\<rparr>"

definition mem_rw_of :: "u8 list \<Rightarrow> RR_cpu_mem_rw_args" where
  "mem_rw_of bs = \<lparr>rw_addr = field 0 8 bs, rw_buf = Host_buf (field 8 8 bs) [],
     rw_len = field 16 4 bs\<rparr>"

definition reg_region_of :: "u8 list \<Rightarrow> RR_cpu_reg_mem_region_args" where
  "reg_region_of bs = \<lparr>reg_start_addr = field 0 8 bs, reg_size = field 8 8 bs,
     reg_phys_offset = field 16 8 bs\<rparr>"

definition mem_unmap_of :: "u8 list \<Rightarrow> RR_cpu_mem_unmap" where
  "mem_unmap_of bs = \<lparr>um_addr = field 0 8 bs, um_buf = Host_buf (field 8 8 bs) [],
     um_len = field 16 8 bs\<rparr>"

definition hd_transfer_of :: "u8 list \<Rightarrow> RR_hd_transfer_args" where
  "hd_transfer_of bs = \<lparr>hd_type = field 0 4 bs, hd_src_addr = field 8 8 bs,
     hd_dest_addr = field 16 8 bs, hd_num_bytes = field 24 4 bs\<rparr>"

definition net_transfer_of :: "u8 list \<Rightarrow> RR_net_transfer_args" where
  "net_transfer_of bs = \<lparr>net_type = field 0 4 bs, net_src_addr = field 8 8 bs,
     net_dest_addr = field 16 8 bs, net_num_bytes = field 24 4 bs\<rparr>"

definition handle_packet_of :: "u8 list \<Rightarrow> RR_handle_packet_args" where
  "handle_packet_of bs = \<lparr>hp_buf = Host_buf (field 0 8 bs) [], hp_size = field 8 4 bs,
     hp_direction = field 12 1 bs\<rparr>"

section \<open>Writing an entry\<close>

text \<open>One \<^verbatim>\<open>fwrite\<close> to the log's file.\<close>

definition log_write :: "u8 list \<Rightarrow> RR_log \<Rightarrow> rr_exit + RR_log" where
  "log_write bs l =
     (case log_fp l of
        None \<Rightarrow> Inl Null_deref
      | Some f \<Rightarrow> Inr (l\<lparr>log_fp := Some (fwrite bs f)\<rparr>))"

text \<open>The \<open>n\<close> bytes an \<^verbatim>\<open>fwrite\<close> takes from a host buffer.\<close>

definition host_read :: "nat \<Rightarrow> host_buf \<Rightarrow> rr_exit + u8 list" where
  "host_read n b =
     (if n \<le> length (host_bytes b) then Inr (take n (host_bytes b)) else Inl Out_of_bounds)"

fun write_call_args :: "RR_skipped_call_args \<Rightarrow> RR_log \<Rightarrow> rr_exit + RR_log" where
  "write_call_args (Call_cpu_mem_rw a) l =
     bindR (rr_assert (rw_buf a \<noteq> Host_NULL \<or> rw_len a = 0) ''buf != NULL || len == 0'') (\<lambda>_.
     bindR (log_write (mem_rw_image a) l) (\<lambda>l.
     bindR (host_read (unat (rw_len a)) (rw_buf a)) (\<lambda>bs. log_write bs l)))"
| "write_call_args (Call_cpu_mem_unmap a) l =
     bindR (rr_assert (um_buf a \<noteq> Host_NULL \<or> um_len a = 0) ''buf != NULL || len == 0'') (\<lambda>_.
     bindR (log_write (mem_unmap_image a) l) (\<lambda>l.
     bindR (host_read (unat (um_len a)) (um_buf a)) (\<lambda>bs. log_write bs l)))"
| "write_call_args (Call_cpu_reg_mem_region a) l = log_write (reg_region_image a) l"
| "write_call_args (Call_hd_transfer a) l = log_write (hd_transfer_image a) l"
| "write_call_args (Call_net_transfer a) l = log_write (net_transfer_image a) l"
| "write_call_args (Call_handle_packet a oba) l =
     bindR (rr_assert (hp_buf a \<noteq> Host_NULL \<or> hp_size a = 0) ''buf != NULL || size == 0'') (\<lambda>_.
     bindR (log_write (handle_packet_image a) l) (\<lambda>l.
     bindR (host_read (unat (hp_size a)) (hp_buf a)) (\<lambda>bs. log_write bs l)))"
| "write_call_args Call_other l = Inl (Assert_fail ''0'')"

fun write_variant :: "RR_variant \<Rightarrow> RR_log \<Rightarrow> rr_exit + RR_log" where
  "write_variant (Input_1 d) l = log_write (le_bytes 1 d) l"
| "write_variant (Input_2 d) l = log_write (le_bytes 2 d) l"
| "write_variant (Input_4 d) l = log_write (le_bytes 4 d) l"
| "write_variant (Input_8 d) l = log_write (le_bytes 8 d) l"
| "write_variant (Interrupt_request d) l = log_write (le_bytes 2 d) l"
| "write_variant (Exit_request d) l = log_write (le_bytes 2 d) l"
| "write_variant (Skipped_call c) l =
     bindR (log_write [skipped_call_code (call_kind c)] l) (write_call_args c)"
| "write_variant Last_entry l = Inr l"
| "write_variant Debug_entry l = Inr l"

definition rr_write_item :: "RR_mode \<Rightarrow> RR_log option \<Rightarrow> rr_exit + RR_log option" where
  "rr_write_item mode log =
     bindR (rr_assert (mode = RR_RECORD) ''rr_in_record()'') (\<lambda>_.
     bindR (rr_assert (log \<noteq> None) ''rr_nondet_log != NULL'') (\<lambda>_.
     case log of
       None \<Rightarrow> Inl Null_deref
     | Some l \<Rightarrow>
         let item = current_item l in
         bindR (log_write (prog_point_image (prog_point item)) l) (\<lambda>l.
         bindR (log_write [log_entry_kind_code (kind item)] l) (\<lambda>l.
         bindR (log_write [callsite_loc item] l) (\<lambda>l.
         bindR (write_variant (variant item) (l\<lparr>last_prog_point := prog_point item\<rparr>)) (\<lambda>l.
         Inr (Some (l\<lparr>item_number := item_number l + 1\<rparr>))))))))"

section \<open>Reading an entry\<close>

text \<open>\<^verbatim>\<open>rr_assert(fread(p, n, 1, fp) == 1)\<close>\<close>

definition log_read :: "nat \<Rightarrow> string \<Rightarrow> RR_log \<Rightarrow> rr_exit + (u8 list \<times> RR_log)" where
  "log_read n exp l =
     (case log_fp l of
        None \<Rightarrow> Inl Null_deref
      | Some f \<Rightarrow>
          let (bs, f') = fread n f
          in if length bs = n then Inr (bs, l\<lparr>log_fp := Some f'\<rparr>) else Inl (Assert_fail exp))"

text \<open>\<^verbatim>\<open>fread(buf, 1, len, fp) > 0\<close>, into a fresh buffer: a short read is accepted and
  leaves the rest of the buffer as the allocator returned it.\<close>

definition log_read_buf :: "nat \<Rightarrow> host_buf \<Rightarrow> RR_log \<Rightarrow> rr_exit + (host_buf \<times> RR_log)" where
  "log_read_buf n b l =
     (case log_fp l of
        None \<Rightarrow> Inl Null_deref
      | Some f \<Rightarrow>
          let (bs, f') = fread n f
          in if 0 < length bs then Inr (host_store bs b, l\<lparr>log_fp := Some f'\<rparr>)
             else Inl (Assert_fail ''fread(buf, 1, len, fp) > 0''))"

text \<open>\<^verbatim>\<open>assert(fread(buf, size, 1, fp) == 1)\<close>: no item is read when \<^verbatim>\<open>size\<close> is 0.\<close>

definition log_read_item_buf :: "nat \<Rightarrow> host_buf \<Rightarrow> RR_log \<Rightarrow> rr_exit + (host_buf \<times> RR_log)" where
  "log_read_item_buf n b l =
     (case log_fp l of
        None \<Rightarrow> Inl Null_deref
      | Some f \<Rightarrow>
          let (bs, f') = fread n f
          in if 0 < n \<and> length bs = n then Inr (host_store bs b, l\<lparr>log_fp := Some f'\<rparr>)
             else Inl (Assert_fail ''fread(buf, size, 1, fp) == 1''))"

definition bump :: "nat \<Rightarrow> RR_log \<Rightarrow> RR_log" where
  "bump n l = l\<lparr>bytes_read := bytes_read l + of_nat n\<rparr>"

definition read_call_args ::
    "host \<Rightarrow> nat \<Rightarrow> u8 \<Rightarrow> RR_log \<Rightarrow> rr_exit + (RR_skipped_call_args \<times> nat \<times> RR_log)" where
  "read_call_args H k c l =
     (if c = skipped_call_code RR_CALL_CPU_MEM_RW then
        bindR (log_read 24 ''cpu_mem_rw_args'' l) (\<lambda>(bs, l).
          let l = bump 24 l; a = mem_rw_of bs; n = unat (rw_len a) in
          bindR (log_read_buf n (g_malloc H k n) l) (\<lambda>(b, l).
          Inr (Call_cpu_mem_rw (a\<lparr>rw_buf := b\<rparr>), Suc k, bump n l)))
      else if c = skipped_call_code RR_CALL_CPU_MEM_UNMAP then
        bindR (log_read 24 ''cpu_mem_unmap'' l) (\<lambda>(bs, l).
          let l = bump 24 l; a = mem_unmap_of bs; n = unat (um_len a) in
          bindR (log_read_buf n (g_malloc H k n) l) (\<lambda>(b, l).
          Inr (Call_cpu_mem_unmap (a\<lparr>um_buf := b\<rparr>), Suc k, bump n l)))
      else if c = skipped_call_code RR_CALL_CPU_REG_MEM_REGION then
        bindR (log_read 24 ''cpu_mem_reg_region_args'' l) (\<lambda>(bs, l).
          Inr (Call_cpu_reg_mem_region (reg_region_of bs), k, bump 24 l))
      else if c = skipped_call_code RR_CALL_HD_TRANSFER then
        bindR (log_read 32 ''hd_transfer_args'' l) (\<lambda>(bs, l).
          Inr (Call_hd_transfer (hd_transfer_of bs), k, bump 32 l))
      else if c = skipped_call_code RR_CALL_NET_TRANSFER then
        bindR (log_read 32 ''net_transfer_args'' l) (\<lambda>(bs, l).
          Inr (Call_net_transfer (net_transfer_of bs), k, bump 32 l))
      else if c = skipped_call_code RR_CALL_HANDLE_PACKET then
        bindR (log_read 16 ''handle_packet_args'' l) (\<lambda>(bs, l).
          let l = bump 16 l; a = handle_packet_of bs; n = unat (hp_size a) in
          bindR (log_read_item_buf n (g_malloc H k n) l) (\<lambda>(b, l).
          Inr (Call_handle_packet (a\<lparr>hp_buf := b\<rparr>) (host_addr (hp_buf a)), Suc k, bump n l)))
      else Inl (Assert_fail ''0''))"

definition read_variant ::
    "host \<Rightarrow> nat \<Rightarrow> u8 \<Rightarrow> RR_log \<Rightarrow> rr_exit + (RR_variant \<times> nat \<times> RR_log)" where
  "read_variant H k c l =
     (if c = log_entry_kind_code RR_INPUT_1 then
        bindR (log_read 1 ''input_1'' l) (\<lambda>(bs, l). Inr (Input_1 (field 0 1 bs), k, bump 1 l))
      else if c = log_entry_kind_code RR_INPUT_2 then
        bindR (log_read 2 ''input_2'' l) (\<lambda>(bs, l). Inr (Input_2 (field 0 2 bs), k, bump 2 l))
      else if c = log_entry_kind_code RR_INPUT_4 then
        bindR (log_read 4 ''input_4'' l) (\<lambda>(bs, l). Inr (Input_4 (field 0 4 bs), k, bump 4 l))
      else if c = log_entry_kind_code RR_INPUT_8 then
        bindR (log_read 8 ''input_8'' l) (\<lambda>(bs, l). Inr (Input_8 (field 0 8 bs), k, bump 8 l))
      else if c = log_entry_kind_code RR_INTERRUPT_REQUEST then
        bindR (log_read 2 ''interrupt_request'' l) (\<lambda>(bs, l).
          Inr (Interrupt_request (field 0 2 bs), k, bump 2 l))
      else if c = log_entry_kind_code RR_EXIT_REQUEST then
        bindR (log_read 2 ''exit_request'' l) (\<lambda>(bs, l).
          Inr (Exit_request (field 0 2 bs), k, bump 2 l))
      else if c = log_entry_kind_code RR_SKIPPED_CALL then
        bindR (log_read 1 ''args->kind'' l) (\<lambda>(bs, l).
        bindR (read_call_args H k (field 0 1 bs) (bump 1 l)) (\<lambda>(a, k, l).
          Inr (Skipped_call a, k, l)))
      else if c = log_entry_kind_code RR_LAST then Inr (Last_entry, k, l)
      else if c = log_entry_kind_code RR_DEBUG then Inr (Debug_entry, k, l)
      else Inl (Assert_fail ''0''))"

definition rr_log_is_empty :: "RR_log \<Rightarrow> bool" where
  "rr_log_is_empty l \<longleftrightarrow> log_type l = REPLAY \<and> log_size l - bytes_read l = 0"

text \<open>\<^verbatim>\<open>rr_read_item\<close> after it has allocated the entry, which \<open>rr_read_item\<close> of theory
  \<open>RR_Replay\<close> adds.\<close>

definition read_entry ::
    "host \<Rightarrow> nat \<Rightarrow> RR_mode \<Rightarrow> RR_log \<Rightarrow> rr_exit + (RR_log_entry \<times> nat \<times> RR_log)" where
  "read_entry H k mode l =
     bindR (rr_assert (mode = RR_REPLAY) ''rr_in_replay()'') (\<lambda>_.
     bindR (rr_assert (\<not> rr_log_is_empty l) ''! rr_log_is_empty()'') (\<lambda>_.
     bindR (rr_assert (log_fp l \<noteq> None) ''rr_nondet_log->fp != NULL'') (\<lambda>_.
     bindR (log_read 24 ''0'' l) (\<lambda>(pp, l).
     bindR (log_read 1 ''kind'' l) (\<lambda>(kd, l).
     bindR (log_read 1 ''callsite_loc'' l) (\<lambda>(cs, l).
     bindR (read_variant H k (field 0 1 kd) (bump 26 l)) (\<lambda>(v, k, l).
     Inr (\<lparr>prog_point = prog_point_of pp, callsite_loc = field 0 1 cs, variant = v\<rparr>, k,
          l\<lparr>item_number := item_number l + 1\<rparr>))))))))"

section \<open>Reading inverts writing\<close>

lemma field_le_bytes [simp]:
  assumes "LENGTH('a::len) = 8 * n" and "length xs = off"
  shows "field off n (xs @ le_bytes n (w :: 'a word) @ ys) = w"
    and "field off n (xs @ le_bytes n (w :: 'a word)) = w"
  using assms by (simp_all add: field_def)

lemma field_struct [simp]:
  "field 0 8 (le_bytes 8 (a :: u64) @ r) = a"
  "field 8 8 (le_bytes 8 (a :: u64) @ le_bytes 8 (b :: u64) @ r) = b"
  by (simp_all add: field_def)

lemma prog_point_of_image [simp]: "prog_point_of (prog_point_image p) = p"
  by (simp add: prog_point_of_def prog_point_image_def field_def)

lemma mem_rw_of_image:
  "mem_rw_of (mem_rw_image a) = a\<lparr>rw_buf := Host_buf (host_addr (rw_buf a)) []\<rparr>"
  by (simp add: mem_rw_of_def mem_rw_image_def field_def)

lemma reg_region_of_image [simp]: "reg_region_of (reg_region_image a) = a"
  by (simp add: reg_region_of_def reg_region_image_def field_def)

lemma mem_unmap_of_image:
  "mem_unmap_of (mem_unmap_image a) = a\<lparr>um_buf := Host_buf (host_addr (um_buf a)) []\<rparr>"
  by (simp add: mem_unmap_of_def mem_unmap_image_def field_def)

lemma hd_transfer_of_image [simp]: "hd_transfer_of (hd_transfer_image a) = a"
  by (simp add: hd_transfer_of_def hd_transfer_image_def field_def)

lemma net_transfer_of_image [simp]: "net_transfer_of (net_transfer_image a) = a"
  by (simp add: net_transfer_of_def net_transfer_image_def field_def)

lemma handle_packet_of_image:
  "handle_packet_of (handle_packet_image a) = a\<lparr>hp_buf := Host_buf (host_addr (hp_buf a)) []\<rparr>"
  by (simp add: handle_packet_of_def handle_packet_image_def field_def)

lemma length_images [simp]:
  "length (prog_point_image p) = 24"
  "length (mem_rw_image a) = 24"
  "length (reg_region_image b) = 24"
  "length (mem_unmap_image c) = 24"
  "length (hd_transfer_image d) = 32"
  "length (net_transfer_image e) = 32"
  "length (handle_packet_image g) = 16"
  by (simp_all add: prog_point_image_def mem_rw_image_def reg_region_image_def
      mem_unmap_image_def hd_transfer_image_def net_transfer_image_def handle_packet_image_def)

text \<open>The bytes of an entry, in one piece.\<close>

fun call_image :: "RR_skipped_call_args \<Rightarrow> u8 list" where
  "call_image (Call_cpu_mem_rw a) =
     mem_rw_image a @ take (unat (rw_len a)) (host_bytes (rw_buf a))"
| "call_image (Call_cpu_mem_unmap a) =
     mem_unmap_image a @ take (unat (um_len a)) (host_bytes (um_buf a))"
| "call_image (Call_cpu_reg_mem_region a) = reg_region_image a"
| "call_image (Call_hd_transfer a) = hd_transfer_image a"
| "call_image (Call_net_transfer a) = net_transfer_image a"
| "call_image (Call_handle_packet a oba) =
     handle_packet_image a @ take (unat (hp_size a)) (host_bytes (hp_buf a))"
| "call_image Call_other = []"

fun variant_image :: "RR_variant \<Rightarrow> u8 list" where
  "variant_image (Input_1 d) = le_bytes 1 d"
| "variant_image (Input_2 d) = le_bytes 2 d"
| "variant_image (Input_4 d) = le_bytes 4 d"
| "variant_image (Input_8 d) = le_bytes 8 d"
| "variant_image (Interrupt_request d) = le_bytes 2 d"
| "variant_image (Exit_request d) = le_bytes 2 d"
| "variant_image (Skipped_call c) = [skipped_call_code (call_kind c)] @ call_image c"
| "variant_image Last_entry = []"
| "variant_image Debug_entry = []"

definition entry_image :: "RR_log_entry \<Rightarrow> u8 list" where
  "entry_image e =
     prog_point_image (prog_point e) @ [log_entry_kind_code (kind e)] @ [callsite_loc e]
       @ variant_image (variant e)"

text \<open>
  What \<open>rr_write_item\<close> demands of an entry, and what \<open>rr_read_item\<close> can read back: a buffer
  that is there and, to be read back, is not empty.
\<close>

fun writable_call :: "RR_skipped_call_args \<Rightarrow> bool" where
  "writable_call (Call_cpu_mem_rw a) \<longleftrightarrow>
     (rw_buf a \<noteq> Host_NULL \<or> rw_len a = 0) \<and> unat (rw_len a) \<le> length (host_bytes (rw_buf a))"
| "writable_call (Call_cpu_mem_unmap a) \<longleftrightarrow>
     (um_buf a \<noteq> Host_NULL \<or> um_len a = 0) \<and> unat (um_len a) \<le> length (host_bytes (um_buf a))"
| "writable_call (Call_handle_packet a oba) \<longleftrightarrow>
     (hp_buf a \<noteq> Host_NULL \<or> hp_size a = 0) \<and> unat (hp_size a) \<le> length (host_bytes (hp_buf a))"
| "writable_call Call_other \<longleftrightarrow> False"
| "writable_call c \<longleftrightarrow> True"

fun empty_buffer :: "RR_skipped_call_args \<Rightarrow> bool" where
  "empty_buffer (Call_cpu_mem_rw a) \<longleftrightarrow> rw_len a = 0"
| "empty_buffer (Call_cpu_mem_unmap a) \<longleftrightarrow> um_len a = 0"
| "empty_buffer (Call_handle_packet a oba) \<longleftrightarrow> hp_size a = 0"
| "empty_buffer c \<longleftrightarrow> False"

fun writable_variant :: "RR_variant \<Rightarrow> bool" where
  "writable_variant (Skipped_call c) \<longleftrightarrow> writable_call c"
| "writable_variant v \<longleftrightarrow> True"

fun replayable_variant :: "RR_variant \<Rightarrow> bool" where
  "replayable_variant (Skipped_call c) \<longleftrightarrow> writable_call c \<and> \<not> empty_buffer c"
| "replayable_variant v \<longleftrightarrow> True"

abbreviation writable :: "RR_log_entry \<Rightarrow> bool" where
  "writable e \<equiv> writable_variant (variant e)"

abbreviation replayable :: "RR_log_entry \<Rightarrow> bool" where
  "replayable e \<equiv> replayable_variant (variant e)"

lemma replayable_imp_writable: "replayable_variant v \<Longrightarrow> writable_variant v"
  by (cases v) simp_all

text \<open>The call as it comes back: its buffer is a new block with the recorded bytes.\<close>

fun replayed_call :: "host \<Rightarrow> nat \<Rightarrow> RR_skipped_call_args \<Rightarrow> RR_skipped_call_args" where
  "replayed_call H k (Call_cpu_mem_rw a) = Call_cpu_mem_rw
     (a\<lparr>rw_buf := Host_buf (h_addr H k) (take (unat (rw_len a)) (host_bytes (rw_buf a)))\<rparr>)"
| "replayed_call H k (Call_cpu_mem_unmap a) = Call_cpu_mem_unmap
     (a\<lparr>um_buf := Host_buf (h_addr H k) (take (unat (um_len a)) (host_bytes (um_buf a)))\<rparr>)"
| "replayed_call H k (Call_handle_packet a oba) = Call_handle_packet
     (a\<lparr>hp_buf := Host_buf (h_addr H k) (take (unat (hp_size a)) (host_bytes (hp_buf a)))\<rparr>)
     (host_addr (hp_buf a))"
| "replayed_call H k c = c"

fun replayed_variant :: "host \<Rightarrow> nat \<Rightarrow> RR_variant \<Rightarrow> RR_variant" where
  "replayed_variant H k (Skipped_call c) = Skipped_call (replayed_call H k c)"
| "replayed_variant H k v = v"

definition replayed_entry :: "host \<Rightarrow> nat \<Rightarrow> RR_log_entry \<Rightarrow> RR_log_entry" where
  "replayed_entry H k e = e\<lparr>variant := replayed_variant H k (variant e)\<rparr>"

fun variant_allocs :: "RR_variant \<Rightarrow> nat" where
  "variant_allocs (Skipped_call (Call_cpu_mem_rw a)) = 1"
| "variant_allocs (Skipped_call (Call_cpu_mem_unmap a)) = 1"
| "variant_allocs (Skipped_call (Call_handle_packet a oba)) = 1"
| "variant_allocs v = 0"

text \<open>Writing.\<close>

lemma log_write_Some [simp]:
  "log_fp l = Some f \<Longrightarrow> log_write bs l = Inr (l\<lparr>log_fp := Some (fwrite bs f)\<rparr>)"
  by (simp add: log_write_def)

lemma write_call_args_image:
  assumes "writable_call c" and "log_fp l = Some f" and "f_ok f"
  shows "write_call_args c l = Inr (l\<lparr>log_fp := Some (fwrite (call_image c) f)\<rparr>)"
  using assms by (cases c) (simp_all add: host_read_def)

lemma write_variant_image:
  assumes "writable_variant v" and "log_fp l = Some f" and "f_ok f"
  shows "write_variant v l = Inr (l\<lparr>log_fp := Some (fwrite (variant_image v) f)\<rparr>)"
  using assms by (cases v) (simp_all add: write_call_args_image)

lemma rr_write_item_image:
  assumes "writable (current_item l)" and "log_fp l = Some f" and "f_ok f"
  shows "rr_write_item RR_RECORD (Some l) =
    Inr (Some (l\<lparr>log_fp := Some (fwrite (entry_image (current_item l)) f),
                last_prog_point := prog_point (current_item l),
                item_number := item_number l + 1\<rparr>))"
  using assms
  by (simp add: rr_write_item_def Let_def write_variant_image entry_image_def)

text \<open>Reading.\<close>

definition log_rest :: "RR_log \<Rightarrow> u8 list" where
  "log_rest l = (case log_fp l of None \<Rightarrow> [] | Some f \<Rightarrow> f_rest f)"

definition log_advance :: "nat \<Rightarrow> RR_log \<Rightarrow> RR_log" where
  "log_advance n l = l\<lparr>log_fp := map_option (\<lambda>f. f\<lparr>f_pos := f_pos f + n\<rparr>) (log_fp l)\<rparr>"

lemma log_advance_simps [simp]:
  "log_type (log_advance n l) = log_type l"
  "last_prog_point (log_advance n l) = last_prog_point l"
  "log_name (log_advance n l) = log_name l"
  "log_size (log_advance n l) = log_size l"
  "bytes_read (log_advance n l) = bytes_read l"
  "current_item (log_advance n l) = current_item l"
  "item_number (log_advance n l) = item_number l"
  "log_fp (log_advance n l) = None \<longleftrightarrow> log_fp l = None"
  by (simp_all add: log_advance_def)

lemma bump_simps [simp]:
  "log_type (bump n l) = log_type l"
  "last_prog_point (bump n l) = last_prog_point l"
  "log_name (bump n l) = log_name l"
  "log_size (bump n l) = log_size l"
  "log_fp (bump n l) = log_fp l"
  "bytes_read (bump n l) = bytes_read l + of_nat n"
  "current_item (bump n l) = current_item l"
  "item_number (bump n l) = item_number l"
  "log_rest (bump n l) = log_rest l"
  by (simp_all add: bump_def log_rest_def)

lemma log_rest_advance [simp]: "log_rest (log_advance n l) = drop n (log_rest l)"
  by (cases "log_fp l") (simp_all add: log_rest_def log_advance_def)

lemma log_advance_advance [simp]: "log_advance m (log_advance n l) = log_advance (n + m) l"
  by (cases "log_fp l") (simp_all add: log_advance_def add.assoc)

lemma log_advance_bump [simp]: "log_advance m (bump n l) = bump n (log_advance m l)"
  by (simp add: log_advance_def bump_def)

lemma bump_bump [simp]: "bump m (bump n l) = bump (n + m) l"
  by (simp add: bump_def add.assoc)

lemma log_rest_fp: "log_rest l \<noteq> [] \<Longrightarrow> \<exists>f. log_fp l = Some f"
  by (auto simp: log_rest_def split: option.splits)

lemma log_read_rest:
  assumes "log_rest l = bs @ cs" and "length bs = n" and "0 < n"
  shows "log_read n exp l = Inr (bs, log_advance n l)"
proof -
  from assms log_rest_fp [of l] obtain f where f: "log_fp l = Some f" by auto
  with assms have "fread n f = (bs, f\<lparr>f_pos := f_pos f + n\<rparr>)"
    by (intro fread_enough) (auto simp: log_rest_def)
  with f assms show ?thesis by (simp add: log_read_def log_advance_def)
qed

lemma log_read_buf_rest:
  assumes "log_rest l = bs @ cs" and "length bs = n" and "0 < n"
  shows "log_read_buf n b l = Inr (host_store bs b, log_advance n l)"
    and "log_read_item_buf n b l = Inr (host_store bs b, log_advance n l)"
proof -
  from assms log_rest_fp [of l] obtain f where f: "log_fp l = Some f" by auto
  with assms have "fread n f = (bs, f\<lparr>f_pos := f_pos f + n\<rparr>)"
    by (intro fread_enough) (auto simp: log_rest_def)
  with f assms show "log_read_buf n b l = Inr (host_store bs b, log_advance n l)"
    and "log_read_item_buf n b l = Inr (host_store bs b, log_advance n l)"
    by (auto simp: log_read_buf_def log_read_item_buf_def log_advance_def)
qed

text \<open>A read that takes \<open>n\<close> bytes and counts them.\<close>

definition consume :: "nat \<Rightarrow> RR_log \<Rightarrow> RR_log" where
  "consume n l = bump n (log_advance n l)"

lemma unat_gt_0_word: "0 < unat w \<longleftrightarrow> w \<noteq> (0 :: 'a::len word)"
  by (metis bot_nat_0.not_eq_extremum unat_eq_zero)

lemmas read_rest = log_read_rest log_read_buf_rest

lemma read_call_args_image:
  assumes "writable_call c" and "\<not> empty_buffer c" and "log_rest l = call_image c @ cs"
  shows "read_call_args H k (skipped_call_code (call_kind c)) l =
    Inr (replayed_call H k c, k + variant_allocs (Skipped_call c),
         consume (length (call_image c)) l)"
  using assms
proof (cases c)
  case (Call_cpu_mem_rw a)
  with assms show ?thesis
    by (simp add: read_call_args_def Let_def consume_def mem_rw_of_image host_store_g_malloc
        unat_gt_0_word log_read_rest [of l "mem_rw_image a"]
        log_read_buf_rest [of _ "take (unat (rw_len a)) (host_bytes (rw_buf a))"])
next
  case (Call_cpu_mem_unmap a)
  with assms show ?thesis
    by (simp add: read_call_args_def Let_def consume_def mem_unmap_of_image host_store_g_malloc
        unat_gt_0_word log_read_rest [of l "mem_unmap_image a"]
        log_read_buf_rest [of _ "take (unat (um_len a)) (host_bytes (um_buf a))"])
next
  case (Call_handle_packet a oba)
  with assms show ?thesis
    by (simp add: read_call_args_def Let_def consume_def handle_packet_of_image host_store_g_malloc
        unat_gt_0_word log_read_rest [of l "handle_packet_image a"]
        log_read_buf_rest [of _ "take (unat (hp_size a)) (host_bytes (hp_buf a))"])
qed (simp_all add: read_call_args_def consume_def log_read_rest)

lemma field_single [simp]: "field 0 (Suc 0) [b] = (b :: u8)"
  by (simp add: field_def)

lemma field_le_bytes_0 [simp]:
  "LENGTH('a::len) = 8 * n \<Longrightarrow> field 0 n (le_bytes n (w :: 'a word)) = w"
  by (simp add: field_def)

lemma consume_0 [simp]: "consume 0 l = l"
  by (simp add: consume_def bump_def log_advance_def option.map_ident)

lemma read_variant_image:
  assumes "replayable_variant v" and "log_rest l = variant_image v @ cs"
  shows "read_variant H k (log_entry_kind_code (variant_kind v)) l =
    Inr (replayed_variant H k v, k + variant_allocs v, consume (length (variant_image v)) l)"
  using assms
proof (cases v)
  case (Input_1 d)
  with assms show ?thesis
    by (simp add: read_variant_def consume_def log_read_rest [of l "[d]"])
next
  case (Skipped_call c)
  with assms have "read_call_args H k (skipped_call_code (call_kind c)) (bump 1 (log_advance 1 l)) =
    Inr (replayed_call H k c, k + variant_allocs (Skipped_call c),
         consume (length (call_image c)) (bump 1 (log_advance 1 l)))"
    by (intro read_call_args_image) simp_all
  with Skipped_call assms show ?thesis
    by (simp add: read_variant_def consume_def log_read_rest [of l "[skipped_call_code (call_kind c)]"])
next
  case Debug_entry
  then show ?thesis by (simp add: read_variant_def)
next
  case Last_entry
  then show ?thesis by (simp add: read_variant_def)
qed (simp_all add: read_variant_def consume_def log_read_rest)

lemma read_entry_image:
  assumes "replayable e" and "log_rest l = entry_image e @ cs" and "\<not> rr_log_is_empty l"
  shows "read_entry H k RR_REPLAY l =
    Inr (replayed_entry H k e, k + variant_allocs (variant e),
         (consume (length (entry_image e)) l)\<lparr>item_number := item_number l + 1\<rparr>)"
proof -
  let ?kd = "[log_entry_kind_code (kind e)]" and ?cs = "[callsite_loc e]"
  have rest: "log_rest l = prog_point_image (prog_point e) @ ?kd @ ?cs @ variant_image (variant e) @ cs"
    using assms by (simp add: entry_image_def)
  then have "log_rest l \<noteq> []" by simp
  then have fp: "log_fp l \<noteq> None"
    using log_rest_fp by fastforce
  have r1: "log_read 24 exp l = Inr (prog_point_image (prog_point e), log_advance 24 l)" for exp
    using rest by (intro log_read_rest) simp_all
  have r2: "log_read 1 exp (log_advance 24 l) = Inr (?kd, log_advance 25 l)" for exp
    using rest by (subst log_read_rest) simp_all
  have r3: "log_read 1 exp (log_advance 25 l) = Inr (?cs, log_advance 26 l)" for exp
    using rest by (subst log_read_rest) simp_all
  have rv: "read_variant H k (log_entry_kind_code (kind e)) (bump 26 (log_advance 26 l)) =
    Inr (replayed_variant H k (variant e), k + variant_allocs (variant e),
         consume (length (variant_image (variant e))) (bump 26 (log_advance 26 l)))"
    using assms(1) rest by (intro read_variant_image) simp_all
  from assms(3) fp show ?thesis
    by (simp add: read_entry_def r1 r2 [simplified] r3 [simplified] rv replayed_entry_def consume_def
        entry_image_def)
qed

text \<open>
  An entry whose buffer is empty passes \<open>rr_write_item\<close>, but the read of its buffer returns
  0 and fails the assertion that guards it.
\<close>

lemma log_read_buf_0 [simp]:
  "log_fp l \<noteq> None \<Longrightarrow> log_read_buf 0 b l = Inl (Assert_fail ''fread(buf, 1, len, fp) > 0'')"
  "log_fp l \<noteq> None \<Longrightarrow> log_read_item_buf 0 b l = Inl (Assert_fail ''fread(buf, size, 1, fp) == 1'')"
  by (auto simp: log_read_buf_def log_read_item_buf_def fread_def Let_def)

lemma read_call_args_empty:
  assumes "empty_buffer c" and "log_rest l = call_image c @ cs"
  shows "\<exists>exp. read_call_args H k (skipped_call_code (call_kind c)) l = Inl (Assert_fail exp)"
proof -
  have "log_rest l \<noteq> []"
    using assms by (cases c) (auto simp flip: length_greater_0_conv)
  then have fp: "log_fp l \<noteq> None"
    using log_rest_fp by fastforce
  with assms show ?thesis
    by (cases c) (simp_all add: read_call_args_def Let_def mem_rw_of_image mem_unmap_of_image
        handle_packet_of_image log_read_rest)
qed

lemma read_entry_empty_buffer:
  assumes "variant e = Skipped_call c" and "empty_buffer c"
    and "log_rest l = entry_image e @ cs" and "\<not> rr_log_is_empty l"
  shows "\<exists>exp. read_entry H k RR_REPLAY l = Inl (Assert_fail exp)"
proof -
  let ?kd = "[log_entry_kind_code RR_SKIPPED_CALL]" and ?cs = "[callsite_loc e]"
  let ?ck = "[skipped_call_code (call_kind c)]"
  have rest: "log_rest l = prog_point_image (prog_point e) @ ?kd @ ?cs @ ?ck @ call_image c @ cs"
    using assms by (simp add: entry_image_def)
  then have "log_rest l \<noteq> []" by simp
  then have fp: "log_fp l \<noteq> None"
    using log_rest_fp by fastforce
  have r1: "log_read 24 exp l = Inr (prog_point_image (prog_point e), log_advance 24 l)" for exp
    using rest by (intro log_read_rest) simp_all
  have r2: "log_read (Suc 0) exp (log_advance 24 l) = Inr (?kd, log_advance 25 l)" for exp
    using rest by (subst log_read_rest) simp_all
  have r3: "log_read (Suc 0) exp (log_advance 25 l) = Inr (?cs, log_advance 26 l)" for exp
    using rest by (subst log_read_rest) simp_all
  have r4: "log_read (Suc 0) exp (bump 26 (log_advance 26 l)) = Inr (?ck, bump 26 (log_advance 27 l))" for exp
    using rest by (subst log_read_rest) simp_all
  obtain exp where
    "read_call_args H k (skipped_call_code (call_kind c)) (bump 27 (log_advance 27 l)) = Inl (Assert_fail exp)"
    using read_call_args_empty [OF assms(2), of "bump 27 (log_advance 27 l)" cs H k] rest by auto
  then show ?thesis
    using assms(4) fp by (simp add: read_entry_def r1 r2 r3 r4 read_variant_def)
qed

text \<open>What a successful read keeps of the log, whatever the file holds.\<close>

definition log_step :: "nat \<Rightarrow> RR_log \<Rightarrow> RR_log \<Rightarrow> bool" where
  "log_step n l l' \<longleftrightarrow> log_type l' = log_type l \<and> last_prog_point l' = last_prog_point l
     \<and> log_name l' = log_name l \<and> log_size l' = log_size l
     \<and> length (log_rest l') + n \<le> length (log_rest l) \<and> log_fp l' \<noteq> None"

lemma log_step_trans: "log_step m l l' \<Longrightarrow> log_step n l' l'' \<Longrightarrow> log_step (m + n) l l''"
  by (simp add: log_step_def)

lemma log_step_bump [simp]:
  "log_step n l (bump m l') = log_step n l l'"
  "log_step n (bump m l) l' = log_step n l l'"
  by (simp_all add: log_step_def)

lemma log_step_item_number [simp]: "log_step n l (l'\<lparr>item_number := i\<rparr>) = log_step n l l'"
  by (simp add: log_step_def log_rest_def)

lemma log_read_step: "log_read n exp l = Inr (bs, l') \<Longrightarrow> log_step n l l' \<and> length bs = n"
  by (auto simp: log_read_def log_step_def log_rest_def fread_def Let_def f_rest_def
      split: option.splits if_splits)

lemma log_read_buf_step:
  "log_read_buf n b l = Inr (b', l') \<Longrightarrow> log_step 0 l l'"
  "log_read_item_buf n b l = Inr (b', l') \<Longrightarrow> log_step 0 l l'"
  by (auto simp: log_read_buf_def log_read_item_buf_def log_step_def log_rest_def fread_def Let_def
      f_rest_def split: option.splits if_splits)

lemma log_step_mono: "log_step m l l' \<Longrightarrow> n \<le> m \<Longrightarrow> log_step n l l'"
  by (simp add: log_step_def)

lemmas log_step_intros = log_read_step [THEN conjunct1] log_read_buf_step

lemma read_call_args_step: "read_call_args H k c l = Inr (a, k', l') \<Longrightarrow> log_step 16 l l'"
  by (auto simp: read_call_args_def Let_def split: if_splits dest!: log_step_intros)
    (auto simp: log_step_def)

lemma read_variant_step: "read_variant H k c l = Inr (v, k', l') \<Longrightarrow> log_fp l \<noteq> None \<Longrightarrow> log_step 0 l l'"
  by (auto simp: read_variant_def split: if_splits dest!: log_step_intros read_call_args_step)
    (auto simp: log_step_def)

lemma read_entry_step: "read_entry H k m l = Inr (e, k', l') \<Longrightarrow> log_step 26 l l'"
proof -
  assume r: "read_entry H k m l = Inr (e, k', l')"
  then obtain pp kd cs v l1 l2 l3 l4 where
    "log_read 24 ''0'' l = Inr (pp, l1)" "log_read 1 ''kind'' l1 = Inr (kd, l2)"
    "log_read 1 ''callsite_loc'' l2 = Inr (cs, l3)"
    and v: "read_variant H k (field 0 1 kd) (bump 26 l3) = Inr (v, k', l4)"
    and l': "l' = l4\<lparr>item_number := item_number l4 + 1\<rparr>"
    by (auto simp: read_entry_def)
  then have "log_step 24 l l1" "log_step 1 l1 l2" "log_step 1 l2 l3"
    by (auto dest: log_read_step)
  moreover from this v have "log_step 0 l3 l4"
    using read_variant_step [OF v] by (auto simp: log_step_def)
  ultimately show ?thesis
    unfolding l' log_step_item_number by (auto simp: log_step_def)
qed

section \<open>Properties\<close>


text \<open>One byte of input, recorded at the end of a log and read from the start of another.\<close>

definition example_entry :: RR_log_entry where
  "example_entry = \<lparr>prog_point = \<lparr>pc = 4096, secondary = 7, guest_instr_count = 12\<rparr>,
     callsite_loc = RR_CALLSITE_CPU_EXEC_2, variant = Input_1 255\<rparr>"

definition example_log :: "RR_log_type \<Rightarrow> FILE \<Rightarrow> RR_log" where
  "example_log t f = \<lparr>log_type = t, last_prog_point = zero_prog_point, log_name = ''x'', log_fp = Some f,
     log_size = 27, bytes_read = 0, current_item = example_entry, item_number = 0\<rparr>"

lemma example_log_simps [simp]:
  "log_fp (example_log t f) = Some f" "current_item (example_log t f) = example_entry"
  "log_rest (example_log t (fopen_r bs)) = bs" "\<not> rr_log_is_empty (example_log t f)"
  by (simp_all add: example_log_def log_rest_def fopen_r_def f_rest_def rr_log_is_empty_def)

lemma example_entry_simps:
  "replayed_entry H k example_entry = example_entry" "variant_allocs (variant example_entry) = 0"
  "replayable example_entry" "length (entry_image example_entry) = 27" "bytes_read (example_log t f) = 0"
  by (simp_all add: example_entry_def replayed_entry_def entry_image_def example_log_def)


text \<open>
  An entry for a skipped call whose buffer is empty is accepted by \<^verbatim>\<open>rr_write_item\<close>, and its
  bytes can never be read back: \<^verbatim>\<open>rr_read_item\<close> fails the assertion on the read of the buffer.
\<close>

theorem empty_buffer_unreadable:
  assumes "log_fp l = Some f" and "at_end f" and "variant (current_item l) = Skipped_call c"
    and "empty_buffer c" and "writable_call c"
    and "log_rest r = entry_image (current_item l) @ rest" and "\<not> rr_log_is_empty r"
  shows "(\<exists>l'. rr_write_item RR_RECORD (Some l) = Inr (Some l'))
    \<and> (\<exists>exp. read_entry H k RR_REPLAY r = Inl (Assert_fail exp))"
  using rr_write_item_image [of l f] at_end_imp_f_ok [of f]
    read_entry_empty_buffer [OF assms(3,4,6,7), of H k] assms(1,2,3,5) by simp

definition example_empty :: RR_log_entry where
  "example_empty = \<lparr>prog_point = zero_prog_point, callsite_loc = RR_CALLSITE_MAIN_LOOP_WAIT,
     variant = Skipped_call (Call_cpu_mem_rw \<lparr>rw_addr = 4096, rw_buf = Host_NULL, rw_len = 0\<rparr>)\<rparr>"

theorem empty_buffer_unreadable_witness:
  "\<exists>exp. read_entry \<lparr>h_addr = \<lambda>_. 0, h_fill = \<lambda>_ _. 0\<rparr> 0 RR_REPLAY
      (example_log REPLAY (fopen_r (entry_image example_empty))) = Inl (Assert_fail exp)"
  using empty_buffer_unreadable [of "(example_log RECORD fopen_w)\<lparr>current_item := example_empty\<rparr>" fopen_w
      "Call_cpu_mem_rw \<lparr>rw_addr = 4096, rw_buf = Host_NULL, rw_len = 0\<rparr>"
      "example_log REPLAY (fopen_r (entry_image example_empty))" "[]" "\<lparr>h_addr = \<lambda>_. 0, h_fill = \<lambda>_ _. 0\<rparr>" 0]
  by (simp add: example_empty_def)

end
