(* ===== verification/RR_Queue.thy ===== *)
theory RR_Queue
  imports RR_Codec
begin

text \<open>
  The replay queue of \<^verbatim>\<open>qemu/rr_log.c\<close> as the code keeps it: entries in memory linked by
  \<^verbatim>\<open>next\<close>, the globals \<^verbatim>\<open>rr_queue_head\<close>, \<^verbatim>\<open>rr_queue_tail\<close> and \<^verbatim>\<open>recycle_list\<close>, and
  the ring of the last ten entries. \<open>q_shape\<close> says which addresses form the queue, which the
  recycle list, and which are held by the caller; every operation is shown to keep it.
  The locale \<open>fifo\<close> is the interface the replay code relies on, interpreted on these
  operations: they are a first-in first-out queue and never touch freed memory.
\<close>

section \<open>The store\<close>

record rr_store =
  q_heap :: "nat \<Rightarrow> (RR_log_entry \<times> nat option) option"
  q_fresh :: nat
  rr_queue_head :: "nat option"
  rr_queue_tail :: "nat option"
  recycle_list :: "nat option"
  rr_log_entry_history :: "RR_log_entry list"
  rr_hist_index :: nat

definition RR_HIST_SIZE :: nat where
  "RR_HIST_SIZE = 10"

definition init_store :: rr_store where
  "init_store = \<lparr>q_heap = Map.empty, q_fresh = 0, rr_queue_head = None, rr_queue_tail = None,
     recycle_list = None, rr_log_entry_history = replicate RR_HIST_SIZE zero_entry,
     rr_hist_index = 0\<rparr>"

text \<open>Writing the fields of an allocated entry.\<close>

definition store_entry :: "nat \<Rightarrow> RR_log_entry \<Rightarrow> rr_store \<Rightarrow> rr_exit + rr_store" where
  "store_entry p e q =
     (case q_heap q p of
        None \<Rightarrow> Inl Use_after_free
      | Some (_, nx) \<Rightarrow> Inr (q\<lparr>q_heap := (q_heap q)(p \<mapsto> (e, nx))\<rparr>))"

fun free_call_params :: "RR_skipped_call_args \<Rightarrow> RR_skipped_call_args" where
  "free_call_params (Call_cpu_mem_rw a) = Call_cpu_mem_rw (a\<lparr>rw_buf := Host_NULL\<rparr>)"
| "free_call_params (Call_cpu_mem_unmap a) = Call_cpu_mem_unmap (a\<lparr>um_buf := Host_NULL\<rparr>)"
| "free_call_params (Call_handle_packet a oba) = Call_handle_packet (a\<lparr>hp_buf := Host_NULL\<rparr>) oba"
| "free_call_params c = c"

fun free_variant_params :: "RR_variant \<Rightarrow> RR_variant" where
  "free_variant_params (Skipped_call c) = Skipped_call (free_call_params c)"
| "free_variant_params v = v"

definition free_entry_params :: "RR_log_entry \<Rightarrow> RR_log_entry" where
  "free_entry_params e = e\<lparr>variant := free_variant_params (variant e)\<rparr>"

definition add_to_recycle_list :: "nat \<Rightarrow> rr_store \<Rightarrow> rr_exit + rr_store" where
  "add_to_recycle_list p q =
     (case q_heap q p of
        None \<Rightarrow> Inl Use_after_free
      | Some (e, nx) \<Rightarrow>
          let e = free_entry_params e;
              nx = (if recycle_list q = None then nx else recycle_list q)
          in Inr (q\<lparr>q_heap := (q_heap q)(p \<mapsto> (e, nx)),
                    recycle_list := Some p,
                    rr_log_entry_history := (rr_log_entry_history q)[rr_hist_index q := e],
                    rr_hist_index := (rr_hist_index q + 1) mod RR_HIST_SIZE\<rparr>))"

definition alloc_new_entry :: "rr_store \<Rightarrow> rr_exit + (nat \<times> rr_store)" where
  "alloc_new_entry q =
     (case recycle_list q of
        Some p \<Rightarrow>
          (case q_heap q p of
             None \<Rightarrow> Inl Use_after_free
           | Some (_, nx) \<Rightarrow>
               Inr (p, q\<lparr>recycle_list := nx, q_heap := (q_heap q)(p \<mapsto> (zero_entry, None))\<rparr>))
      | None \<Rightarrow>
          Inr (q_fresh q, q\<lparr>q_heap := (q_heap q)(q_fresh q \<mapsto> (zero_entry, None)),
                            q_fresh := Suc (q_fresh q)\<rparr>))"

text \<open>Adding an entry at the tail, as \<^verbatim>\<open>rr_fill_queue\<close> does.\<close>

definition queue_append :: "nat \<Rightarrow> rr_store \<Rightarrow> rr_exit + rr_store" where
  "queue_append p q =
     (if rr_queue_head q = None then
        Inr (q\<lparr>rr_queue_head := Some p, rr_queue_tail := Some p\<rparr>)
      else
        case rr_queue_tail q of
          None \<Rightarrow> Inl Null_deref
        | Some t \<Rightarrow>
            (case q_heap q t of
               None \<Rightarrow> Inl Use_after_free
             | Some (e, _) \<Rightarrow>
                 Inr (q\<lparr>q_heap := (q_heap q)(t \<mapsto> (e, Some p)), rr_queue_tail := Some p\<rparr>)))"

text \<open>Reading and removing the entry at the head, as \<^verbatim>\<open>get_next_entry\<close> does.\<close>

definition queue_head_entry :: "rr_store \<Rightarrow> rr_exit + RR_log_entry" where
  "queue_head_entry q =
     (case rr_queue_head q of
        None \<Rightarrow> Inl Null_deref
      | Some p \<Rightarrow> (case q_heap q p of None \<Rightarrow> Inl Use_after_free | Some (e, _) \<Rightarrow> Inr e))"

definition queue_pop :: "rr_store \<Rightarrow> rr_exit + (nat \<times> rr_store)" where
  "queue_pop q =
     (case rr_queue_head q of
        None \<Rightarrow> Inl Null_deref
      | Some p \<Rightarrow>
          (case q_heap q p of
             None \<Rightarrow> Inl Use_after_free
           | Some (e, nx) \<Rightarrow>
               Inr (p, q\<lparr>rr_queue_head := nx, q_heap := (q_heap q)(p \<mapsto> (e, None)),
                         rr_queue_tail := (if Some p = rr_queue_tail q then None
                                           else rr_queue_tail q)\<rparr>)))"

definition read_entry_at :: "nat \<Rightarrow> rr_store \<Rightarrow> rr_exit + RR_log_entry" where
  "read_entry_at p q = (case q_heap q p of None \<Rightarrow> Inl Use_after_free | Some (e, _) \<Rightarrow> Inr e)"

text \<open>
  The two loops of \<^verbatim>\<open>rr_do_end_replay\<close> that free the recycle list and the queue. The bound
  \<open>n\<close> is the number of addresses ever allocated: after that many frees nothing is allocated
  any more, so a further link leads to freed memory. \<open>free_loop_shape\<close> shows that the loops end.
\<close>

fun free_loop :: "nat \<Rightarrow> nat option \<Rightarrow> (nat \<Rightarrow> (RR_log_entry \<times> nat option) option)
    \<Rightarrow> rr_exit + (nat \<Rightarrow> (RR_log_entry \<times> nat option) option)" where
  "free_loop n None h = Inr h"
| "free_loop 0 (Some p) h = Inl Use_after_free"
| "free_loop (Suc n) (Some p) h =
     (case h p of
        None \<Rightarrow> Inl Use_after_free
      | Some (e, nx) \<Rightarrow> free_loop n nx (h(p := None)))"

definition free_recycle_list :: "rr_store \<Rightarrow> rr_exit + rr_store" where
  "free_recycle_list q =
     bindR (free_loop (q_fresh q) (recycle_list q) (q_heap q)) (\<lambda>h.
     Inr (q\<lparr>q_heap := h, recycle_list := None\<rparr>))"

definition free_queue :: "rr_store \<Rightarrow> rr_exit + rr_store" where
  "free_queue q =
     bindR (free_loop (q_fresh q) (rr_queue_head q) (q_heap q)) (\<lambda>h.
     Inr (q\<lparr>q_heap := h, rr_queue_head := None, rr_queue_tail := None\<rparr>))"

section \<open>The shape of the store\<close>

fun lseg :: "(nat \<Rightarrow> (RR_log_entry \<times> nat option) option) \<Rightarrow> nat option \<Rightarrow> nat list \<Rightarrow> bool" where
  "lseg h p [] \<longleftrightarrow> p = None"
| "lseg h p (a # as) \<longleftrightarrow> p = Some a \<and> (\<exists>e nx. h a = Some (e, nx) \<and> lseg h nx as)"

definition q_shape :: "rr_store \<Rightarrow> nat list \<Rightarrow> nat list \<Rightarrow> nat list \<Rightarrow> bool" where
  "q_shape q ps rs fs \<longleftrightarrow>
     lseg (q_heap q) (rr_queue_head q) ps \<and> lseg (q_heap q) (recycle_list q) rs
     \<and> distinct (ps @ rs @ fs)
     \<and> rr_queue_tail q = (if ps = [] then None else Some (last ps))
     \<and> (\<forall>p \<in> set fs. \<exists>e. q_heap q p = Some (e, None))
     \<and> (\<forall>a. q_fresh q \<le> a \<longrightarrow> q_heap q a = None)
     \<and> length (rr_log_entry_history q) = RR_HIST_SIZE \<and> rr_hist_index q < RR_HIST_SIZE"

text \<open>The queued entries, read off the links.\<close>

fun follow :: "nat \<Rightarrow> (nat \<Rightarrow> (RR_log_entry \<times> nat option) option) \<Rightarrow> nat option \<Rightarrow> RR_log_entry list" where
  "follow 0 h p = []"
| "follow (Suc n) h None = []"
| "follow (Suc n) h (Some a) =
     (case h a of None \<Rightarrow> [] | Some (e, nx) \<Rightarrow> e # follow n h nx)"

definition q_entries :: "rr_store \<Rightarrow> RR_log_entry list" where
  "q_entries q = follow (q_fresh q) (q_heap q) (rr_queue_head q)"

lemma lseg_dom: "lseg h p as \<Longrightarrow> a \<in> set as \<Longrightarrow> \<exists>c. h a = Some c"
  by (induction as arbitrary: p) auto

lemma lseg_upd [simp]: "a \<notin> set as \<Longrightarrow> lseg (h(a := c)) p as = lseg h p as"
  by (induction as arbitrary: p) auto

lemma lseg_restrict: "set as \<subseteq> A \<Longrightarrow> lseg (h |` A) p as = lseg h p as"
  by (induction as arbitrary: p) auto

lemma restrict_None: "h a = None \<Longrightarrow> (h |` A) a = None"
  by (simp add: restrict_map_def)

lemma lseg_None [simp]: "lseg h None as \<longleftrightarrow> as = []"
  by (cases as) auto

lemma lseg_Some_iff:
  "lseg h (Some a) as \<longleftrightarrow> (\<exists>bs e nx. as = a # bs \<and> h a = Some (e, nx) \<and> lseg h nx bs)"
  by (cases as) auto

lemma follow_lseg:
  "lseg h p as \<Longrightarrow> length as \<le> n \<Longrightarrow> follow n h p = map (fst \<circ> the \<circ> h) as"
proof (induction as arbitrary: n p)
  case Nil
  then show ?case by (cases n) auto
next
  case (Cons a as)
  then obtain m where "n = Suc m" by (cases n) auto
  with Cons show ?case by auto
qed

lemma q_shape_bound:
  assumes "q_shape q ps rs fs"
  shows "set (ps @ rs @ fs) \<subseteq> {..<q_fresh q}" and "length (ps @ rs @ fs) \<le> q_fresh q"
proof -
  show sub: "set (ps @ rs @ fs) \<subseteq> {..<q_fresh q}"
  proof
    fix a assume "a \<in> set (ps @ rs @ fs)"
    then have "\<exists>c. q_heap q a = Some c"
      using assms by (auto simp: q_shape_def dest: lseg_dom)
    then show "a \<in> {..<q_fresh q}"
      using assms by (auto simp: q_shape_def not_less)
  qed
  have "length (ps @ rs @ fs) = card (set (ps @ rs @ fs))"
    using assms by (simp add: q_shape_def distinct_card del: set_append length_append)
  also have "\<dots> \<le> card {..<q_fresh q}"
    by (rule card_mono [OF _ sub]) simp
  finally show "length (ps @ rs @ fs) \<le> q_fresh q" by simp
qed

lemma q_entries_shape:
  "q_shape q ps rs fs \<Longrightarrow> q_entries q = map (fst \<circ> the \<circ> q_heap q) ps"
  unfolding q_entries_def using q_shape_bound(2) [of q ps rs fs]
  by (intro follow_lseg) (auto simp: q_shape_def)

section \<open>Every operation keeps the shape\<close>

lemma lseg_snoc:
  assumes "lseg h p as" and "as \<noteq> []" and "distinct as" and "b \<notin> set as"
    and "h (last as) = Some (e, nx)" and "h b = Some (e', None)"
  shows "lseg (h(last as \<mapsto> (e, Some b))) p (as @ [b])"
  using assms
proof (induction as arbitrary: p)
  case Nil
  then show ?case by simp
next
  case (Cons a as)
  show ?case
  proof (cases "as = []")
    case True
    with Cons.prems show ?thesis by auto
  next
    case False
    with Cons show ?thesis by auto
  qed
qed

lemma alloc_new_entry_shape:
  assumes "q_shape q ps rs fs"
  obtains p q' where "alloc_new_entry q = Inr (p, q')" and "q_shape q' ps (tl rs) (p # fs)"
    and "q_entries q' = q_entries q"
proof (cases "recycle_list q")
  case None
  let ?q = "q\<lparr>q_heap := (q_heap q)(q_fresh q \<mapsto> (zero_entry, None)), q_fresh := Suc (q_fresh q)\<rparr>"
  have "q_fresh q \<notin> set (ps @ rs @ fs)"
    using q_shape_bound(1) [OF assms] by auto
  with assms None have sh: "q_shape ?q ps (tl rs) (q_fresh q # fs)"
    by (auto simp: q_shape_def)
  show ?thesis
  proof (rule that)
    show "alloc_new_entry q = Inr (q_fresh q, ?q)" using None by (simp add: alloc_new_entry_def)
    show "q_entries ?q = q_entries q"
      using \<open>q_fresh q \<notin> set (ps @ rs @ fs)\<close>
      by (auto simp: q_entries_shape [OF sh] q_entries_shape [OF assms])
  qed (rule sh)
next
  case (Some p)
  with assms obtain rs' e nx where rs: "rs = p # rs'" "q_heap q p = Some (e, nx)" "lseg (q_heap q) nx rs'"
    by (auto simp: q_shape_def lseg_Some_iff)
  let ?q = "q\<lparr>recycle_list := nx, q_heap := (q_heap q)(p \<mapsto> (zero_entry, None))\<rparr>"
  have sh: "q_shape ?q ps (tl rs) (p # fs)"
    using assms rs by (auto simp: q_shape_def)
  show ?thesis
  proof (rule that)
    show "alloc_new_entry q = Inr (p, ?q)" using Some rs by (simp add: alloc_new_entry_def)
    show "q_entries ?q = q_entries q"
      using assms rs by (auto simp: q_entries_shape [OF sh] q_entries_shape [OF assms] q_shape_def)
  qed (rule sh)
qed

lemma store_entry_shape:
  assumes "q_shape q ps rs (p # fs)"
  obtains q' where "store_entry p e q = Inr q'" and "q_shape q' ps rs (p # fs)"
    and "q_entries q' = q_entries q" and "q_heap q' p = Some (e, None)"
proof -
  from assms obtain e0 where p: "q_heap q p = Some (e0, None)"
    by (auto simp: q_shape_def)
  let ?q = "q\<lparr>q_heap := (q_heap q)(p \<mapsto> (e, None))\<rparr>"
  have sh: "q_shape ?q ps rs (p # fs)"
    using assms p by (auto simp: q_shape_def)
  show ?thesis
  proof (rule that)
    show "store_entry p e q = Inr ?q" using p by (simp add: store_entry_def)
    show "q_entries ?q = q_entries q"
      using assms by (auto simp: q_entries_shape [OF sh] q_entries_shape [OF assms] q_shape_def)
  qed (use sh in simp_all)
qed

lemma queue_append_shape:
  assumes "q_shape q ps rs (p # fs)" and "q_heap q p = Some (e, None)"
  obtains q' where "queue_append p q = Inr q'" and "q_shape q' (ps @ [p]) rs fs"
    and "q_entries q' = q_entries q @ [e]"
proof (cases "ps = []")
  case True
  let ?q = "q\<lparr>rr_queue_head := Some p, rr_queue_tail := Some p\<rparr>"
  have sh: "q_shape ?q (ps @ [p]) rs fs"
    using assms True by (auto simp: q_shape_def)
  show ?thesis
  proof (rule that)
    show "queue_append p q = Inr ?q"
      using assms True by (simp add: queue_append_def q_shape_def)
    show "q_entries ?q = q_entries q @ [e]"
      using assms True by (simp add: q_entries_shape [OF sh] q_entries_shape [OF assms(1)])
  qed (rule sh)
next
  case False
  let ?t = "last ps"
  from assms False have lt: "?t \<in> set ps" by simp
  from assms have "lseg (q_heap q) (rr_queue_head q) ps" by (simp add: q_shape_def)
  from lseg_dom [OF this lt] obtain e' nx where t: "q_heap q ?t = Some (e', nx)" by auto
  let ?q = "q\<lparr>q_heap := (q_heap q)(?t \<mapsto> (e', Some p)), rr_queue_tail := Some p\<rparr>"
  have lp: "lseg (q_heap ?q) (rr_queue_head q) (ps @ [p])"
    using assms False t lseg_snoc [of "q_heap q" "rr_queue_head q" ps p e' nx e]
    by (auto simp: q_shape_def)
  have tr: "?t \<notin> set rs" "?t \<notin> set fs" "?t \<noteq> p"
    using assms lt by (auto simp: q_shape_def)
  from assms(1) t have "?t < q_fresh q"
    by (metis not_less option.distinct(1) q_shape_def)
  then have sh: "q_shape ?q (ps @ [p]) rs fs"
    using assms lp tr by (auto simp: q_shape_def)
  show ?thesis
  proof (rule that)
    show "queue_append p q = Inr ?q"
      using assms False t by (cases ps) (auto simp: queue_append_def q_shape_def)
    have "map (fst \<circ> the \<circ> q_heap ?q) ps = map (fst \<circ> the \<circ> q_heap q) ps"
      using t by auto
    then show "q_entries ?q = q_entries q @ [e]"
      using assms(2) tr
      by (simp add: q_entries_shape [OF sh] q_entries_shape [OF assms(1)])
  qed (rule sh)
qed

lemma queue_head_entry_shape:
  assumes "q_shape q ps rs fs" and "q_entries q = e # es"
  shows "queue_head_entry q = Inr e"
  using assms q_entries_shape [OF assms(1)]
  by (cases ps) (auto simp: q_shape_def queue_head_entry_def)

lemma queue_pop_shape:
  assumes "q_shape q ps rs fs" and "q_entries q = e # es"
  obtains p q' where "queue_pop q = Inr (p, q')" and "q_shape q' (tl ps) rs (p # fs)"
    and "q_entries q' = es" and "q_heap q' p = Some (e, None)"
proof -
  from assms obtain p ps' nx where ps: "ps = p # ps'" "rr_queue_head q = Some p"
      "q_heap q p = Some (e, nx)" "lseg (q_heap q) nx ps'"
    using q_entries_shape [OF assms(1)] by (cases ps) (auto simp: q_shape_def)
  let ?q = "q\<lparr>rr_queue_head := nx, q_heap := (q_heap q)(p \<mapsto> (e, None)),
              rr_queue_tail := (if Some p = rr_queue_tail q then None else rr_queue_tail q)\<rparr>"
  have "(if Some p = rr_queue_tail q then None else rr_queue_tail q)
      = (if ps' = [] then None else Some (last ps'))"
    using assms(1) ps by (auto simp: q_shape_def)
  moreover from assms(1) ps have "p < q_fresh q"
    by (metis not_less option.distinct(1) q_shape_def)
  ultimately have sh: "q_shape ?q (tl ps) rs (p # fs)"
    using assms(1) ps by (auto simp: q_shape_def)
  show ?thesis
  proof (rule that)
    show "queue_pop q = Inr (p, ?q)" using ps by (simp add: queue_pop_def)
    have "q_entries ?q = map (fst \<circ> the \<circ> q_heap ?q) (tl ps)"
      by (rule q_entries_shape [OF sh])
    also have "\<dots> = map (fst \<circ> the \<circ> q_heap q) (tl ps)"
      using assms(1) ps by (auto simp: q_shape_def)
    also have "\<dots> = es"
      using assms(2) ps by (simp add: q_entries_shape [OF assms(1)])
    finally show "q_entries ?q = es" .
  qed (use sh in simp_all)
qed

lemma add_to_recycle_list_shape:
  assumes "q_shape q ps rs (p # fs)"
  obtains q' where "add_to_recycle_list p q = Inr q'" and "q_shape q' ps (p # rs) fs"
    and "q_entries q' = q_entries q"
proof -
  from assms obtain e where p: "q_heap q p = Some (e, None)"
    by (auto simp: q_shape_def)
  let ?e = "free_entry_params e"
  let ?q = "q\<lparr>q_heap := (q_heap q)(p \<mapsto> (?e, recycle_list q)), recycle_list := Some p,
      rr_log_entry_history := (rr_log_entry_history q)[rr_hist_index q := ?e],
      rr_hist_index := Suc (rr_hist_index q) mod RR_HIST_SIZE\<rparr>"
  have sh: "q_shape ?q ps (p # rs) fs"
    using assms p by (auto simp: q_shape_def RR_HIST_SIZE_def)
  show ?thesis
  proof (rule that)
    show "add_to_recycle_list p q = Inr ?q"
      using p by (cases "recycle_list q") (simp_all add: add_to_recycle_list_def Let_def)
    show "q_entries ?q = q_entries q"
      using assms by (auto simp: q_entries_shape [OF sh] q_entries_shape [OF assms] q_shape_def)
  qed (rule sh)
qed

lemma free_loop_shape:
  assumes "lseg h p as" and "distinct as" and "length as \<le> n"
  shows "free_loop n p h = Inr (h |` (- set as))"
  using assms
proof (induction as arbitrary: n p h)
  case Nil
  then show ?case by simp
next
  case (Cons a as)
  then obtain m e nx where m: "n = Suc m" and a: "p = Some a" "h a = Some (e, nx)" "lseg h nx as"
    by (cases n) auto
  have "lseg (h(a := None)) nx as" and "distinct as" and "length as \<le> m"
    using Cons.prems a m by simp_all
  then have "free_loop m nx (h(a := None)) = Inr ((h(a := None)) |` (- set as))"
    by (rule Cons.IH)
  moreover have "(h(a := None)) |` (- set as) = h |` (- set (a # as))"
    by (rule ext) (simp add: restrict_map_def)
  ultimately show ?case
    using m a by simp
qed

section \<open>The interface: a first-in first-out queue\<close>

text \<open>
  Besides the queue and the recycle list there may be entries that nobody will use again:
  \<^verbatim>\<open>get_next_entry\<close> drops \<^verbatim>\<open>RR_DEBUG\<close> entries without recycling them.
\<close>

definition q_inv :: "rr_store \<Rightarrow> bool" where
  "q_inv q \<longleftrightarrow> (\<exists>ps rs fs. q_shape q ps rs fs)"

text \<open>
  What the body of \<^verbatim>\<open>rr_fill_queue\<close> does with an entry (allocate, fill, append), and what
  a replay function does with the head (unlink, use, recycle).
\<close>

definition queue_put :: "RR_log_entry \<Rightarrow> rr_store \<Rightarrow> rr_exit + rr_store" where
  "queue_put e q =
     bindR (alloc_new_entry q) (\<lambda>(p, q). bindR (store_entry p e q) (queue_append p))"

definition queue_take :: "rr_store \<Rightarrow> rr_exit + (RR_log_entry \<times> rr_store)" where
  "queue_take q =
     bindR (queue_pop q) (\<lambda>(p, q). bindR (read_entry_at p q) (\<lambda>e.
     bindR (add_to_recycle_list p q) (\<lambda>q. Inr (e, q))))"

primrec put_all :: "('e \<Rightarrow> 'q \<Rightarrow> 'x + 'q) \<Rightarrow> 'e list \<Rightarrow> 'q \<Rightarrow> 'x + 'q" where
  "put_all enq [] q = Inr q"
| "put_all enq (e # es) q = bindR (enq e q) (put_all enq es)"

primrec take_n :: "('q \<Rightarrow> 'x + ('e \<times> 'q)) \<Rightarrow> nat \<Rightarrow> 'q \<Rightarrow> 'x + ('e list \<times> 'q)" where
  "take_n deq 0 q = Inr ([], q)"
| "take_n deq (Suc n) q =
     bindR (deq q) (\<lambda>(e, q). bindR (take_n deq n q) (\<lambda>(es, q). Inr (e # es, q)))"

locale fifo =
  fixes invar :: "'q \<Rightarrow> bool"
    and entries :: "'q \<Rightarrow> 'e list"
    and enq :: "'e \<Rightarrow> 'q \<Rightarrow> 'x + 'q"
    and deq :: "'q \<Rightarrow> 'x + ('e \<times> 'q)"
  assumes enq: "invar q \<Longrightarrow> \<exists>q'. enq e q = Inr q' \<and> invar q' \<and> entries q' = entries q @ [e]"
    and deq: "invar q \<Longrightarrow> entries q = e # es \<Longrightarrow>
      \<exists>q'. deq q = Inr (e, q') \<and> invar q' \<and> entries q' = es"
begin

lemma put_all:
  "invar q \<Longrightarrow> \<exists>q'. put_all enq es q = Inr q' \<and> invar q' \<and> entries q' = entries q @ es"
proof (induction es arbitrary: q)
  case Nil
  then show ?case by simp
next
  case (Cons e es)
  from enq [OF Cons.prems, of e] obtain q1
    where "enq e q = Inr q1" "invar q1" "entries q1 = entries q @ [e]" by blast
  with Cons.IH [of q1] show ?case by auto
qed

lemma take_n:
  "invar q \<Longrightarrow> entries q = es @ fs \<Longrightarrow>
    \<exists>q'. take_n deq (length es) q = Inr (es, q') \<and> invar q' \<and> entries q' = fs"
proof (induction es arbitrary: q)
  case Nil
  then show ?case by simp
next
  case (Cons e es)
  then have "entries q = e # (es @ fs)" by simp
  from deq [OF Cons.prems(1) this] obtain q1
    where "deq q = Inr (e, q1)" "invar q1" "entries q1 = es @ fs" by blast
  with Cons.IH [of q1] show ?case by auto
qed

lemma put_take:
  assumes "invar q"
  shows "\<exists>q'. bindR (put_all enq es q) (take_n deq (length (entries q @ es))) = Inr (entries q @ es, q')
    \<and> invar q' \<and> entries q' = []"
proof -
  from put_all [OF assms, of es] obtain q1
    where q1: "put_all enq es q = Inr q1" "invar q1" "entries q1 = (entries q @ es) @ []" by auto
  from take_n [OF q1(2,3)] q1(1) show ?thesis by auto
qed

end

lemma queue_put_inv:
  assumes "q_inv q"
  shows "\<exists>q'. queue_put e q = Inr q' \<and> q_inv q' \<and> q_entries q' = q_entries q @ [e]"
proof -
  from assms obtain ps rs fs where "q_shape q ps rs fs" by (auto simp: q_inv_def)
  from alloc_new_entry_shape [OF this] obtain p q1 where
    1: "alloc_new_entry q = Inr (p, q1)" "q_shape q1 ps (tl rs) (p # fs)" "q_entries q1 = q_entries q" .
  from store_entry_shape [OF 1(2)] obtain q2 where
    2: "store_entry p e q1 = Inr q2" "q_shape q2 ps (tl rs) (p # fs)" "q_entries q2 = q_entries q1"
       "q_heap q2 p = Some (e, None)" .
  from queue_append_shape [OF 2(2,4)] obtain q3 where
    3: "queue_append p q2 = Inr q3" "q_shape q3 (ps @ [p]) (tl rs) fs" "q_entries q3 = q_entries q2 @ [e]" .
  from 1 2 3 show ?thesis by (auto simp: queue_put_def q_inv_def)
qed

lemma queue_take_inv:
  assumes "q_inv q" and "q_entries q = e # es"
  shows "\<exists>q'. queue_take q = Inr (e, q') \<and> q_inv q' \<and> q_entries q' = es"
proof -
  from assms obtain ps rs fs where "q_shape q ps rs fs" by (auto simp: q_inv_def)
  from queue_pop_shape [OF this assms(2)] obtain p q1 where
    1: "queue_pop q = Inr (p, q1)" "q_shape q1 (tl ps) rs (p # fs)" "q_entries q1 = es"
       "q_heap q1 p = Some (e, None)" .
  from add_to_recycle_list_shape [OF 1(2)] obtain q2 where
    2: "add_to_recycle_list p q1 = Inr q2" "q_shape q2 (tl ps) (p # rs) fs" "q_entries q2 = q_entries q1" .
  from 1 2 show ?thesis by (auto simp: queue_take_def read_entry_at_def q_inv_def)
qed

interpretation rrq: fifo q_inv q_entries queue_put queue_take
  by unfold_locales (use queue_put_inv queue_take_inv in blast)+

lemma q_inv_head: "q_inv q \<Longrightarrow> rr_queue_head q = None \<longleftrightarrow> q_entries q = []"
  by (auto simp: q_inv_def q_entries_shape) (auto simp: q_shape_def)

lemma q_inv_tail: "q_inv q \<Longrightarrow> rr_queue_tail q = None \<longleftrightarrow> q_entries q = []"
  by (auto simp: q_inv_def q_entries_shape) (auto simp: q_shape_def split: if_splits)

lemma q_inv_init [simp]: "q_inv init_store" "q_entries init_store = []"
  by (auto simp: q_inv_def q_shape_def init_store_def RR_HIST_SIZE_def q_entries_def
      intro!: exI [of _ "[]"])

lemma free_recycle_list_inv:
  assumes "q_inv q"
  obtains q' where "free_recycle_list q = Inr q'" and "q_inv q'" and "q_entries q' = q_entries q"
    and "recycle_list q' = None"
proof -
  from assms obtain ps rs fs where sh: "q_shape q ps rs fs" by (auto simp: q_inv_def)
  let ?q = "q\<lparr>q_heap := q_heap q |` (- set rs), recycle_list := None\<rparr>"
  have fl: "free_loop (q_fresh q) (recycle_list q) (q_heap q) = Inr (q_heap q |` (- set rs))"
    using sh q_shape_bound(2) [OF sh] by (intro free_loop_shape) (auto simp: q_shape_def)
  have "set ps \<inter> set rs = {}" "set rs \<inter> set fs = {}" "set ps \<inter> set fs = {}"
    using sh by (auto simp: q_shape_def)
  then have keep: "set ps \<subseteq> - set rs" "\<forall>p \<in> set fs. (q_heap q |` (- set rs)) p = q_heap q p"
    by (auto simp: restrict_map_def)
  have sh': "q_shape ?q ps [] fs"
    using sh keep by (auto simp: q_shape_def lseg_restrict restrict_None)
  moreover have "q_entries ?q = q_entries q"
    unfolding q_entries_shape [OF sh] q_entries_shape [OF sh']
    using \<open>set ps \<inter> set rs = {}\<close> by (auto simp: restrict_map_def)
  ultimately show ?thesis
    using fl by (intro that [of ?q]) (auto simp: free_recycle_list_def q_inv_def)
qed

lemma free_queue_inv:
  assumes "q_inv q"
  obtains q' where "free_queue q = Inr q'" and "q_inv q'" and "q_entries q' = []"
proof -
  from assms obtain ps rs fs where sh: "q_shape q ps rs fs" by (auto simp: q_inv_def)
  let ?q = "q\<lparr>q_heap := q_heap q |` (- set ps), rr_queue_head := None, rr_queue_tail := None\<rparr>"
  have fl: "free_loop (q_fresh q) (rr_queue_head q) (q_heap q) = Inr (q_heap q |` (- set ps))"
    using sh q_shape_bound(2) [OF sh] by (intro free_loop_shape) (auto simp: q_shape_def)
  have "set ps \<inter> set rs = {}" "set rs \<inter> set fs = {}" "set ps \<inter> set fs = {}"
    using sh by (auto simp: q_shape_def)
  then have keep: "set rs \<subseteq> - set ps" "\<forall>p \<in> set fs. (q_heap q |` (- set ps)) p = q_heap q p"
    by (auto simp: restrict_map_def)
  have sh': "q_shape ?q [] rs fs"
    using sh keep by (auto simp: q_shape_def lseg_restrict restrict_None)
  then show ?thesis
    using fl by (intro that [of ?q]) (auto simp: free_queue_def q_inv_def q_entries_shape)
qed

section \<open>Properties\<close>

text \<open>
  C11: The linked queue implements a first-in first-out queue: from a well-formed store, entries
  put in are taken out in the order they came after those already queued, no step reads or
  writes freed memory, and the queue is well-formed and empty at the end.
\<close>

theorem queue_is_fifo:
  assumes "q_inv q"
  shows "\<exists>q'. bindR (put_all queue_put es q) (take_n queue_take (length (q_entries q @ es)))
      = Inr (q_entries q @ es, q')
    \<and> q_inv q' \<and> q_entries q' = [] \<and> rr_queue_head q' = None \<and> rr_queue_tail q' = None"
proof -
  from rrq.put_take [OF assms, of es] obtain q' where
    "bindR (put_all queue_put es q) (take_n queue_take (length (q_entries q @ es))) = Inr (q_entries q @ es, q')"
    "q_inv q'" "q_entries q' = []" by (elim exE conjE)
  then show ?thesis using q_inv_head [of q'] q_inv_tail [of q'] by (intro exI [of _ q']) simp
qed

theorem queue_is_fifo_witness:
  "\<exists>q'. bindR (put_all queue_put [zero_entry, zero_entry\<lparr>callsite_loc := 1\<rparr>] init_store)
      (take_n queue_take 2) = Inr ([zero_entry, zero_entry\<lparr>callsite_loc := 1\<rparr>], q') \<and> q_entries q' = []"
  using queue_is_fifo [of init_store "[zero_entry, zero_entry\<lparr>callsite_loc := 1\<rparr>]"]
  by (auto simp: numeral_2_eq_2)

end
