(* ===== verification/Panda_Callbacks.thy ===== *)
theory Panda_Callbacks
  imports Panda_Prelude
begin

text \<open>
  The callback lists of \<^verbatim>\<open>qemu/panda_plugin.c\<close>: for every callback type a doubly linked list
  of nodes in memory, headed by \<^verbatim>\<open>panda_cbs[type]\<close>. Registration, enabling, disabling,
  unregistration and the loop that calls the callbacks are translated on the links, and shown
  to implement the operations on the list of registered callbacks; the locale \<open>cb_registry\<close>
  is the contract the emulator's callback sites rely on. The cases in which
  \<^verbatim>\<open>panda_unregister_callbacks\<close> leaves a freed node at the head are characterised exactly.
\<close>

section \<open>Callback types, nodes and the table of lists\<close>

text \<open>
  The enumeration of callback types in a system emulator built without
  \<^verbatim>\<open>CONFIG_PANDA_VMI\<close>; a plugin handle and a callback function are identified by a number.
\<close>

type_synonym panda_cb_type = nat
type_synonym plugin = nat
type_synonym panda_cb = nat

abbreviation (input) PANDA_CB_BEFORE_BLOCK_TRANSLATE :: panda_cb_type where
  "PANDA_CB_BEFORE_BLOCK_TRANSLATE \<equiv> 0"
abbreviation (input) PANDA_CB_AFTER_BLOCK_TRANSLATE :: panda_cb_type where
  "PANDA_CB_AFTER_BLOCK_TRANSLATE \<equiv> 1"
abbreviation (input) PANDA_CB_MONITOR :: panda_cb_type where "PANDA_CB_MONITOR \<equiv> 22"
abbreviation (input) PANDA_CB_BEFORE_REPLAY_LOADVM :: panda_cb_type where
  "PANDA_CB_BEFORE_REPLAY_LOADVM \<equiv> 24"
abbreviation (input) PANDA_CB_VMI_PGD_CHANGED :: panda_cb_type where
  "PANDA_CB_VMI_PGD_CHANGED \<equiv> 25"
abbreviation (input) PANDA_CB_REPLAY_HD_TRANSFER :: panda_cb_type where
  "PANDA_CB_REPLAY_HD_TRANSFER \<equiv> 26"
abbreviation (input) PANDA_CB_REPLAY_NET_TRANSFER :: panda_cb_type where
  "PANDA_CB_REPLAY_NET_TRANSFER \<equiv> 27"
abbreviation (input) PANDA_CB_REPLAY_HANDLE_PACKET :: panda_cb_type where
  "PANDA_CB_REPLAY_HANDLE_PACKET \<equiv> 30"
abbreviation (input) PANDA_CB_LAST :: nat where "PANDA_CB_LAST \<equiv> 31"

record panda_cb_list =
  cb_entry :: panda_cb
  cb_owner :: plugin
  cb_next :: "nat option"
  cb_prev :: "nat option"
  cb_enabled :: bool

type_synonym cb_heap = "nat \<Rightarrow> panda_cb_list option"

record cb_state =
  cb_mem :: cb_heap
  cb_fresh :: nat
  panda_cbs :: "panda_cb_type \<Rightarrow> nat option"

definition init_cbs :: cb_state where
  "init_cbs = \<lparr>cb_mem = Map.empty, cb_fresh = 0, panda_cbs = (\<lambda>_. None)\<rparr>"

text \<open>Reading a node and writing one, through a pointer.\<close>

definition cb_node :: "nat \<Rightarrow> cb_heap \<Rightarrow> rr_exit + panda_cb_list" where
  "cb_node a h = (case h a of None \<Rightarrow> Inl Use_after_free | Some nd \<Rightarrow> Inr nd)"

definition cb_update :: "nat option \<Rightarrow> (panda_cb_list \<Rightarrow> panda_cb_list) \<Rightarrow> cb_heap \<Rightarrow> rr_exit + cb_heap" where
  "cb_update p f h =
     (case p of
        None \<Rightarrow> Inr h
      | Some a \<Rightarrow> bindR (cb_node a h) (\<lambda>nd. Inr (h(a \<mapsto> f nd))))"

section \<open>The operations\<close>

definition panda_register_callback :: "plugin \<Rightarrow> panda_cb_type \<Rightarrow> panda_cb \<Rightarrow> cb_state \<Rightarrow> rr_exit + cb_state" where
  "panda_register_callback plugin type cb s =
     (if type < PANDA_CB_LAST then
        let a = cb_fresh s;
            nd = \<lparr>cb_entry = cb, cb_owner = plugin, cb_next = panda_cbs s type, cb_prev = None,
                  cb_enabled = True\<rparr>
        in bindR (cb_update (panda_cbs s type) (\<lambda>n. n\<lparr>cb_prev := Some a\<rparr>) (cb_mem s)) (\<lambda>h.
           Inr (s\<lparr>cb_mem := h(a \<mapsto> nd), cb_fresh := Suc a,
                  panda_cbs := (panda_cbs s)(type := Some a)\<rparr>))
      else Inl Out_of_bounds)"

primrec for_types :: "nat \<Rightarrow> (nat \<Rightarrow> 's \<Rightarrow> rr_exit + 's) \<Rightarrow> 's \<Rightarrow> rr_exit + 's" where
  "for_types 0 f s = Inr s"
| "for_types (Suc i) f s = bindR (for_types i f s) (f i)"

text \<open>
  The loops over one list stop after as many nodes as were ever allocated: a longer walk has
  seen a node twice and goes on forever.
\<close>

fun unregister_loop :: "nat \<Rightarrow> plugin \<Rightarrow> panda_cb_type \<Rightarrow> nat option \<Rightarrow> cb_state \<Rightarrow> rr_exit + cb_state" where
  "unregister_loop n plugin i None s = Inr s"
| "unregister_loop 0 plugin i (Some p) s = Inl Endless_loop"
| "unregister_loop (Suc n) plugin i (Some p) s =
     bindR (cb_node p (cb_mem s)) (\<lambda>nd.
     if cb_owner nd = plugin then
       bindR (cb_update (cb_prev nd) (\<lambda>m. m\<lparr>cb_next := cb_next nd\<rparr>) (cb_mem s)) (\<lambda>h.
       bindR (cb_update (cb_next nd) (\<lambda>m. m\<lparr>cb_prev := cb_prev nd\<rparr>) h) (\<lambda>h.
       let cbs = (if cb_prev nd = None \<and> cb_next nd = None then (panda_cbs s)(i := None)
                  else panda_cbs s)
       in bindR (cb_node p h) (\<lambda>nd.
          unregister_loop n plugin i (cb_next nd) (s\<lparr>cb_mem := h(p := None), panda_cbs := cbs\<rparr>))))
     else unregister_loop n plugin i (cb_next nd) s)"

definition panda_unregister_callbacks :: "plugin \<Rightarrow> cb_state \<Rightarrow> rr_exit + cb_state" where
  "panda_unregister_callbacks plugin s =
     for_types PANDA_CB_LAST (\<lambda>i s. unregister_loop (cb_fresh s) plugin i (panda_cbs s i) s) s"

fun set_enabled_loop :: "nat \<Rightarrow> bool \<Rightarrow> plugin \<Rightarrow> nat option \<Rightarrow> cb_heap \<Rightarrow> rr_exit + cb_heap" where
  "set_enabled_loop n b plugin None h = Inr h"
| "set_enabled_loop 0 b plugin (Some p) h = Inl Endless_loop"
| "set_enabled_loop (Suc n) b plugin (Some p) h =
     bindR (cb_node p h) (\<lambda>nd.
     set_enabled_loop n b plugin (cb_next nd)
       (if cb_owner nd = plugin then h(p \<mapsto> nd\<lparr>cb_enabled := b\<rparr>) else h))"

definition panda_enable_plugin :: "plugin \<Rightarrow> cb_state \<Rightarrow> rr_exit + cb_state" where
  "panda_enable_plugin plugin s =
     for_types PANDA_CB_LAST (\<lambda>i s.
       bindR (set_enabled_loop (cb_fresh s) True plugin (panda_cbs s i) (cb_mem s)) (\<lambda>h.
       Inr (s\<lparr>cb_mem := h\<rparr>))) s"

definition panda_disable_plugin :: "plugin \<Rightarrow> cb_state \<Rightarrow> rr_exit + cb_state" where
  "panda_disable_plugin plugin s =
     for_types PANDA_CB_LAST (\<lambda>i s.
       bindR (set_enabled_loop (cb_fresh s) False plugin (panda_cbs s i) (cb_mem s)) (\<lambda>h.
       Inr (s\<lparr>cb_mem := h\<rparr>))) s"

text \<open>\<^verbatim>\<open>panda_cb_list_next\<close>: the next enabled node, or NULL.\<close>

fun panda_cb_list_next :: "nat \<Rightarrow> nat \<Rightarrow> cb_heap \<Rightarrow> rr_exit + nat option" where
  "panda_cb_list_next 0 p h = Inl Endless_loop"
| "panda_cb_list_next (Suc n) p h =
     bindR (cb_node p h) (\<lambda>nd.
     case cb_next nd of
       None \<Rightarrow> Inr None
     | Some q \<Rightarrow> bindR (cb_node q h) (\<lambda>m.
         if cb_enabled m then Inr (Some q) else panda_cb_list_next n q h))"

text \<open>
  The loop at every callback site,
  \<^verbatim>\<open>for (plist = panda_cbs[T]; plist != NULL; plist = panda_cb_list_next(plist))\<close>: the
  callbacks it calls, in order. A callback that changes the lists while the loop runs is not
  modelled.
\<close>

fun call_loop :: "nat \<Rightarrow> nat option \<Rightarrow> cb_heap \<Rightarrow> rr_exit + panda_cb list" where
  "call_loop n None h = Inr []"
| "call_loop 0 (Some p) h = Inl Endless_loop"
| "call_loop (Suc n) (Some p) h =
     bindR (cb_node p h) (\<lambda>nd.
     bindR (panda_cb_list_next (Suc n) p h) (\<lambda>q.
     bindR (call_loop n q h) (\<lambda>cs. Inr (cb_entry nd # cs))))"

definition run_callbacks :: "panda_cb_type \<Rightarrow> cb_state \<Rightarrow> rr_exit + panda_cb list" where
  "run_callbacks type s = call_loop (cb_fresh s) (panda_cbs s type) (cb_mem s)"

section \<open>The shape of the lists\<close>

fun dll :: "cb_heap \<Rightarrow> nat option \<Rightarrow> nat option \<Rightarrow> nat list \<Rightarrow> bool" where
  "dll h pr p [] \<longleftrightarrow> p = None"
| "dll h pr p (a # as) \<longleftrightarrow>
     p = Some a \<and> (\<exists>nd. h a = Some nd \<and> cb_prev nd = pr \<and> dll h (Some a) (cb_next nd) as)"

definition links :: "panda_cb_list \<Rightarrow> nat option \<times> nat option" where
  "links nd = (cb_prev nd, cb_next nd)"

definition payload :: "panda_cb_list \<Rightarrow> panda_cb \<times> plugin \<times> bool" where
  "payload nd = (cb_entry nd, cb_owner nd, cb_enabled nd)"

text \<open>\<open>L i\<close> lists the nodes of callback type \<open>i\<close>.\<close>

definition cbs_shape :: "cb_state \<Rightarrow> (nat \<Rightarrow> nat list) \<Rightarrow> bool" where
  "cbs_shape s L \<longleftrightarrow>
     (\<forall>i. dll (cb_mem s) None (panda_cbs s i) (L i)) \<and> (\<forall>i. distinct (L i))
     \<and> (\<forall>i j. i \<noteq> j \<longrightarrow> set (L i) \<inter> set (L j) = {})
     \<and> (\<forall>i \<ge> PANDA_CB_LAST. L i = []) \<and> (\<forall>a \<ge> cb_fresh s. cb_mem s a = None)"

definition cbs_inv :: "cb_state \<Rightarrow> bool" where
  "cbs_inv s \<longleftrightarrow> (\<exists>L. cbs_shape s L)"

text \<open>The registered callbacks of a type, read off the links.\<close>

fun cb_follow :: "nat \<Rightarrow> cb_heap \<Rightarrow> nat option \<Rightarrow> (panda_cb \<times> plugin \<times> bool) list" where
  "cb_follow n h None = []"
| "cb_follow 0 h (Some a) = []"
| "cb_follow (Suc n) h (Some a) =
     (case h a of None \<Rightarrow> [] | Some nd \<Rightarrow> payload nd # cb_follow n h (cb_next nd))"

definition cb_view :: "cb_state \<Rightarrow> panda_cb_type \<Rightarrow> (panda_cb \<times> plugin \<times> bool) list" where
  "cb_view s i = cb_follow (cb_fresh s) (cb_mem s) (panda_cbs s i)"

lemma cb_node_Some [simp]: "h a = Some nd \<Longrightarrow> cb_node a h = Inr nd"
  by (simp add: cb_node_def)

lemma cb_node_None [simp]: "h a = None \<Longrightarrow> cb_node a h = Inl Use_after_free"
  by (simp add: cb_node_def)

lemma cb_node_Inr [simp]: "cb_node a h = Inr nd \<longleftrightarrow> h a = Some nd"
  by (simp add: cb_node_def split: option.splits)

lemma payload_links [simp]:
  "payload (nd\<lparr>cb_next := v\<rparr>) = payload nd" "payload (nd\<lparr>cb_prev := v\<rparr>) = payload nd"
  by (simp_all add: payload_def)

lemma dll_None [simp]: "dll h pr None as \<longleftrightarrow> as = []"
  by (cases as) auto

lemma dll_Some_iff: "dll h pr (Some a) as \<longleftrightarrow>
    (\<exists>bs nd. as = a # bs \<and> h a = Some nd \<and> cb_prev nd = pr \<and> dll h (Some a) (cb_next nd) bs)"
  by (cases as) auto

lemma dll_dom: "dll h pr p as \<Longrightarrow> a \<in> set as \<Longrightarrow> \<exists>nd. h a = Some nd"
  by (induction as arbitrary: pr p) auto

lemma dll_cong:
  assumes "\<And>a. a \<in> set as \<Longrightarrow> map_option links (h' a) = map_option links (h a)"
  shows "dll h' pr p as = dll h pr p as"
  using assms
proof (induction as arbitrary: pr p)
  case Nil
  then show ?case by simp
next
  case (Cons a as)
  from Cons.prems have a: "map_option links (h' a) = map_option links (h a)" by simp
  have IH: "dll h' pr' p' as = dll h pr' p' as" for pr' p'
    using Cons by simp
  show ?case
    using a by (cases "h a"; cases "h' a") (auto simp: IH links_def)
qed

lemma cb_follow_dll:
  "dll h pr p as \<Longrightarrow> length as \<le> n \<Longrightarrow> cb_follow n h p = map (payload \<circ> the \<circ> h) as"
proof (induction as arbitrary: n pr p)
  case Nil
  then show ?case by simp
next
  case (Cons a as)
  then obtain m where "n = Suc m" by (cases n) auto
  with Cons show ?case by auto
qed

lemma cbs_shape_length:
  assumes "cbs_shape s L"
  shows "length (L i) \<le> cb_fresh s"
proof -
  have "a < cb_fresh s" if "a \<in> set (L i)" for a
    using assms that dll_dom [of "cb_mem s" None "panda_cbs s i" "L i" a]
    by (auto simp: cbs_shape_def) (metis not_le option.distinct(1))
  then have "set (L i) \<subseteq> {..<cb_fresh s}" by auto
  then have "card (set (L i)) \<le> cb_fresh s"
    using card_mono [of "{..<cb_fresh s}"] by fastforce
  then show ?thesis
    using assms by (simp add: cbs_shape_def distinct_card)
qed

lemma cb_view_shape: "cbs_shape s L \<Longrightarrow> cb_view s i = map (payload \<circ> the \<circ> cb_mem s) (L i)"
  unfolding cb_view_def
  by (rule cb_follow_dll [where pr = None]) (simp_all add: cbs_shape_length, simp add: cbs_shape_def)

section \<open>The loops on well-formed lists\<close>

lemma for_types_inv:
  assumes "P 0 s" and "\<And>i s. i < n \<Longrightarrow> P i s \<Longrightarrow> \<exists>s'. f i s = Inr s' \<and> P (Suc i) s'"
  shows "\<exists>s'. for_types n f s = Inr s' \<and> P n s'"
  using assms
proof (induction n)
  case 0
  then show ?case by simp
next
  case (Suc n)
  then obtain s1 where "for_types n f s = Inr s1" "P n s1" by force
  with Suc.prems(2) [of n s1] show ?case by auto
qed

text \<open>The head is called whether it is enabled or not; of the others, those that are enabled.\<close>

fun called :: "(panda_cb \<times> plugin \<times> bool) list \<Rightarrow> panda_cb list" where
  "called [] = []"
| "called (x # xs) = fst x # map fst (filter (\<lambda>(_, _, e). e) xs)"

lemma called_enabled:
  "as = [] \<or> cb_enabled (the (h (hd as))) \<Longrightarrow> called (map (payload \<circ> the \<circ> h) as) =
    map (cb_entry \<circ> the \<circ> h) (filter (\<lambda>b. cb_enabled (the (h b))) as)"
  by (cases as) (auto simp: payload_def filter_map o_def)

definition first_opt :: "'a list \<Rightarrow> 'a option" where
  "first_opt xs = (case xs of [] \<Rightarrow> None | x # _ \<Rightarrow> Some x)"

lemma first_opt_simps [simp]: "first_opt [] = None" "first_opt (x # xs) = Some x"
  by (simp_all add: first_opt_def)

lemma dll_first: "dll h pr p as \<Longrightarrow> p = first_opt as"
  by (cases as) auto

lemma dll_dropWhile:
  "dll h pr p as \<Longrightarrow> \<exists>pr'. dll h pr' (first_opt (dropWhile P as)) (dropWhile P as)"
proof (induction as arbitrary: pr p)
  case (Cons a as)
  show ?case
  proof (cases "P a")
    case True
    with Cons show ?thesis by auto
  next
    case False
    with Cons.prems show ?thesis by (auto intro!: exI [of _ pr])
  qed
qed simp

lemma panda_cb_list_next_dll:
  assumes "dll h pr (Some a) (a # as)" and "length as < n"
  shows "panda_cb_list_next n a h = Inr (first_opt (dropWhile (\<lambda>b. \<not> cb_enabled (the (h b))) as))"
  using assms
proof (induction as arbitrary: n a pr)
  case Nil
  then show ?case by (cases n) auto
next
  case (Cons b bs)
  then obtain m nd where n: "n = Suc m" and a: "h a = Some nd" "cb_next nd = Some b"
    and b: "dll h (Some a) (Some b) (b # bs)" by (cases n) auto
  from b obtain nb where hb: "h b = Some nb" by auto
  have "panda_cb_list_next m b h = Inr (first_opt (dropWhile (\<lambda>b. \<not> cb_enabled (the (h b))) bs))"
    using Cons.IH [OF b] Cons.prems(2) n by simp
  with n a hb show ?case by simp
qed

lemma filter_dropWhile: "filter (\<lambda>x. \<not> P x) xs = filter (\<lambda>x. \<not> P x) (dropWhile P xs)"
  by (induction xs) auto

lemma call_loop_dll:
  assumes "dll h pr (first_opt as) as" and "length as \<le> n"
  shows "call_loop n (first_opt as) h = Inr (called (map (payload \<circ> the \<circ> h) as))"
  using assms
proof (induction n arbitrary: as pr)
  case 0
  then show ?case by simp
next
  case (Suc n)
  show ?case
  proof (cases as)
    case Nil
    then show ?thesis by simp
  next
    case (Cons a bs)
    let ?off = "\<lambda>b. \<not> cb_enabled (the (h b))"
    let ?ds = "dropWhile ?off bs"
    from Suc.prems Cons obtain nd where nd: "h a = Some nd" "dll h (Some a) (cb_next nd) bs" by auto
    have nx: "panda_cb_list_next (Suc n) a h = Inr (first_opt ?ds)"
      using Suc.prems Cons by (intro panda_cb_list_next_dll [where pr = pr]) auto
    from dll_dropWhile [OF nd(2)] obtain pr' where "dll h pr' (first_opt ?ds) ?ds" by blast
    moreover have "length ?ds \<le> n"
      using Suc.prems(2) Cons length_dropWhile_le [of ?off bs] by simp
    ultimately have IH: "call_loop n (first_opt ?ds) h = Inr (called (map (payload \<circ> the \<circ> h) ?ds))"
      by (rule Suc.IH)
    have "?ds = [] \<or> cb_enabled (the (h (hd ?ds)))"
      using hd_dropWhile [of ?off bs] by blast
    then have "called (map (payload \<circ> the \<circ> h) ?ds)
        = map (cb_entry \<circ> the \<circ> h) (filter (\<lambda>b. cb_enabled (the (h b))) ?ds)"
      by (rule called_enabled)
    also have "\<dots> = map (cb_entry \<circ> the \<circ> h) (filter (\<lambda>b. cb_enabled (the (h b))) bs)"
      using filter_dropWhile [of ?off bs] by simp
    finally show ?thesis
      using Cons nd nx IH by (simp add: payload_def filter_map o_def)
  qed
qed

lemma run_callbacks_shape:
  assumes "cbs_shape s L"
  shows "run_callbacks i s = Inr (called (cb_view s i))"
proof -
  have d: "dll (cb_mem s) None (panda_cbs s i) (L i)"
    using assms by (simp add: cbs_shape_def)
  with call_loop_dll [of "cb_mem s" None "L i" "cb_fresh s"] cbs_shape_length [OF assms, of i]
  show ?thesis
    by (simp add: run_callbacks_def dll_first [OF d] cb_view_shape [OF assms])
qed

text \<open>Enabling and disabling.\<close>

definition flag :: "bool \<Rightarrow> plugin \<Rightarrow> panda_cb_list \<Rightarrow> panda_cb_list" where
  "flag b plugin nd = (if cb_owner nd = plugin then nd\<lparr>cb_enabled := b\<rparr> else nd)"

lemma flag_simps [simp]:
  "links (flag b pl nd) = links nd" "cb_next (flag b pl nd) = cb_next nd"
  "payload (flag b pl nd) = (\<lambda>(c, ow, e). (c, ow, if ow = pl then b else e)) (payload nd)"
  by (simp_all add: flag_def links_def payload_def)

lemma flag_flag [simp]: "flag b pl \<circ> flag b pl = flag b pl"
  by (auto simp: flag_def)

lemma set_enabled_loop_dll:
  assumes "dll h pr p as" and "distinct as" and "length as \<le> n"
  shows "set_enabled_loop n b pl p h =
    Inr (\<lambda>a. if a \<in> set as then map_option (flag b pl) (h a) else h a)"
  using assms
proof (induction as arbitrary: n pr p h)
  case Nil
  then show ?case by simp
next
  case (Cons a as)
  then obtain m nd where n: "n = Suc m" and p: "p = Some a" "h a = Some nd"
    and d: "dll h (Some a) (cb_next nd) as" by (cases n) auto
  let ?h = "h(a \<mapsto> flag b pl nd)"
  have "dll ?h (Some a) (cb_next nd) as"
    using d Cons.prems(2) by (subst dll_cong [where h = h]) auto
  then have "set_enabled_loop m b pl (cb_next nd) ?h =
      Inr (\<lambda>x. if x \<in> set as then map_option (flag b pl) (?h x) else ?h x)"
    by (rule Cons.IH) (use Cons.prems n in simp_all)
  moreover have "(if cb_owner nd = pl then h(a \<mapsto> nd\<lparr>cb_enabled := b\<rparr>) else h) = ?h"
    using p by (auto simp: flag_def)
  moreover have "(\<lambda>x. if x \<in> set as then map_option (flag b pl) (?h x) else ?h x)
      = (\<lambda>x. if x \<in> set (a # as) then map_option (flag b pl) (h x) else h x)"
    using Cons.prems(2) p by auto
  ultimately show ?case using n p by (simp cong: if_cong)
qed

lemma set_enabled_all:
  assumes sh: "cbs_shape s L"
  obtains s' where
    "for_types PANDA_CB_LAST (\<lambda>i s. bindR (set_enabled_loop (cb_fresh s) b pl (panda_cbs s i) (cb_mem s))
       (\<lambda>h. Inr (s\<lparr>cb_mem := h\<rparr>))) s = Inr s'"
    and "cbs_shape s' L"
    and "\<And>i. cb_view s' i = map (\<lambda>(c, ow, e). (c, ow, if ow = pl then b else e)) (cb_view s i)"
proof -
  let ?P = "\<lambda>i s'. s' = s\<lparr>cb_mem := \<lambda>a. if \<exists>j<i. a \<in> set (L j) then map_option (flag b pl) (cb_mem s a)
      else cb_mem s a\<rparr>"
  have "\<exists>s'. for_types PANDA_CB_LAST (\<lambda>i s. bindR (set_enabled_loop (cb_fresh s) b pl (panda_cbs s i) (cb_mem s))
       (\<lambda>h. Inr (s\<lparr>cb_mem := h\<rparr>))) s = Inr s' \<and> ?P PANDA_CB_LAST s'"
  proof (rule for_types_inv [where P = ?P])
    fix i s' assume "?P i s'"
    then have s': "cb_mem s' = (\<lambda>a. if \<exists>j<i. a \<in> set (L j) then map_option (flag b pl) (cb_mem s a)
      else cb_mem s a)" "panda_cbs s' = panda_cbs s" "cb_fresh s' = cb_fresh s" and eq: "?P i s'"
      by simp_all
    have "dll (cb_mem s') None (panda_cbs s' i) (L i)"
      unfolding s'(2) using sh
      by (subst dll_cong [where h = "cb_mem s"]) (auto simp: s'(1) cbs_shape_def option.map_comp o_def)
    from set_enabled_loop_dll [OF this, of "cb_fresh s'" b pl] sh cbs_shape_length [OF sh, of i]
    have "set_enabled_loop (cb_fresh s') b pl (panda_cbs s' i) (cb_mem s') =
      Inr (\<lambda>a. if a \<in> set (L i) then map_option (flag b pl) (cb_mem s' a) else cb_mem s' a)"
      by (simp add: cbs_shape_def s'(3))
    moreover have "(\<lambda>a. if a \<in> set (L i) then map_option (flag b pl) (cb_mem s' a) else cb_mem s' a)
      = (\<lambda>a. if \<exists>j<Suc i. a \<in> set (L j) then map_option (flag b pl) (cb_mem s a) else cb_mem s a)"
      by (auto simp: s'(1) less_Suc_eq fun_eq_iff option.map_comp)
    ultimately show "\<exists>s''. bindR (set_enabled_loop (cb_fresh s') b pl (panda_cbs s' i) (cb_mem s'))
       (\<lambda>h. Inr (s'\<lparr>cb_mem := h\<rparr>)) = Inr s'' \<and> ?P (Suc i) s''"
      using eq by simp
  qed simp
  then obtain s' where run: "for_types PANDA_CB_LAST (\<lambda>i s. bindR (set_enabled_loop (cb_fresh s) b pl
      (panda_cbs s i) (cb_mem s)) (\<lambda>h. Inr (s\<lparr>cb_mem := h\<rparr>))) s = Inr s'" and eq: "?P PANDA_CB_LAST s'"
    by blast
  have in31: "a \<in> set (L i) \<Longrightarrow> \<exists>j<31. a \<in> set (L j)" for a i
    using sh by (metis cbs_shape_def empty_iff leI list.set(1))
  have sh': "cbs_shape s' L"
    unfolding cbs_shape_def
  proof (intro conjI allI)
    fix i show "dll (cb_mem s') None (panda_cbs s' i) (L i)"
      using sh by (subst dll_cong [where h = "cb_mem s"])
        (auto simp: eq cbs_shape_def option.map_comp o_def)
  qed (use sh in \<open>auto simp: eq cbs_shape_def\<close>)
  have "cb_view s' i = map (\<lambda>(c, ow, e). (c, ow, if ow = pl then b else e)) (cb_view s i)" for i
    unfolding cb_view_shape [OF sh] cb_view_shape [OF sh'] map_map
  proof (rule map_cong [OF refl])
    fix a assume a: "a \<in> set (L i)"
    then obtain nd where "cb_mem s a = Some nd"
      using sh dll_dom by (fastforce simp: cbs_shape_def)
    with in31 [OF a] show "(payload \<circ> the \<circ> cb_mem s') a =
        ((\<lambda>(c, ow, e). (c, ow, if ow = pl then b else e)) \<circ> (payload \<circ> the \<circ> cb_mem s)) a"
      by (simp add: eq)
  qed
  with run sh' that show ?thesis by blast
qed

text \<open>Registering.\<close>

lemma register_shape:
  assumes sh: "cbs_shape s L" and t: "type < PANDA_CB_LAST"
  obtains s' where "panda_register_callback pl type cb s = Inr s'"
    and "cbs_shape s' (L(type := cb_fresh s # L type))"
    and "cb_view s' = (cb_view s)(type := (cb, pl, True) # cb_view s type)"
proof -
  let ?a = "cb_fresh s" and ?p = "panda_cbs s type"
  let ?nd = "\<lparr>cb_entry = cb, cb_owner = pl, cb_next = ?p, cb_prev = None, cb_enabled = True\<rparr>"
  have d: "dll (cb_mem s) None ?p (L type)" using sh by (simp add: cbs_shape_def)
  have bound: "a \<in> set (L i) \<Longrightarrow> a < ?a" for a i
    using sh dll_dom by (metis cbs_shape_def not_le option.distinct(1))
  obtain h where h: "cb_update ?p (\<lambda>n. n\<lparr>cb_prev := Some ?a\<rparr>) (cb_mem s) = Inr h"
    and dh: "dll (h(?a \<mapsto> ?nd)) (Some ?a) ?p (L type)"
    and same: "\<And>x. x \<notin> set (L type) \<Longrightarrow> h x = cb_mem s x"
    and pay: "\<And>x. map_option payload (h x) = map_option payload (cb_mem s x)"
  proof (cases ?p)
    case None
    with d that [of "cb_mem s"] show ?thesis by (simp add: cb_update_def)
  next
    case (Some b)
    with d obtain bs nb where b: "L type = b # bs" "cb_mem s b = Some nb" "dll (cb_mem s) (Some b) (cb_next nb) bs"
      by (auto simp: dll_Some_iff)
    let ?h = "(cb_mem s)(b \<mapsto> nb\<lparr>cb_prev := Some ?a\<rparr>)"
    have "b \<notin> set bs" "?a \<noteq> b" "?a \<notin> set bs"
      using sh b(1) bound [of _ type] by (auto simp: cbs_shape_def dest: spec [of _ type])
    with b have "dll (?h(?a \<mapsto> ?nd)) (Some b) (cb_next nb) bs"
      by (subst dll_cong [where h = "cb_mem s"]) auto
    with Some b that [of ?h] \<open>?a \<noteq> b\<close> show ?thesis
      by (auto simp: cb_update_def payload_def)
  qed
  let ?s = "s\<lparr>cb_mem := h(?a \<mapsto> ?nd), cb_fresh := Suc ?a, panda_cbs := (panda_cbs s)(type := Some ?a)\<rparr>"
  let ?L = "L(type := ?a # L type)"
  have other: "dll (h(?a \<mapsto> ?nd)) None (panda_cbs s i) (L i)" if "i \<noteq> type" for i
  proof -
    have "h x = cb_mem s x" "x \<noteq> ?a" if "x \<in> set (L i)" for x
    proof -
      have "x \<notin> set (L type)" using sh \<open>i \<noteq> type\<close> that by (metis IntI cbs_shape_def empty_iff)
      then show "h x = cb_mem s x" "x \<noteq> ?a" using same bound [OF that] by auto
    qed
    with sh show ?thesis
      by (subst dll_cong [where h = "cb_mem s"]) (auto simp: cbs_shape_def)
  qed
  have high: "h a = None" if "?a \<le> a" for a
  proof -
    have "a \<notin> set (L type)" using bound [of a type] that by auto
    with same that sh show ?thesis by (simp add: cbs_shape_def)
  qed
  have sh': "cbs_shape ?s ?L"
    using sh t dh other bound high by (auto simp: cbs_shape_def)
  have "cb_view ?s = (cb_view s)(type := (cb, pl, True) # cb_view s type)"
  proof
    fix i
    have v: "cb_view ?s i = map (payload \<circ> the \<circ> cb_mem ?s) (?L i)"
      by (rule cb_view_shape [OF sh'])
    have keep: "map (payload \<circ> the \<circ> h(?a \<mapsto> ?nd)) (L j) = cb_view s j" for j
      unfolding cb_view_shape [OF sh]
    proof (rule map_cong [OF refl])
      fix x assume x: "x \<in> set (L j)"
      then obtain nx where "cb_mem s x = Some nx"
        using sh dll_dom by (fastforce simp: cbs_shape_def)
      with pay [of x] bound [OF x] show
        "(payload \<circ> the \<circ> h(?a \<mapsto> ?nd)) x = (payload \<circ> the \<circ> cb_mem s) x" by auto
    qed
    have "payload ?nd = (cb, pl, True)" by (simp add: payload_def)
    then show "cb_view ?s i = ((cb_view s)(type := (cb, pl, True) # cb_view s type)) i"
      unfolding v using keep by (cases "i = type") simp_all
  qed
  with sh' h t that [of ?s] show ?thesis
    by (simp add: panda_register_callback_def Let_def)
qed

text \<open>Unregistering, one list.\<close>

abbreviation owned :: "plugin \<Rightarrow> cb_heap \<Rightarrow> nat \<Rightarrow> bool" where
  "owned pl h a \<equiv> cb_owner (the (h a)) = pl"

lemma unlink_dll:
  assumes d: "dll h pr (Some x) (x # xs)" and dx: "distinct (x # xs)" and x: "h x = Some nd"
    and pr: "\<forall>a. pr = Some a \<longrightarrow> a \<notin> set (x # xs) \<and> (\<exists>m. h a = Some m)"
  shows "\<exists>h1 h2. cb_update pr (\<lambda>m. m\<lparr>cb_next := cb_next nd\<rparr>) h = Inr h1
    \<and> cb_update (cb_next nd) (\<lambda>m. m\<lparr>cb_prev := pr\<rparr>) h1 = Inr h2 \<and> h2 x = Some nd
    \<and> dll (h2(x := None)) pr (cb_next nd) xs
    \<and> (\<forall>a \<in> set xs. map_option payload ((h2(x := None)) a) = map_option payload (h a))
    \<and> (\<forall>a. a \<notin> set (x # xs) \<longrightarrow> Some a \<noteq> pr \<longrightarrow> (h2(x := None)) a = h a)
    \<and> (\<forall>a. pr = Some a \<longrightarrow> (h2(x := None)) a = map_option (\<lambda>m. m\<lparr>cb_next := cb_next nd\<rparr>) (h a))"
proof -
  obtain h1 where h1: "cb_update pr (\<lambda>m. m\<lparr>cb_next := cb_next nd\<rparr>) h = Inr h1"
    and h1x: "\<And>a. h1 a = (if pr = Some a then map_option (\<lambda>m. m\<lparr>cb_next := cb_next nd\<rparr>) (h a) else h a)"
    using pr by (cases pr) (fastforce simp: cb_update_def)+
  have nx: "dll h (Some x) (cb_next nd) xs" using d x by auto
  have h1xs: "h1 a = h a" if "a \<in> set xs" for a
    using pr that by (auto simp: h1x)
  obtain h2 where h2: "cb_update (cb_next nd) (\<lambda>m. m\<lparr>cb_prev := pr\<rparr>) h1 = Inr h2"
    and h2x: "\<And>a. h2 a = (if cb_next nd = Some a then map_option (\<lambda>m. m\<lparr>cb_prev := pr\<rparr>) (h1 a) else h1 a)"
    using nx h1xs by (cases "cb_next nd") (fastforce simp: cb_update_def dll_Some_iff)+
  have nxs: "cb_next nd = Some a \<Longrightarrow> a \<in> set xs" for a using nx by (auto simp: dll_Some_iff)
  have "dll (h2(x := None)) pr (cb_next nd) xs"
  proof (cases xs)
    case Nil
    with nx show ?thesis by simp
  next
    case (Cons y ys)
    with nx obtain ny where y: "cb_next nd = Some y" "h y = Some ny" "dll h (Some y) (cb_next ny) ys"
      by auto
    have "(h2(x := None)) a = h a" if "a \<in> set ys" for a
      using that dx Cons y(1) h1xs [of a] by (auto simp: h2x)
    with y(3) have "dll (h2(x := None)) (Some y) (cb_next ny) ys"
      by (subst dll_cong [where h = h]) auto
    with y dx Cons h1xs [of y] show ?thesis by (auto simp: h2x)
  qed
  moreover have "h2 x = Some nd"
    using x dx nxs [of x] pr by (auto simp: h2x h1x)
  moreover have "\<forall>a \<in> set xs. map_option payload ((h2(x := None)) a) = map_option payload (h a)"
    using h1xs dx by (auto simp: h2x option.map_comp o_def)
  moreover have "\<forall>a. a \<notin> set (x # xs) \<longrightarrow> Some a \<noteq> pr \<longrightarrow> (h2(x := None)) a = h a"
    using nxs by (auto simp: h2x h1x)
  moreover have "\<forall>a. pr = Some a \<longrightarrow> (h2(x := None)) a = map_option (\<lambda>m. m\<lparr>cb_next := cb_next nd\<rparr>) (h a)"
    using pr nxs by (auto simp: h2x h1x)
  ultimately show ?thesis using h1 h2 by blast
qed

text \<open>The memory after the owned nodes of \<open>as\<close> are gone and those of \<open>keep\<close> linked up.\<close>

definition unlinked :: "cb_heap \<Rightarrow> nat option \<Rightarrow> nat list \<Rightarrow> nat list \<Rightarrow> cb_heap \<Rightarrow> bool" where
  "unlinked h pr as keep h' \<longleftrightarrow> dll h' pr (first_opt keep) keep
     \<and> (\<forall>a. a \<notin> set as \<longrightarrow> Some a \<noteq> pr \<longrightarrow> h' a = h a)
     \<and> (\<forall>a \<in> set as - set keep. h' a = None)
     \<and> (\<forall>a \<in> set keep. map_option payload (h' a) = map_option payload (h a))
     \<and> (\<forall>a. pr = Some a \<longrightarrow> h' a = map_option (\<lambda>nd. nd\<lparr>cb_next := first_opt keep\<rparr>) (h a))"

lemma unlinked_keep:
  assumes "unlinked h (Some x) xs keep h'" and "h x = Some nd" and "x \<notin> set xs" and "set keep \<subseteq> set xs"
    and "\<And>a. cb_prev nd = Some a \<Longrightarrow> a \<notin> set (x # xs) \<and> (\<exists>m. h a = Some m \<and> cb_next m = Some x)"
  shows "unlinked h (cb_prev nd) (x # xs) (x # keep) h'"
proof -
  have "h' a = map_option (\<lambda>nd. nd\<lparr>cb_next := Some x\<rparr>) (h a)" if "cb_prev nd = Some a" for a
    using assms(1) assms(5) [OF that] by (auto simp: unlinked_def)
  with assms(1-4) show ?thesis by (auto simp: unlinked_def)
qed

lemma unlinked_drop:
  assumes "unlinked g pr xs keep h'" and "x \<notin> set xs" and "pr \<noteq> Some x" and "g x = None"
    and "set keep \<subseteq> set xs"
    and "\<And>a. a \<in> set xs \<Longrightarrow> map_option payload (g a) = map_option payload (h a)"
    and "\<And>a. a \<notin> set (x # xs) \<Longrightarrow> Some a \<noteq> pr \<Longrightarrow> g a = h a"
    and "\<And>a. pr = Some a \<Longrightarrow> g a = map_option (\<lambda>m. m\<lparr>cb_next := c\<rparr>) (h a)"
  shows "unlinked h pr (x # xs) keep h'"
proof -
  have "\<forall>a \<in> set keep. map_option payload (h' a) = map_option payload (h a)"
    using assms(1,5,6) by (auto simp: unlinked_def)
  moreover have "\<forall>a. pr = Some a \<longrightarrow> h' a = map_option (\<lambda>nd. nd\<lparr>cb_next := first_opt keep\<rparr>) (h a)"
    using assms(1,8) by (auto simp: unlinked_def option.map_comp o_def)
  moreover have "\<forall>a \<in> set (x # xs) - set keep. h' a = None"
    using assms(1-4) by (auto simp: unlinked_def)
  moreover have "\<forall>a. a \<notin> set (x # xs) \<longrightarrow> Some a \<noteq> pr \<longrightarrow> h' a = h a"
    using assms(1,7) by (auto simp: unlinked_def)
  ultimately show ?thesis using assms(1) by (simp add: unlinked_def)
qed

lemma unregister_loop_dll:
  assumes "dll (cb_mem s) pr p as" and "distinct as" and "length as \<le> n"
    and "\<forall>a. pr = Some a \<longrightarrow> a \<notin> set as \<and> (\<exists>nd. cb_mem s a = Some nd \<and> cb_next nd = p)"
    and "keep = filter (\<lambda>a. \<not> owned pl (cb_mem s) a) as"
  shows "\<exists>h'. unregister_loop n pl i p s = Inr (s\<lparr>cb_mem := h', panda_cbs :=
        (if pr = None \<and> as \<noteq> [] \<and> keep = [] then (panda_cbs s)(i := None) else panda_cbs s)\<rparr>)
    \<and> unlinked (cb_mem s) pr as keep h'"
  using assms
proof (induction as arbitrary: n pr p s keep)
  case Nil
  then show ?case by (auto simp: unlinked_def intro!: exI [of _ "cb_mem s"])
next
  case (Cons x xs)
  from Cons.prems(1,3) obtain m nd where n: "n = Suc m" and p: "p = Some x" and x: "cb_mem s x = Some nd"
      "cb_prev nd = pr" "dll (cb_mem s) (Some x) (cb_next nd) xs"
    by (cases n) auto
  have xs: "x \<notin> set xs" "distinct xs" "length xs \<le> m" using Cons.prems n by auto
  let ?kx = "filter (\<lambda>a. \<not> owned pl (cb_mem s) a) xs"
  show ?case
  proof (cases "cb_owner nd = pl")
    case False
    then have keep: "keep = x # ?kx" using Cons.prems(5) x by simp
    from Cons.IH [OF x(3) xs(2,3) _ refl] x(1) xs(1) obtain h' where h':
      "unregister_loop m pl i (cb_next nd) s = Inr (s\<lparr>cb_mem := h'\<rparr>)"
      "unlinked (cb_mem s) (Some x) xs ?kx h'" by auto
    have "unlinked (cb_mem s) (cb_prev nd) (x # xs) (x # ?kx) h'"
      using h'(2) x(1) xs(1) by (rule unlinked_keep) (use Cons.prems(4) x(2) p in auto)
    with h'(1) False keep x(1,2) p n show ?thesis
      by (intro exI [of _ h']) simp
  next
    case True
    then have keep: "keep = ?kx" using Cons.prems(5) x by simp
    have d0: "dll (cb_mem s) pr (Some x) (x # xs)" using Cons.prems(1) p by simp
    have pr0: "\<forall>a. pr = Some a \<longrightarrow> a \<notin> set (x # xs) \<and> (\<exists>m. cb_mem s a = Some m)"
      using Cons.prems(4) by blast
    from unlink_dll [OF d0 Cons.prems(2) x(1) pr0] obtain h1 h2 where
      h12: "cb_update pr (\<lambda>m. m\<lparr>cb_next := cb_next nd\<rparr>) (cb_mem s) = Inr h1"
        "cb_update (cb_next nd) (\<lambda>m. m\<lparr>cb_prev := pr\<rparr>) h1 = Inr h2" "h2 x = Some nd"
      and g: "dll (h2(x := None)) pr (cb_next nd) xs"
        "\<forall>a \<in> set xs. map_option payload ((h2(x := None)) a) = map_option payload (cb_mem s a)"
        "\<forall>a. a \<notin> set (x # xs) \<longrightarrow> Some a \<noteq> pr \<longrightarrow> (h2(x := None)) a = cb_mem s a"
        "\<forall>a. pr = Some a \<longrightarrow> (h2(x := None)) a = map_option (\<lambda>m. m\<lparr>cb_next := cb_next nd\<rparr>) (cb_mem s a)"
      by (elim exE conjE) (rule that)
    let ?cbs = "if pr = None \<and> cb_next nd = None then (panda_cbs s)(i := None) else panda_cbs s"
    let ?s = "s\<lparr>cb_mem := h2(x := None), panda_cbs := ?cbs\<rparr>"
    have step: "unregister_loop n pl i p s = unregister_loop m pl i (cb_next nd) ?s"
      using h12 by (simp add: Let_def n p x(1,2) True)
    have own: "owned pl (cb_mem ?s) a = owned pl (cb_mem s) a" if "a \<in> set xs" for a
      using bspec [OF g(2) that] dll_dom [OF x(3) that] by (auto simp: payload_def)
    have keep': "keep = filter (\<lambda>a. \<not> owned pl (cb_mem ?s) a) xs"
      unfolding keep using own by (intro filter_cong) auto
    have pr': "\<forall>a. pr = Some a \<longrightarrow> a \<notin> set xs \<and> (\<exists>nd'. cb_mem ?s a = Some nd' \<and> cb_next nd' = cb_next nd)"
      using Cons.prems(4) g(4) by auto
    have d': "dll (cb_mem ?s) pr (cb_next nd) xs" using g(1) by simp
    have cbs: "(if pr = None \<and> xs \<noteq> [] \<and> keep = [] then (panda_cbs ?s)(i := None) else panda_cbs ?s)
      = (if pr = None \<and> x # xs \<noteq> [] \<and> keep = [] then (panda_cbs s)(i := None) else panda_cbs s)"
      using x(3) keep by (cases xs) auto
    from Cons.IH [OF d' xs(2,3) pr' keep', unfolded cbs] obtain h' where h':
      "unregister_loop m pl i (cb_next nd) ?s = Inr (?s\<lparr>cb_mem := h', panda_cbs :=
        (if pr = None \<and> x # xs \<noteq> [] \<and> keep = [] then (panda_cbs s)(i := None) else panda_cbs s)\<rparr>)"
      "unlinked (cb_mem ?s) pr xs keep h'"
      by (elim exE conjE) (rule that)
    from h'(2) have "unlinked (h2(x := None)) pr xs keep h'" by simp
    then have "unlinked (cb_mem s) pr (x # xs) keep h'"
      by (rule unlinked_drop [OF _ xs(1) _ _ _ g(2) [rule_format] g(3) [rule_format] g(4) [rule_format]])
        (use Cons.prems(4) keep in auto)
    with step h'(1) show ?thesis by (intro exI [of _ h']) simp
  qed
qed

text \<open>Unregistering, all lists: the table entry is cleared only when the list becomes empty.\<close>

definition kept :: "plugin \<Rightarrow> cb_heap \<Rightarrow> nat list \<Rightarrow> nat list" where
  "kept pl h as = filter (\<lambda>a. \<not> owned pl h a) as"

definition unregistered :: "plugin \<Rightarrow> cb_state \<Rightarrow> (nat \<Rightarrow> nat list) \<Rightarrow> nat \<Rightarrow> cb_state \<Rightarrow> bool" where
  "unregistered pl s L n s' \<longleftrightarrow>
     cb_fresh s' = cb_fresh s
     \<and> (\<forall>a. (\<forall>i<n. a \<notin> set (L i)) \<longrightarrow> cb_mem s' a = cb_mem s a)
     \<and> (\<forall>i<n. dll (cb_mem s') None (first_opt (kept pl (cb_mem s) (L i))) (kept pl (cb_mem s) (L i))
          \<and> (\<forall>a \<in> set (kept pl (cb_mem s) (L i)). map_option payload (cb_mem s' a) = map_option payload (cb_mem s a))
          \<and> (\<forall>a \<in> set (L i) - set (kept pl (cb_mem s) (L i)). cb_mem s' a = None))
     \<and> panda_cbs s' = (\<lambda>i. if i < n \<and> kept pl (cb_mem s) (L i) = [] then None else panda_cbs s i)"

lemma unregister_shape:
  assumes sh: "cbs_shape s L"
  shows "\<exists>s'. panda_unregister_callbacks pl s = Inr s' \<and> unregistered pl s L PANDA_CB_LAST s'"
  unfolding panda_unregister_callbacks_def
proof (rule for_types_inv)
  show "unregistered pl s L 0 s" by (simp add: unregistered_def)
next
  fix i s1 assume u: "unregistered pl s L i s1"
  let ?k = "\<lambda>j. kept pl (cb_mem s) (L j)"
  have disj: "a \<in> set (L i) \<Longrightarrow> j < i \<Longrightarrow> a \<notin> set (L j)" for a j
    using sh by (metis IntI cbs_shape_def empty_iff less_irrefl)
  have same: "cb_mem s1 a = cb_mem s a" if "a \<in> set (L i)" for a
    using u disj [OF that] by (auto simp: unregistered_def)
  have p: "panda_cbs s1 i = panda_cbs s i" using u by (simp add: unregistered_def)
  have d: "dll (cb_mem s1) None (panda_cbs s1 i) (L i)"
    unfolding p using sh same by (subst dll_cong [where h = "cb_mem s"]) (auto simp: cbs_shape_def)
  have k: "?k i = filter (\<lambda>a. \<not> owned pl (cb_mem s1) a) (L i)"
    unfolding kept_def using same by (intro filter_cong) auto
  have "distinct (L i)" "length (L i) \<le> cb_fresh s1"
    using sh cbs_shape_length [OF sh, of i] u by (simp_all add: cbs_shape_def unregistered_def)
  from unregister_loop_dll [OF d this _ k, of i] obtain h' where
    run: "unregister_loop (cb_fresh s1) pl i (panda_cbs s1 i) s1 = Inr (s1\<lparr>cb_mem := h', panda_cbs :=
        (if L i \<noteq> [] \<and> ?k i = [] then (panda_cbs s1)(i := None) else panda_cbs s1)\<rparr>)"
    and un: "unlinked (cb_mem s1) None (L i) (?k i) h'"
    by auto
  let ?s = "s1\<lparr>cb_mem := h', panda_cbs :=
        (if L i \<noteq> [] \<and> ?k i = [] then (panda_cbs s1)(i := None) else panda_cbs s1)\<rparr>"
  have ki: "a \<in> set (?k j) \<Longrightarrow> a \<in> set (L j)" for a j by (simp add: kept_def)
  have other: "h' a = cb_mem s1 a" if "a \<notin> set (L i)" for a
    using un that by (simp add: unlinked_def)
  have low: "h' a = cb_mem s1 a" if "a \<in> set (L j)" "j < i" for a j
    using other disj that by blast
  have "unregistered pl s L (Suc i) ?s"
    unfolding unregistered_def
  proof (intro conjI allI impI)
    show "cb_fresh ?s = cb_fresh s" using u by (simp add: unregistered_def)
  next
    fix a assume "\<forall>j<Suc i. a \<notin> set (L j)"
    then show "cb_mem ?s a = cb_mem s a" using u other by (simp add: unregistered_def)
  next
    fix j assume j: "j < Suc i"
    show "dll (cb_mem ?s) None (first_opt (?k j)) (?k j)"
    proof (cases "j = i")
      case True
      with un show ?thesis by (simp add: unlinked_def)
    next
      case False
      with j u have "dll (cb_mem s1) None (first_opt (?k j)) (?k j)" by (simp add: unregistered_def)
      moreover have "h' a = cb_mem s1 a" if "a \<in> set (?k j)" for a
        using low [OF ki [OF that]] j False by simp
      ultimately show ?thesis
        by (subst dll_cong [where h = "cb_mem s1"]) simp_all
    qed
    show "\<forall>a \<in> set (?k j). map_option payload (cb_mem ?s a) = map_option payload (cb_mem s a)"
      using j u un low [OF ki] same [OF ki] by (auto simp: unregistered_def unlinked_def less_Suc_eq)
    show "\<forall>a \<in> set (L j) - set (?k j). cb_mem ?s a = None"
      using j u un low by (auto simp: unregistered_def unlinked_def less_Suc_eq)
  next
    have "panda_cbs s i = None" if "L i = []"
      using sh that dll.simps(1) by (metis cbs_shape_def)
    then show "panda_cbs ?s = (\<lambda>j. if j < Suc i \<and> ?k j = [] then None else panda_cbs s j)"
      using u by (auto simp: unregistered_def less_Suc_eq kept_def fun_eq_iff)
  qed
  with run show "\<exists>s'. unregister_loop (cb_fresh s1) pl i (panda_cbs s1 i) s1 = Inr s'
      \<and> unregistered pl s L (Suc i) s'" by blast
qed

text \<open>
  When the head survives, or nothing does, unregistering is the removal of the plugin's
  callbacks; otherwise the table keeps pointing at the freed head.
\<close>

definition head_kept :: "plugin \<Rightarrow> (panda_cb \<times> plugin \<times> bool) list \<Rightarrow> bool" where
  "head_kept pl xs \<longleftrightarrow>
     xs = [] \<or> fst (snd (hd xs)) \<noteq> pl \<or> (\<forall>x \<in> set xs. fst (snd x) = pl)"

lemma head_kept_shape:
  "cbs_shape s L \<Longrightarrow> head_kept pl (cb_view s i) \<longleftrightarrow>
     L i = [] \<or> \<not> owned pl (cb_mem s) (hd (L i)) \<or> kept pl (cb_mem s) (L i) = []"
  by (cases "L i") (auto simp: head_kept_def cb_view_shape kept_def payload_def filter_empty_conv)

lemma unregister_inv:
  assumes "cbs_inv s" and hk: "\<And>i. head_kept pl (cb_view s i)"
  shows "\<exists>s'. panda_unregister_callbacks pl s = Inr s' \<and> cbs_inv s'
    \<and> (\<forall>i. cb_view s' i = filter (\<lambda>(c, ow, e). ow \<noteq> pl) (cb_view s i))"
proof -
  from assms obtain L where sh: "cbs_shape s L" by (auto simp: cbs_inv_def)
  let ?k = "\<lambda>i. kept pl (cb_mem s) (L i)"
  from unregister_shape [OF sh] obtain s' where run: "panda_unregister_callbacks pl s = Inr s'"
    and u: "unregistered pl s L PANDA_CB_LAST s'" by blast
  have high: "L i = []" if "PANDA_CB_LAST \<le> i" for i using sh that by (simp add: cbs_shape_def)
  have d: "dll (cb_mem s) None (panda_cbs s i) (L i)" for i using sh by (simp add: cbs_shape_def)
  have p: "panda_cbs s' i = first_opt (?k i)" for i
  proof (cases "?k i = []")
    case True
    then show ?thesis
      using u high [of i] d [of i] by (cases "i < 31") (auto simp: unregistered_def kept_def)
  next
    case False
    then obtain a as where "L i = a # as" by (cases "L i") (auto simp: kept_def)
    moreover from this False hk [of i] have "?k i = a # kept pl (cb_mem s) as"
      by (simp add: head_kept_shape [OF sh] kept_def)
    ultimately show ?thesis using u d [of i] by (simp add: unregistered_def)
  qed
  have sh': "cbs_shape s' ?k"
    unfolding cbs_shape_def
  proof (intro conjI allI impI)
    fix i show "dll (cb_mem s') None (panda_cbs s' i) (?k i)"
      unfolding p using u high [of i] by (cases "i < 31") (auto simp: unregistered_def kept_def)
    show "distinct (?k i)" using sh by (simp add: cbs_shape_def kept_def)
    show "set (?k i) \<inter> set (?k j) = {}" if "i \<noteq> j" for j
      using sh that by (fastforce simp: cbs_shape_def kept_def)
    show "?k i = []" if "PANDA_CB_LAST \<le> i" using high [OF that] by (simp add: kept_def)
    show "cb_mem s' a = None" if "cb_fresh s' \<le> a" for a
    proof -
      have a: "cb_mem s a = None" using sh u that by (simp add: cbs_shape_def unregistered_def)
      then have "\<forall>i. a \<notin> set (L i)" using d dll_dom by fastforce
      with u a show ?thesis by (simp add: unregistered_def)
    qed
  qed
  have "cb_view s' i = filter (\<lambda>(c, ow, e). ow \<noteq> pl) (cb_view s i)" for i
  proof -
    have "payload (the (cb_mem s' a)) = payload (the (cb_mem s a))" if "a \<in> set (?k i)" for a
    proof -
      have "i < 31" "a \<in> set (L i)" using that high [of i] by (force simp: kept_def)+
      with u that have "map_option payload (cb_mem s' a) = map_option payload (cb_mem s a)"
        by (simp add: unregistered_def)
      with dll_dom [OF d \<open>a \<in> set (L i)\<close>] show ?thesis by auto
    qed
    then have "map (payload \<circ> the \<circ> cb_mem s') (?k i) = map (payload \<circ> the \<circ> cb_mem s) (?k i)" by simp
    then show ?thesis
      unfolding cb_view_shape [OF sh'] cb_view_shape [OF sh]
      by (simp add: kept_def filter_map o_def payload_def case_prod_beta)
  qed
  with run sh' show ?thesis by (auto simp: cbs_inv_def)
qed

lemma unregister_dangling:
  assumes "cbs_inv s" and "\<not> head_kept pl (cb_view s i)"
  shows "\<exists>s'. panda_unregister_callbacks pl s = Inr s' \<and> run_callbacks i s' = Inl Use_after_free"
proof -
  from assms obtain L where sh: "cbs_shape s L" by (auto simp: cbs_inv_def)
  from unregister_shape [OF sh] obtain s' where run: "panda_unregister_callbacks pl s = Inr s'"
    and u: "unregistered pl s L PANDA_CB_LAST s'" by blast
  from assms(2) obtain a as where a: "L i = a # as" "owned pl (cb_mem s) a" "kept pl (cb_mem s) (L i) \<noteq> []"
    by (cases "L i") (auto simp: head_kept_shape [OF sh])
  have i: "i < 31" using sh a(1) by (metis cbs_shape_def leI list.distinct(1))
  have d: "dll (cb_mem s) None (panda_cbs s i) (a # as)" "distinct (a # as)"
    using sh a(1) by (metis cbs_shape_def)+
  then have p: "panda_cbs s' i = Some a" using u i a(3) by (simp add: unregistered_def)
  have "a \<notin> set (kept pl (cb_mem s) (L i))" using a(2) by (simp add: kept_def)
  then have "cb_mem s' a = None" using u i a(1) by (auto simp: unregistered_def)
  moreover obtain n where "cb_fresh s' = Suc n"
    using u cbs_shape_length [OF sh, of i] a(1) by (cases "cb_fresh s'") (auto simp: unregistered_def)
  ultimately have "run_callbacks i s' = Inl Use_after_free"
    by (simp add: run_callbacks_def p)
  with run show ?thesis by blast
qed

section \<open>The contract of the registry\<close>

text \<open>
  What a plugin and a callback site rely on. The laws are discharged below for the linked
  lists; the facts proved in the locale are about any sequence of uses.
\<close>

primrec register_all :: "(panda_cb \<Rightarrow> 's \<Rightarrow> rr_exit + 's) \<Rightarrow> panda_cb list \<Rightarrow> 's \<Rightarrow> rr_exit + 's" where
  "register_all reg [] s = Inr s"
| "register_all reg (c # cs) s = bindR (reg c s) (register_all reg cs)"

definition set_flags :: "bool \<Rightarrow> plugin \<Rightarrow> (panda_cb \<times> plugin \<times> bool) list \<Rightarrow> (panda_cb \<times> plugin \<times> bool) list" where
  "set_flags b pl = map (\<lambda>(c, ow, e). (c, ow, if ow = pl then b else e))"

locale cb_registry =
  fixes invar :: "'s \<Rightarrow> bool"
    and view :: "'s \<Rightarrow> panda_cb_type \<Rightarrow> (panda_cb \<times> plugin \<times> bool) list"
    and register :: "plugin \<Rightarrow> panda_cb_type \<Rightarrow> panda_cb \<Rightarrow> 's \<Rightarrow> rr_exit + 's"
    and enable :: "plugin \<Rightarrow> 's \<Rightarrow> rr_exit + 's"
    and disable :: "plugin \<Rightarrow> 's \<Rightarrow> rr_exit + 's"
    and run :: "panda_cb_type \<Rightarrow> 's \<Rightarrow> rr_exit + panda_cb list"
  assumes register: "invar s \<Longrightarrow> type < PANDA_CB_LAST \<Longrightarrow> \<exists>s'. register pl type cb s = Inr s' \<and> invar s'
      \<and> view s' = (view s)(type := (cb, pl, True) # view s type)"
    and enable: "invar s \<Longrightarrow> \<exists>s'. enable pl s = Inr s' \<and> invar s' \<and> view s' = set_flags True pl \<circ> view s"
    and disable: "invar s \<Longrightarrow> \<exists>s'. disable pl s = Inr s' \<and> invar s' \<and> view s' = set_flags False pl \<circ> view s"
    and run: "invar s \<Longrightarrow> run type s = Inr (called (view s type))"
begin

lemma register_all_view:
  assumes "invar s" and "type < PANDA_CB_LAST"
  shows "\<exists>s'. register_all (register pl type) cs s = Inr s' \<and> invar s'
    \<and> view s' type = rev (map (\<lambda>c. (c, pl, True)) cs) @ view s type"
  using assms(1)
proof (induction cs arbitrary: s)
  case Nil
  then show ?case by simp
next
  case (Cons c cs)
  from register [OF Cons.prems assms(2), of pl c] obtain s1 where
    "register pl type c s = Inr s1" "invar s1" "view s1 type = (c, pl, True) # view s type" by auto
  with Cons.IH [of s1] show ?case by auto
qed

lemma called_all_on: "(\<forall>x \<in> set xs. snd (snd x)) \<Longrightarrow> called xs = map fst xs"
  by (cases xs) (simp_all add: case_prod_beta)

lemma register_all_run:
  assumes "invar s" and "type < PANDA_CB_LAST" and "view s type = []"
  shows "bindR (register_all (register pl type) cs s) (run type) = Inr (rev cs)"
proof -
  from register_all_view [OF assms(1,2), of pl cs] assms(3) obtain s' where s':
    "register_all (register pl type) cs s = Inr s'" "invar s'"
    "view s' type = rev (map (\<lambda>c. (c, pl, True)) cs)" by auto
  then show ?thesis
    by (simp add: run called_all_on rev_map [symmetric] comp_def)
qed

text \<open>Disabled callbacks behind the head stay silent.\<close>

lemma disable_run:
  assumes "invar s"
  shows "bindR (disable pl s) (run type) =
    Inr (case view s type of [] \<Rightarrow> []
      | x # xs \<Rightarrow> fst x # map fst (filter (\<lambda>(c, ow, e). ow \<noteq> pl \<and> e) xs))"
proof -
  from disable [OF assms, of pl] obtain s' where s': "disable pl s = Inr s'" "invar s'"
    "view s' = set_flags False pl \<circ> view s" by blast
  have f: "map fst (filter (\<lambda>(c, ow, e). e) (set_flags False pl xs))
      = map fst (filter (\<lambda>(c, ow, e). ow \<noteq> pl \<and> e) xs)" for xs
    by (induction xs) (auto simp: set_flags_def split: if_splits)
  show ?thesis
    using s' f by (cases "view s type") (auto simp: run set_flags_def)
qed

lemma disable_enable:
  assumes "invar s" and "\<And>i c e. (c, pl, e) \<in> set (view s i) \<Longrightarrow> e"
  shows "\<exists>s'. bindR (disable pl s) (enable pl) = Inr s' \<and> invar s' \<and> view s' = view s"
proof -
  from disable [OF assms(1), of pl] obtain s1 where s1: "disable pl s = Inr s1" "invar s1"
    "view s1 = set_flags False pl \<circ> view s" by blast
  from enable [OF s1(2), of pl] obtain s2 where s2: "enable pl s1 = Inr s2" "invar s2"
    "view s2 = set_flags True pl \<circ> view s1" by blast
  have "set_flags True pl (set_flags False pl (view s i)) = view s i" for i
    unfolding set_flags_def map_map using assms(2) [of _ _ i] by (intro map_idI) (auto split: if_splits)
  with s1 s2 show ?thesis by auto
qed

end

lemma register_inv:
  "cbs_inv s \<Longrightarrow> type < PANDA_CB_LAST \<Longrightarrow> \<exists>s'. panda_register_callback pl type cb s = Inr s' \<and> cbs_inv s'
     \<and> cb_view s' = (cb_view s)(type := (cb, pl, True) # cb_view s type)"
  unfolding cbs_inv_def by (metis register_shape)

lemma enable_inv:
  assumes "cbs_inv s"
  shows "\<exists>s'. panda_enable_plugin pl s = Inr s' \<and> cbs_inv s' \<and> cb_view s' = set_flags True pl \<circ> cb_view s"
proof -
  from assms obtain L where "cbs_shape s L" by (auto simp: cbs_inv_def)
  then show ?thesis
    by (rule set_enabled_all [where b = True and pl = pl])
      (auto simp: panda_enable_plugin_def cbs_inv_def set_flags_def fun_eq_iff)
qed

lemma disable_inv:
  assumes "cbs_inv s"
  shows "\<exists>s'. panda_disable_plugin pl s = Inr s' \<and> cbs_inv s' \<and> cb_view s' = set_flags False pl \<circ> cb_view s"
proof -
  from assms obtain L where "cbs_shape s L" by (auto simp: cbs_inv_def)
  then show ?thesis
    by (rule set_enabled_all [where b = False and pl = pl])
      (auto simp: panda_disable_plugin_def cbs_inv_def set_flags_def fun_eq_iff)
qed

interpretation pcb: cb_registry cbs_inv cb_view panda_register_callback panda_enable_plugin
    panda_disable_plugin run_callbacks
proof unfold_locales
  show "cbs_inv s \<Longrightarrow> run_callbacks type s = Inr (called (cb_view s type))" for s type
    using run_callbacks_shape by (auto simp: cbs_inv_def)
qed (use register_inv enable_inv disable_inv in blast)+

lemma init_cbs_inv [simp]: "cbs_inv init_cbs" "cb_view init_cbs i = []"
  by (auto simp: cbs_inv_def cbs_shape_def init_cbs_def cb_view_def intro!: exI [of _ "\<lambda>_. []"])

section \<open>Properties\<close>

text \<open>
  C16: Callbacks run in the reverse of the order in which they were registered: from any well-formed
  registry with no callback of the type, registering any number of callbacks succeeds and the
  callback site then calls exactly these, the last registered first.
\<close>

theorem callbacks_run_last_first:
  assumes "cbs_inv s" and "type < PANDA_CB_LAST" and "cb_view s type = []"
  shows "bindR (register_all (panda_register_callback pl type) cs s) (run_callbacks type) = Inr (rev cs)"
  using assms by (rule pcb.register_all_run)

theorem callbacks_run_last_first_witness:
  "bindR (register_all (panda_register_callback 7 PANDA_CB_MONITOR) [10, 20, 30] init_cbs)
     (run_callbacks PANDA_CB_MONITOR) = Inr [30, 20, 10]"
  using callbacks_run_last_first [of init_cbs PANDA_CB_MONITOR 7 "[10, 20, 30]"] by simp

text \<open>
  Disabling a plugin silences its callbacks, except the one at the head of a list: the loop at
  the callback sites calls the head without looking at its flag, and of the rest exactly the
  enabled callbacks of other plugins.
\<close>

theorem disable_silences_all_but_head:
  assumes "cbs_inv s"
  shows "bindR (panda_disable_plugin pl s) (run_callbacks type) =
    Inr (case cb_view s type of [] \<Rightarrow> []
      | x # xs \<Rightarrow> fst x # map fst (filter (\<lambda>(c, ow, e). ow \<noteq> pl \<and> e) xs))"
  using assms by (rule pcb.disable_run)

theorem disable_silences_all_but_head_witness:
  "\<exists>s. register_all (panda_register_callback 7 PANDA_CB_MONITOR) [10, 20] init_cbs = Inr s
     \<and> bindR (panda_disable_plugin 7 s) (run_callbacks PANDA_CB_MONITOR) = Inr [20]"
proof -
  from pcb.register_all_view [of init_cbs PANDA_CB_MONITOR 7 "[10, 20]"] obtain s where
    "register_all (panda_register_callback 7 PANDA_CB_MONITOR) [10, 20] init_cbs = Inr s" "cbs_inv s"
    "cb_view s PANDA_CB_MONITOR = [(20, 7, True), (10, 7, True)]" by auto
  with disable_silences_all_but_head [of s 7 PANDA_CB_MONITOR] show ?thesis by auto
qed

text \<open>
  Disabling a plugin and enabling it again restores the registry, if none of the plugin's
  callbacks was disabled before.
\<close>

theorem disable_then_enable:
  assumes "cbs_inv s" and "\<forall>i c e. (c, pl, e) \<in> set (cb_view s i) \<longrightarrow> e"
  shows "\<exists>s'. bindR (panda_disable_plugin pl s) (panda_enable_plugin pl) = Inr s' \<and> cbs_inv s'
    \<and> cb_view s' = cb_view s"
  using assms(2) by (intro pcb.disable_enable [OF assms(1)]) blast

theorem disable_then_enable_witness:
  "\<exists>s'. bindR (panda_disable_plugin 7 init_cbs) (panda_enable_plugin 7) = Inr s' \<and> cb_view s' = cb_view init_cbs"
  using disable_then_enable [of init_cbs 7] by auto

text \<open>
  C17: Unregistering a plugin removes exactly its callbacks from every list and keeps the registry
  well-formed, as long as no list starts with a callback of the plugin that is followed by one of
  another plugin.
\<close>

theorem unregister_removes_callbacks:
  assumes "cbs_inv s" and "\<forall>i. head_kept pl (cb_view s i)"
  shows "\<exists>s'. panda_unregister_callbacks pl s = Inr s' \<and> cbs_inv s'
    \<and> (\<forall>i. cb_view s' i = filter (\<lambda>(c, ow, e). ow \<noteq> pl) (cb_view s i))"
  using assms(2) by (intro unregister_inv [OF assms(1)]) blast

theorem unregister_removes_callbacks_witness:
  "\<exists>s s'. register_all (panda_register_callback 7 PANDA_CB_MONITOR) [10, 20] init_cbs = Inr s
     \<and> panda_unregister_callbacks 7 s = Inr s' \<and> cb_view s' PANDA_CB_MONITOR = []"
proof -
  from register_inv [of init_cbs PANDA_CB_MONITOR 7 10] obtain s1 where
    s1: "panda_register_callback 7 PANDA_CB_MONITOR 10 init_cbs = Inr s1" "cbs_inv s1"
    "cb_view s1 = (cb_view init_cbs)(PANDA_CB_MONITOR := [(10, 7, True)])" by auto
  from register_inv [OF s1(2), of PANDA_CB_MONITOR 7 20] s1(3) obtain s where
    s: "panda_register_callback 7 PANDA_CB_MONITOR 20 s1 = Inr s" "cbs_inv s"
    "cb_view s = (cb_view init_cbs)(PANDA_CB_MONITOR := [(20, 7, True), (10, 7, True)])" by auto
  have "\<forall>i. head_kept 7 (cb_view s i)" by (auto simp: s(3) head_kept_def)
  from unregister_removes_callbacks [OF s(2) this] s1 s show ?thesis by auto
qed

text \<open>
  In the remaining case, when a list starts with a callback of the plugin and another plugin's
  callback follows, unregistering leaves \<^verbatim>\<open>panda_cbs\<close> at the freed head node: the next callback
  site of that type reads freed memory.
\<close>

theorem unregister_leaves_freed_head:
  assumes "cbs_inv s" and "\<not> head_kept pl (cb_view s i)"
  shows "\<exists>s'. panda_unregister_callbacks pl s = Inr s' \<and> run_callbacks i s' = Inl Use_after_free"
  using assms by (rule unregister_dangling)

theorem unregister_leaves_freed_head_witness:
  "\<exists>s s'. bindR (panda_register_callback 7 PANDA_CB_MONITOR 10 init_cbs)
        (panda_register_callback 8 PANDA_CB_MONITOR 20) = Inr s
     \<and> panda_unregister_callbacks 8 s = Inr s' \<and> run_callbacks PANDA_CB_MONITOR s' = Inl Use_after_free"
proof -
  from register_inv [of init_cbs PANDA_CB_MONITOR 7 10] obtain s1 where
    s1: "panda_register_callback 7 PANDA_CB_MONITOR 10 init_cbs = Inr s1" "cbs_inv s1"
    "cb_view s1 PANDA_CB_MONITOR = [(10, 7, True)]" by auto
  from register_inv [OF s1(2), of PANDA_CB_MONITOR 8 20] s1(3) obtain s where
    s: "panda_register_callback 8 PANDA_CB_MONITOR 20 s1 = Inr s" "cbs_inv s"
    "cb_view s PANDA_CB_MONITOR = [(20, 8, True), (10, 7, True)]" by auto
  then have "\<not> head_kept 8 (cb_view s PANDA_CB_MONITOR)" by (simp add: head_kept_def)
  from unregister_leaves_freed_head [OF s(2) this] s1(1) s(1) show ?thesis by auto
qed

end
