(* ===== verification/RR_State.thy ===== *)
theory RR_State
  imports RR_Queue Panda_Callbacks
begin

text \<open>
  The globals of record/replay (\<^verbatim>\<open>qemu/rr_log.c\<close>, \<^verbatim>\<open>rr_log_all.h\<close>, the program-point
  functions of \<^verbatim>\<open>cpu-exec.c\<close>) as one record, the calls that leave the modelled code as a
  list of effects, and the program point: how it is set, and how a replay compares it with
  the one in the log.
\<close>

section \<open>The state\<close>

text \<open>The fields of the guest CPU that a program point is made of (x86 targets).\<close>

record CPUState =
  eip :: u64
  regs_ecx :: u64
  rr_guest_instr_count :: u64

text \<open>
  Calls to the rest of the emulator and to plugins, in the order they are made, with the
  arguments that matter: physical memory writes with the bytes written, the callbacks called.
\<close>

datatype rr_effect =
    Cpu_physical_memory_rw u64 u32 "u8 list"
  | Cpu_register_physical_memory u64 u64 u64
  | Cpu_physical_memory_map u64 u64
  | Cpu_physical_memory_unmap u64 u64 "u8 list"
  | Replay_hd_transfer panda_cb RR_hd_transfer_args
  | Replay_net_transfer panda_cb RR_net_transfer_args
  | Replay_handle_packet panda_cb "u8 list" u32 u8 u64
  | Before_loadvm panda_cb
  | Load_vmstate string
  | Load_vmstate_rr string
  | Do_savevm_rr string
  | Signal_disagreement RR_prog_point RR_prog_point
  | Vm_start
  | Vm_stop
  | Quit_timers
  | Init_timer_alarm
  | Panda_cleanup
  | Replay_message string

record rr_state =
  rr_mode :: RR_mode
  rr_prog_point :: RR_prog_point
  rr_num_instr_before_next_interrupt :: u64
  rr_record_in_progress :: bool
  rr_skipped_callsite_location :: RR_callsite_id
  rr_nondet_log :: "RR_log option"
  rr_please_flush_tb :: bool
  rr_replay_requested :: bool
  rr_record_requested :: nat
  rr_end_record_requested :: bool
  rr_end_replay_requested :: bool
  rr_requested_name :: "string option"
  rr_snapshot_name :: "string option"
  rr_queue :: rr_store
  rr_max_num_queue_entries :: nat
  env :: CPUState
  cpu_single_env_set :: bool
  cbs :: cb_state
  disk :: "string \<Rightarrow> u8 list option"
  n_alloc :: nat
  effects :: "rr_effect list"

text \<open>The globals when the program starts, with a given CPU and file system.\<close>

definition init_rr :: "CPUState \<Rightarrow> (string \<Rightarrow> u8 list option) \<Rightarrow> rr_state" where
  "init_rr cpu files = \<lparr>rr_mode = RR_OFF, rr_prog_point = zero_prog_point,
     rr_num_instr_before_next_interrupt = 0, rr_record_in_progress = False,
     rr_skipped_callsite_location = 0, rr_nondet_log = None, rr_please_flush_tb = False,
     rr_replay_requested = False, rr_record_requested = 0, rr_end_record_requested = False,
     rr_end_replay_requested = False, rr_requested_name = None, rr_snapshot_name = None,
     rr_queue = init_store, rr_max_num_queue_entries = 0, env = cpu, cpu_single_env_set = False,
     cbs = init_cbs, disk = files, n_alloc = 0, effects = []\<rparr>"

definition emit :: "rr_effect list \<Rightarrow> rr_state \<Rightarrow> rr_state" where
  "emit es s = s\<lparr>effects := effects s @ es\<rparr>"

text \<open>
  The emulator functions that record/replay calls and whose results it uses: mapping guest
  memory (the host address, if any, and the length mapped) and the snapshot functions (their
  return code and the CPU afterwards). They may depend on everything done before. The last
  field says whether the file system lets \<^verbatim>\<open>fopen\<close> create a file.
\<close>

record machine =
  phys_map :: "rr_effect list \<Rightarrow> u64 \<Rightarrow> u64 \<Rightarrow> u64 option \<times> u64"
  load_vm :: "rr_effect list \<Rightarrow> string \<Rightarrow> CPUState \<Rightarrow> int \<times> CPUState"
  save_vm :: "rr_effect list \<Rightarrow> string \<Rightarrow> int"
  can_create :: "string \<Rightarrow> bool"

section \<open>Accessors and flags\<close>

definition rr_get_pc :: "rr_state \<Rightarrow> u64" where
  "rr_get_pc s = pc (rr_prog_point s)"

definition rr_get_secondary :: "rr_state \<Rightarrow> u64" where
  "rr_get_secondary s = secondary (rr_prog_point s)"

definition rr_get_guest_instr_count :: "rr_state \<Rightarrow> u64" where
  "rr_get_guest_instr_count s = guest_instr_count (rr_prog_point s)"

definition rr_in_replay :: "rr_state \<Rightarrow> bool" where
  "rr_in_replay s \<longleftrightarrow> rr_mode s = RR_REPLAY"

definition rr_in_record :: "rr_state \<Rightarrow> bool" where
  "rr_in_record s \<longleftrightarrow> rr_mode s = RR_RECORD"

definition rr_off :: "rr_state \<Rightarrow> bool" where
  "rr_off s \<longleftrightarrow> rr_mode s = RR_OFF"

definition rr_on :: "rr_state \<Rightarrow> bool" where
  "rr_on s \<longleftrightarrow> \<not> rr_off s"

definition rr_flush_tb :: "rr_state \<Rightarrow> bool" where
  "rr_flush_tb s = rr_please_flush_tb s"

definition rr_flush_tb_on :: "rr_state \<Rightarrow> rr_state" where
  "rr_flush_tb_on s = s\<lparr>rr_please_flush_tb := True\<rparr>"

definition rr_flush_tb_off :: "rr_state \<Rightarrow> rr_state" where
  "rr_flush_tb_off s = s\<lparr>rr_please_flush_tb := False\<rparr>"

text \<open>\<^verbatim>\<open>rr_get_queue_head\<close> and the questions asked of the log; a NULL log or queue is
  dereferenced.\<close>

definition the_log :: "rr_state \<Rightarrow> rr_exit + RR_log" where
  "the_log s = (case rr_nondet_log s of None \<Rightarrow> Inl Null_deref | Some l \<Rightarrow> Inr l)"

definition rr_replay_finished :: "rr_state \<Rightarrow> rr_exit + bool" where
  "rr_replay_finished s =
     bindR (the_log s) (\<lambda>l.
     if rr_log_is_empty l then
       bindR (queue_head_entry (rr_queue s)) (\<lambda>e.
       Inr (kind e = RR_LAST
            \<and> guest_instr_count (prog_point e) \<le> guest_instr_count (rr_prog_point s)))
     else Inr False)"

definition replay_get_guest_instr_count :: "rr_state \<Rightarrow> rr_exit + u64" where
  "replay_get_guest_instr_count s =
     (if rr_nondet_log s \<noteq> None then
        bindR (queue_head_entry (rr_queue s)) (\<lambda>e. Inr (guest_instr_count (prog_point e)))
      else Inr 0)"

definition replay_get_total_num_instructions :: "rr_state \<Rightarrow> u64" where
  "replay_get_total_num_instructions s =
     (case rr_nondet_log s of None \<Rightarrow> 0 | Some l \<Rightarrow> guest_instr_count (last_prog_point l))"

section \<open>The program point\<close>

definition rr_set_prog_point :: "u64 \<Rightarrow> u64 \<Rightarrow> u64 \<Rightarrow> rr_state \<Rightarrow> rr_state" where
  "rr_set_prog_point pc' secondary' guest_instr_count' s =
     s\<lparr>rr_num_instr_before_next_interrupt := rr_num_instr_before_next_interrupt s
          - (guest_instr_count' - guest_instr_count (rr_prog_point s)),
       rr_prog_point := \<lparr>pc = pc', secondary = secondary', guest_instr_count = guest_instr_count'\<rparr>\<rparr>"

definition rr_set_program_point :: "rr_state \<Rightarrow> rr_state" where
  "rr_set_program_point s =
     (if cpu_single_env_set s then
        rr_set_prog_point (eip (env s)) (regs_ecx (env s)) (rr_guest_instr_count (env s)) s
      else s)"

definition rr_clear_rr_guest_instr_count :: "rr_state \<Rightarrow> rr_state" where
  "rr_clear_rr_guest_instr_count s = s\<lparr>env := (env s)\<lparr>rr_guest_instr_count := 0\<rparr>\<rparr>"

text \<open>
  \<^verbatim>\<open>rr_prog_point_compare\<close>: 0 or -1; ahead of the log it ends the replay with an error,
  which does not return.
\<close>

definition rr_prog_point_compare :: "RR_prog_point \<Rightarrow> RR_prog_point \<Rightarrow> rr_exit + int" where
  "rr_prog_point_compare current recorded =
     (if guest_instr_count current < guest_instr_count recorded then Inr (-1)
      else if guest_instr_count current = guest_instr_count recorded then
        (if pc current = pc recorded \<and> secondary current = secondary recorded then Inr 0
         else if pc current = 0 \<and> guest_instr_count current = 0 then Inr 0
         else Inr (-1))
      else Inl Replay_abort)"

definition rr_reset_state :: "rr_state \<Rightarrow> rr_state" where
  "rr_reset_state s =
     rr_clear_rr_guest_instr_count
       ((rr_flush_tb_on (s\<lparr>rr_prog_point := zero_prog_point\<rparr>))
         \<lparr>rr_record_in_progress := False, rr_skipped_callsite_location := 0\<rparr>)"

section \<open>Facts\<close>

lemma emit_simps [simp]:
  "rr_mode (emit es s) = rr_mode s"
  "rr_prog_point (emit es s) = rr_prog_point s"
  "rr_nondet_log (emit es s) = rr_nondet_log s"
  "rr_queue (emit es s) = rr_queue s"
  "cbs (emit es s) = cbs s"
  "n_alloc (emit es s) = n_alloc s"
  "effects (emit es s) = effects s @ es"
  "rr_skipped_callsite_location (emit es s) = rr_skipped_callsite_location s"
  by (simp_all add: emit_def)

lemma rr_prog_point_compare_0_iff:
  "rr_prog_point_compare c r = Inr 0 \<longleftrightarrow>
     guest_instr_count c = guest_instr_count r
     \<and> (pc c = pc r \<and> secondary c = secondary r \<or> pc c = 0 \<and> guest_instr_count c = 0)"
  by (auto simp: rr_prog_point_compare_def)

lemma rr_prog_point_compare_abort_iff:
  "rr_prog_point_compare c r = Inl x \<longleftrightarrow>
     x = Replay_abort \<and> guest_instr_count r < guest_instr_count c"
  by (auto simp: rr_prog_point_compare_def word_gt_0)

lemma rr_prog_point_compare_refl [simp]: "rr_prog_point_compare p p = Inr 0"
  by (simp add: rr_prog_point_compare_def)

lemma rr_set_prog_point_end:
  "guest_instr_count (rr_prog_point (rr_set_prog_point p c n s))
     + rr_num_instr_before_next_interrupt (rr_set_prog_point p c n s)
   = guest_instr_count (rr_prog_point s) + rr_num_instr_before_next_interrupt s"
  by (simp add: rr_set_prog_point_def)

lemma rr_set_program_point_simps [simp]:
  "rr_mode (rr_set_program_point s) = rr_mode s"
  "rr_nondet_log (rr_set_program_point s) = rr_nondet_log s"
  "rr_queue (rr_set_program_point s) = rr_queue s"
  "cbs (rr_set_program_point s) = cbs s"
  "n_alloc (rr_set_program_point s) = n_alloc s"
  "effects (rr_set_program_point s) = effects s"
  "env (rr_set_program_point s) = env s"
  "rr_skipped_callsite_location (rr_set_program_point s) = rr_skipped_callsite_location s"
  "rr_record_in_progress (rr_set_program_point s) = rr_record_in_progress s"
  "cpu_single_env_set (rr_set_program_point s) = cpu_single_env_set s"
  by (simp_all add: rr_set_program_point_def rr_set_prog_point_def)

section \<open>Properties\<close>

text \<open>
  Setting the program point moves the instruction count forward and the distance to the next
  interrupt back by the same amount (64-bit arithmetic with wrap-around): the instruction at
  which the interrupt is due stays the same, and nothing else of the state changes.
\<close>

theorem set_program_point_keeps_due:
  "guest_instr_count (rr_prog_point (rr_set_program_point s))
     + rr_num_instr_before_next_interrupt (rr_set_program_point s)
   = guest_instr_count (rr_prog_point s) + rr_num_instr_before_next_interrupt s
   \<and> rr_set_program_point s = s\<lparr>rr_prog_point := rr_prog_point (rr_set_program_point s),
       rr_num_instr_before_next_interrupt := rr_num_instr_before_next_interrupt (rr_set_program_point s)\<rparr>"
  using rr_set_prog_point_end [of "eip (env s)" "regs_ecx (env s)" "rr_guest_instr_count (env s)" s]
  by (simp add: rr_set_program_point_def) (simp add: rr_set_prog_point_def)

text \<open>
  Comparing the current program point with a recorded one: 0 exactly when the instruction
  counts agree and the two other fields do too (or the program has not started), the end of the
  replay with an error exactly when the current count is ahead, and -1 otherwise, which
  includes equal counts with different program counters.
\<close>

theorem prog_point_compare_spec:
  "rr_prog_point_compare c r =
     (if guest_instr_count r < guest_instr_count c then Inl Replay_abort
      else if guest_instr_count c = guest_instr_count r
        \<and> (pc c = pc r \<and> secondary c = secondary r \<or> pc c = 0 \<and> guest_instr_count c = 0)
      then Inr 0 else Inr (-1))"
  by (cases "guest_instr_count c" "guest_instr_count r" rule: linorder_cases)
    (auto simp: rr_prog_point_compare_def)

end
