(* ===== verification/RR_Record.thy ===== *)
theory RR_Record
  imports RR_State
begin

text \<open>
  Recording (\<^verbatim>\<open>qemu/rr_log.c\<close>): each \<^verbatim>\<open>rr_record_\<close> function clears the log's current
  item, fills in the kind, the call site and the program point with the value, and writes it.
  A recording appends the image of one entry to the log's file and changes nothing else but
  the log's bookkeeping.
\<close>

section \<open>The record functions\<close>

text \<open>What they have in common: \<^verbatim>\<open>memset\<close>, the header, the write.\<close>

definition record_item :: "RR_variant \<Rightarrow> RR_callsite_id \<Rightarrow> rr_state \<Rightarrow> rr_exit + rr_state" where
  "record_item v call_site s =
     (case rr_nondet_log s of
        None \<Rightarrow> Inl Null_deref
      | Some l \<Rightarrow>
          let item = \<lparr>prog_point = rr_prog_point s, callsite_loc = call_site, variant = v\<rparr> in
          bindR (rr_write_item (rr_mode s) (Some (l\<lparr>current_item := item\<rparr>))) (\<lambda>log.
          Inr (s\<lparr>rr_nondet_log := log\<rparr>)))"

definition rr_record_debug :: "RR_callsite_id \<Rightarrow> rr_state \<Rightarrow> rr_exit + rr_state" where
  "rr_record_debug call_site s = record_item Debug_entry call_site s"

definition rr_record_input_1 :: "RR_callsite_id \<Rightarrow> u8 \<Rightarrow> rr_state \<Rightarrow> rr_exit + rr_state" where
  "rr_record_input_1 call_site data s = record_item (Input_1 data) call_site s"

definition rr_record_input_2 :: "RR_callsite_id \<Rightarrow> u16 \<Rightarrow> rr_state \<Rightarrow> rr_exit + rr_state" where
  "rr_record_input_2 call_site data s = record_item (Input_2 data) call_site s"

definition rr_record_input_4 :: "RR_callsite_id \<Rightarrow> u32 \<Rightarrow> rr_state \<Rightarrow> rr_exit + rr_state" where
  "rr_record_input_4 call_site data s = record_item (Input_4 data) call_site s"

definition rr_record_input_8 :: "RR_callsite_id \<Rightarrow> u64 \<Rightarrow> rr_state \<Rightarrow> rr_exit + rr_state" where
  "rr_record_input_8 call_site data s = record_item (Input_8 data) call_site s"

text \<open>Requests are recorded when they are not zero, in a 16-bit field.\<close>

definition rr_record_interrupt_request :: "RR_callsite_id \<Rightarrow> u32 \<Rightarrow> rr_state \<Rightarrow> rr_exit + rr_state" where
  "rr_record_interrupt_request call_site interrupt_request s =
     (if interrupt_request \<noteq> 0 then
        record_item (Interrupt_request (ucast interrupt_request)) call_site s
      else Inr s)"

definition rr_record_exit_request :: "RR_callsite_id \<Rightarrow> u32 \<Rightarrow> rr_state \<Rightarrow> rr_exit + rr_state" where
  "rr_record_exit_request call_site exit_request s =
     (if exit_request \<noteq> 0 then
        record_item (Exit_request (ucast exit_request)) call_site s
      else Inr s)"

definition rr_record_cpu_mem_rw_call ::
    "RR_callsite_id \<Rightarrow> u64 \<Rightarrow> host_buf \<Rightarrow> u32 \<Rightarrow> bool \<Rightarrow> rr_state \<Rightarrow> rr_exit + rr_state" where
  "rr_record_cpu_mem_rw_call call_site addr buf len is_write s =
     record_item (Skipped_call (Call_cpu_mem_rw \<lparr>rw_addr = addr, rw_buf = buf, rw_len = len\<rparr>))
       call_site s"

definition rr_record_cpu_mem_unmap ::
    "RR_callsite_id \<Rightarrow> u64 \<Rightarrow> host_buf \<Rightarrow> u64 \<Rightarrow> bool \<Rightarrow> rr_state \<Rightarrow> rr_exit + rr_state" where
  "rr_record_cpu_mem_unmap call_site addr buf len is_write s =
     record_item (Skipped_call (Call_cpu_mem_unmap \<lparr>um_addr = addr, um_buf = buf, um_len = len\<rparr>))
       call_site s"

definition rr_record_cpu_reg_io_mem_region ::
    "RR_callsite_id \<Rightarrow> u64 \<Rightarrow> u64 \<Rightarrow> u64 \<Rightarrow> rr_state \<Rightarrow> rr_exit + rr_state" where
  "rr_record_cpu_reg_io_mem_region call_site start_addr sz phys_offset s =
     record_item (Skipped_call (Call_cpu_reg_mem_region
       \<lparr>reg_start_addr = start_addr, reg_size = sz, reg_phys_offset = phys_offset\<rparr>)) call_site s"

definition rr_record_hd_transfer ::
    "RR_callsite_id \<Rightarrow> u32 \<Rightarrow> u64 \<Rightarrow> u64 \<Rightarrow> u32 \<Rightarrow> rr_state \<Rightarrow> rr_exit + rr_state" where
  "rr_record_hd_transfer call_site transfer_type src_addr dest_addr num_bytes s =
     record_item (Skipped_call (Call_hd_transfer \<lparr>hd_type = transfer_type, hd_src_addr = src_addr,
       hd_dest_addr = dest_addr, hd_num_bytes = num_bytes\<rparr>)) call_site s"

definition rr_record_net_transfer ::
    "RR_callsite_id \<Rightarrow> u32 \<Rightarrow> u64 \<Rightarrow> u64 \<Rightarrow> u32 \<Rightarrow> rr_state \<Rightarrow> rr_exit + rr_state" where
  "rr_record_net_transfer call_site transfer_type src_addr dest_addr num_bytes s =
     record_item (Skipped_call (Call_net_transfer \<lparr>net_type = transfer_type, net_src_addr = src_addr,
       net_dest_addr = dest_addr, net_num_bytes = num_bytes\<rparr>)) call_site s"

definition rr_record_handle_packet_call ::
    "RR_callsite_id \<Rightarrow> host_buf \<Rightarrow> u32 \<Rightarrow> u8 \<Rightarrow> rr_state \<Rightarrow> rr_exit + rr_state" where
  "rr_record_handle_packet_call call_site buf sz direction s =
     record_item (Skipped_call (Call_handle_packet
       \<lparr>hp_buf = buf, hp_size = sz, hp_direction = direction\<rparr> 0)) call_site s"

definition rr_record_end_of_log :: "rr_state \<Rightarrow> rr_exit + rr_state" where
  "rr_record_end_of_log s = record_item Last_entry RR_CALLSITE_LAST s"

text \<open>The wrappers of \<^verbatim>\<open>rr_log.h\<close> that pass the current call site.\<close>

definition rr_cpu_physical_memory_unmap_record ::
    "u64 \<Rightarrow> host_buf \<Rightarrow> u64 \<Rightarrow> bool \<Rightarrow> rr_state \<Rightarrow> rr_exit + rr_state" where
  "rr_cpu_physical_memory_unmap_record addr buf len is_write s =
     rr_record_cpu_mem_unmap (rr_skipped_callsite_location s) addr buf len is_write s"

definition rr_device_mem_rw_call_record ::
    "u64 \<Rightarrow> host_buf \<Rightarrow> u32 \<Rightarrow> bool \<Rightarrow> rr_state \<Rightarrow> rr_exit + rr_state" where
  "rr_device_mem_rw_call_record addr buf len is_write s =
     rr_record_cpu_mem_rw_call (rr_skipped_callsite_location s) addr buf len is_write s"

definition rr_reg_mem_call_record :: "u64 \<Rightarrow> u64 \<Rightarrow> u64 \<Rightarrow> rr_state \<Rightarrow> rr_exit + rr_state" where
  "rr_reg_mem_call_record start_addr sz phys_offset s =
     rr_record_cpu_reg_io_mem_region (rr_skipped_callsite_location s) start_addr sz phys_offset s"

section \<open>What a recording writes\<close>

text \<open>
  The state while recording: the log's file holds \<open>bs\<close> and is positioned at its end, and the
  last program point written is \<open>pp\<close>.
\<close>

definition recording :: "rr_state \<Rightarrow> string \<Rightarrow> u8 list \<Rightarrow> RR_prog_point \<Rightarrow> bool" where
  "recording s name bs pp \<longleftrightarrow>
     rr_mode s = RR_RECORD
     \<and> (\<exists>l f. rr_nondet_log s = Some l \<and> log_type l = RECORD \<and> log_name l = name
          \<and> last_prog_point l = pp \<and> log_fp l = Some f \<and> f_bytes f = bs \<and> at_end f)"

definition same_but_log :: "rr_state \<Rightarrow> rr_state \<Rightarrow> bool" where
  "same_but_log s s' \<longleftrightarrow> s' = s\<lparr>rr_nondet_log := rr_nondet_log s'\<rparr>"

lemma record_item_recording:
  assumes "recording s name bs pp" and "writable_variant v"
  shows "\<exists>s'. record_item v cs s = Inr s' \<and> same_but_log s s'
    \<and> recording s' name
        (bs @ entry_image \<lparr>prog_point = rr_prog_point s, callsite_loc = cs, variant = v\<rparr>)
        (rr_prog_point s)"
proof -
  from assms(1) obtain l f where l: "rr_mode s = RR_RECORD" "rr_nondet_log s = Some l" "log_type l = RECORD"
      "log_name l = name" "log_fp l = Some f" "f_bytes f = bs" "at_end f"
    by (auto simp: recording_def)
  let ?e = "\<lparr>prog_point = rr_prog_point s, callsite_loc = cs, variant = v\<rparr>"
  let ?l = "l\<lparr>current_item := ?e\<rparr>"
  let ?f = "fwrite (entry_image ?e) f"
  have "rr_write_item RR_RECORD (Some ?l) =
      Inr (Some (?l\<lparr>log_fp := Some ?f, last_prog_point := rr_prog_point s, item_number := item_number l + 1\<rparr>))"
    using rr_write_item_image [of ?l f] assms(2) l at_end_imp_f_ok [of f] by simp
  moreover have "f_bytes ?f = bs @ entry_image ?e" "at_end ?f"
    using l fwrite_at_end [of f] by simp_all
  ultimately show ?thesis
    using l by (simp add: record_item_def Let_def same_but_log_def recording_def)
qed

section \<open>Properties\<close>

text \<open>
  While recording, an interrupt request of zero leaves the log untouched; any other appends one
  entry at the current program point that holds the request modulo 65536 and nothing else. So
  a request whose low half is zero is recorded as zero.
\<close>

theorem record_interrupt_request_low_bits:
  assumes "recording s name bs pp"
  shows "if v = 0 then rr_record_interrupt_request cs v s = Inr s
    else \<exists>s'. rr_record_interrupt_request cs v s = Inr s' \<and> same_but_log s s'
      \<and> recording s' name (bs @ entry_image \<lparr>prog_point = rr_prog_point s, callsite_loc = cs,
            variant = Interrupt_request (of_nat (unat v mod 65536))\<rparr>) (rr_prog_point s)"
proof -
  have "(ucast v :: u16) = of_nat (unat v mod 65536)"
    by (simp add: word_unat_eq_iff unat_of_nat unsigned_ucast_eq take_bit_eq_mod)
  then show ?thesis
    using record_item_recording [OF assms, of "Interrupt_request (ucast v)" cs]
    by (auto simp: rr_record_interrupt_request_def)
qed

definition example_recording :: rr_state where
  "example_recording = (init_rr \<lparr>eip = 0, regs_ecx = 0, rr_guest_instr_count = 0\<rparr> (\<lambda>_. None))
     \<lparr>rr_mode := RR_RECORD, rr_nondet_log := Some (example_log RECORD fopen_w)\<rparr>"

theorem record_interrupt_request_low_bits_witness:
  "\<exists>s'. rr_record_interrupt_request 19 0x10000 example_recording = Inr s'
    \<and> recording s' ''x'' (entry_image \<lparr>prog_point = zero_prog_point, callsite_loc = 19,
          variant = Interrupt_request 0\<rparr>) zero_prog_point"
proof -
  have "recording example_recording ''x'' [] zero_prog_point"
    by (simp add: recording_def example_recording_def example_log_def) (simp add: fopen_w_def)
  from record_interrupt_request_low_bits [OF this, of "0x10000" 19] show ?thesis
    by (auto simp: example_recording_def init_rr_def)
qed

end
