(* ===== verification/RR_Replay.thy ===== *)
theory RR_Replay
  imports RR_State
begin

text \<open>
  Replaying (\<^verbatim>\<open>qemu/rr_log.c\<close>): filling the queue from the log, taking the next entry, and the
  \<^verbatim>\<open>rr_replay_\<close> functions. \<open>replaying H s es\<close> says that the queue and the rest of the log
  together hold the entries \<open>es\<close>; it is kept by every function, and the functions return what
  the log holds in its order.
\<close>

section \<open>Filling the queue\<close>

text \<open>\<^verbatim>\<open>rr_read_item\<close>: allocate an entry, read it from the log (\<open>read_entry\<close>).\<close>

definition rr_read_item :: "host \<Rightarrow> rr_state \<Rightarrow> rr_exit + (nat \<times> rr_state)" where
  "rr_read_item H s =
     bindR (alloc_new_entry (rr_queue s)) (\<lambda>(p, q).
     bindR (rr_assert (rr_in_replay s) ''rr_in_replay()'') (\<lambda>_.
     bindR (the_log s) (\<lambda>l.
     bindR (read_entry H (n_alloc s) (rr_mode s) l) (\<lambda>(e, k, l).
     bindR (store_entry p e q) (\<lambda>q.
     Inr (p, s\<lparr>rr_queue := q, rr_nondet_log := Some l, n_alloc := k\<rparr>))))))"

definition RR_MAX_QUEUE_LEN :: nat where
  "RR_MAX_QUEUE_LEN = 65536"

text \<open>The entries after which the queue is not filled further.\<close>

definition is_stop :: "RR_log_entry \<Rightarrow> bool" where
  "is_stop e \<longleftrightarrow> kind e = RR_LAST
     \<or> (kind e = RR_SKIPPED_CALL \<and> callsite_loc e = RR_CALLSITE_MAIN_LOOP_WAIT)
     \<or> kind e = RR_INTERRUPT_REQUEST"

text \<open>
  The loop of \<^verbatim>\<open>rr_fill_queue\<close>, with \<^verbatim>\<open>num_entries\<close> as an argument. Both branches that end at
  a stop entry set the distance to it.
\<close>

function fill_loop :: "host \<Rightarrow> nat \<Rightarrow> rr_state \<Rightarrow> rr_exit + (nat \<times> rr_state)" where
  "fill_loop H num_entries s =
     bindR (the_log s) (\<lambda>l.
     if rr_log_is_empty l then Inr (num_entries, s)
     else
       bindR (rr_read_item H s) (\<lambda>(p, s).
       bindR (queue_append p (rr_queue s)) (\<lambda>q.
       bindR (read_entry_at p q) (\<lambda>log_entry.
       let s = s\<lparr>rr_queue := q\<rparr>;
           num_entries = num_entries + 1
       in if is_stop log_entry then
            Inr (num_entries, s\<lparr>rr_num_instr_before_next_interrupt :=
              guest_instr_count (prog_point log_entry) - guest_instr_count (rr_prog_point s)\<rparr>)
          else if num_entries > RR_MAX_QUEUE_LEN then
            Inr (num_entries, s\<lparr>rr_num_instr_before_next_interrupt := -1\<rparr>)
          else fill_loop H num_entries s))))"
  by pat_completeness auto
termination
  by (relation "measure (\<lambda>(H, n, s). RR_MAX_QUEUE_LEN + 1 - n)") auto

declare fill_loop.simps [simp del]

definition rr_fill_queue :: "host \<Rightarrow> rr_state \<Rightarrow> rr_exit + rr_state" where
  "rr_fill_queue H s =
     bindR (rr_assert (rr_queue_head (rr_queue s) = None \<and> rr_queue_tail (rr_queue s) = None)
       ''rr_queue_head == NULL && rr_queue_tail == NULL'') (\<lambda>_.
     bindR (fill_loop H 0 s) (\<lambda>(num_entries, s).
     Inr (if num_entries > rr_max_num_queue_entries s
          then s\<lparr>rr_max_num_queue_entries := num_entries\<rparr> else s)))"

section \<open>Taking the next entry\<close>

text \<open>
  The loop that drops \<^verbatim>\<open>RR_DEBUG\<close> entries. Every turn unlinks one entry; the bound is the
  number of entries ever allocated.
\<close>

fun skip_debug :: "nat \<Rightarrow> rr_store \<Rightarrow> rr_exit + rr_store" where
  "skip_debug n q =
     (if rr_queue_head q = None then Inr q
      else
        bindR (queue_head_entry q) (\<lambda>e.
        if kind e = RR_DEBUG then
          (case n of
             0 \<Rightarrow> Inl Endless_loop
           | Suc n \<Rightarrow> bindR (queue_pop q) (\<lambda>(_, q). skip_debug n q))
        else Inr q))"

declare skip_debug.simps [simp del]

definition get_next_entry ::
    "host \<Rightarrow> RR_log_entry_kind \<Rightarrow> RR_callsite_id \<Rightarrow> bool \<Rightarrow> rr_state \<Rightarrow> rr_exit + (nat option \<times> rr_state)" where
  "get_next_entry H kd call_site check_callsite s =
     bindR (if rr_queue_head (rr_queue s) = None then rr_fill_queue H s else Inr s) (\<lambda>s.
     if rr_queue_head (rr_queue s) = None then Inr (None, s)
     else
       bindR (if kd \<noteq> RR_INTERRUPT_REQUEST \<and> kd \<noteq> RR_SKIPPED_CALL
              then skip_debug (q_fresh (rr_queue s)) (rr_queue s) else Inr (rr_queue s)) (\<lambda>q.
       let s = s\<lparr>rr_queue := q\<rparr> in
       bindR (queue_head_entry q) (\<lambda>e.
       if kind e \<noteq> kd then Inr (None, s)
       else if check_callsite \<and> callsite_loc e \<noteq> call_site then Inr (None, s)
       else
         bindR (if prog_point e = zero_prog_point then Inr 0
                else rr_prog_point_compare (rr_prog_point s) (prog_point e)) (\<lambda>c.
         if c \<noteq> 0 then Inr (None, s)
         else bindR (queue_pop q) (\<lambda>(p, q). Inr (Some p, s\<lparr>rr_queue := q\<rparr>))))))"

section \<open>The replay functions\<close>

text \<open>Recycling an entry the caller has used.\<close>

definition recycle :: "nat \<Rightarrow> rr_state \<Rightarrow> rr_exit + rr_state" where
  "recycle p s = bindR (add_to_recycle_list p (rr_queue s)) (\<lambda>q. Inr (s\<lparr>rr_queue := q\<rparr>))"

definition rr_replay_debug :: "RR_callsite_id \<Rightarrow> rr_state \<Rightarrow> rr_exit + rr_state" where
  "rr_replay_debug call_site s =
     (if rr_queue_head (rr_queue s) = None then Inr s
      else
        bindR (queue_head_entry (rr_queue s)) (\<lambda>e.
        if kind e \<noteq> RR_DEBUG then Inr s
        else
          let log_point = prog_point e; now = rr_prog_point s in
          if guest_instr_count log_point > guest_instr_count now then Inr s
          else
            let s = (if guest_instr_count log_point = guest_instr_count now
                        \<and> (secondary log_point \<noteq> secondary now \<or> pc log_point \<noteq> pc now)
                     then emit [Signal_disagreement now log_point] s else s)
            in bindR (queue_pop (rr_queue s)) (\<lambda>(p, q). recycle p (s\<lparr>rr_queue := q\<rparr>))))"

text \<open>
  The four input functions: the entry must be there, and from this call site. The kind of
  the entry is the one asked for, so the member of the union that is read is the one written.
\<close>

definition replay_input :: "host \<Rightarrow> RR_log_entry_kind \<Rightarrow> RR_callsite_id \<Rightarrow> rr_state
    \<Rightarrow> rr_exit + (RR_variant \<times> rr_state)" where
  "replay_input H kd call_site s =
     bindR (get_next_entry H kd call_site False s) (\<lambda>(p, s).
     case p of
       None \<Rightarrow> Inl (Assert_fail ''0'')
     | Some p \<Rightarrow>
         bindR (read_entry_at p (rr_queue s)) (\<lambda>current_item.
         bindR (rr_assert (callsite_loc current_item = call_site)
           ''current_item->header.callsite_loc == call_site'') (\<lambda>_.
         bindR (recycle p s) (\<lambda>s. Inr (variant current_item, s)))))"

fun input_1 :: "RR_variant \<Rightarrow> u8" where
  "input_1 (Input_1 d) = d" | "input_1 _ = 0"

fun input_2 :: "RR_variant \<Rightarrow> u16" where
  "input_2 (Input_2 d) = d" | "input_2 _ = 0"

fun input_4 :: "RR_variant \<Rightarrow> u32" where
  "input_4 (Input_4 d) = d" | "input_4 _ = 0"

fun input_8 :: "RR_variant \<Rightarrow> u64" where
  "input_8 (Input_8 d) = d" | "input_8 _ = 0"

fun interrupt_request :: "RR_variant \<Rightarrow> u16" where
  "interrupt_request (Interrupt_request d) = d" | "interrupt_request _ = 0"

fun exit_request :: "RR_variant \<Rightarrow> u16" where
  "exit_request (Exit_request d) = d" | "exit_request _ = 0"

definition rr_replay_input_1 :: "host \<Rightarrow> RR_callsite_id \<Rightarrow> rr_state \<Rightarrow> rr_exit + (u8 \<times> rr_state)" where
  "rr_replay_input_1 H call_site s =
     bindR (replay_input H RR_INPUT_1 call_site s) (\<lambda>(v, s). Inr (input_1 v, s))"

definition rr_replay_input_2 :: "host \<Rightarrow> RR_callsite_id \<Rightarrow> rr_state \<Rightarrow> rr_exit + (u16 \<times> rr_state)" where
  "rr_replay_input_2 H call_site s =
     bindR (replay_input H RR_INPUT_2 call_site s) (\<lambda>(v, s). Inr (input_2 v, s))"

definition rr_replay_input_4 :: "host \<Rightarrow> RR_callsite_id \<Rightarrow> rr_state \<Rightarrow> rr_exit + (u32 \<times> rr_state)" where
  "rr_replay_input_4 H call_site s =
     bindR (replay_input H RR_INPUT_4 call_site s) (\<lambda>(v, s). Inr (input_4 v, s))"

definition rr_replay_input_8 :: "host \<Rightarrow> RR_callsite_id \<Rightarrow> rr_state \<Rightarrow> rr_exit + (u64 \<times> rr_state)" where
  "rr_replay_input_8 H call_site s =
     bindR (replay_input H RR_INPUT_8 call_site s) (\<lambda>(v, s). Inr (input_8 v, s))"

definition rr_replay_interrupt_request :: "host \<Rightarrow> RR_callsite_id \<Rightarrow> rr_state \<Rightarrow> rr_exit + (u32 \<times> rr_state)" where
  "rr_replay_interrupt_request H call_site s =
     bindR (get_next_entry H RR_INTERRUPT_REQUEST call_site True s) (\<lambda>(p, s).
     case p of
       None \<Rightarrow> Inr (0, s)
     | Some p \<Rightarrow>
         bindR (read_entry_at p (rr_queue s)) (\<lambda>current_item.
         bindR (recycle p s) (\<lambda>s.
         bindR (rr_fill_queue H s) (\<lambda>s.
         Inr (ucast (interrupt_request (variant current_item)), s)))))"

definition rr_replay_exit_request :: "host \<Rightarrow> RR_callsite_id \<Rightarrow> rr_state \<Rightarrow> rr_exit + (u32 \<times> rr_state)" where
  "rr_replay_exit_request H call_site s =
     bindR (get_next_entry H RR_EXIT_REQUEST call_site False s) (\<lambda>(p, s).
     case p of
       None \<Rightarrow> Inr (0, s)
     | Some p \<Rightarrow>
         bindR (read_entry_at p (rr_queue s)) (\<lambda>current_item.
         bindR (rr_assert (callsite_loc current_item = call_site)
           ''current_item->header.callsite_loc == call_site'') (\<lambda>_.
         bindR (recycle p s) (\<lambda>s.
         Inr (ucast (exit_request (variant current_item)), s)))))"

text \<open>
  One skipped call. Memory is mapped by the emulator; a mapping that fails or is shorter than
  the recorded buffer makes the \<^verbatim>\<open>memcpy\<close> write outside it.
\<close>

fun replay_skipped_call :: "machine \<Rightarrow> RR_skipped_call_args \<Rightarrow> rr_state \<Rightarrow> rr_exit + rr_state" where
  "replay_skipped_call M (Call_cpu_mem_rw a) s =
     Inr (emit [Cpu_physical_memory_rw (rw_addr a) (rw_len a) (host_bytes (rw_buf a))] s)"
| "replay_skipped_call M (Call_cpu_reg_mem_region a) s =
     Inr (emit [Cpu_register_physical_memory (reg_start_addr a) (reg_size a) (reg_phys_offset a)] s)"
| "replay_skipped_call M (Call_cpu_mem_unmap a) s =
     (let (p, plen) = phys_map M (effects s) (um_addr a) (um_len a);
          s = emit [Cpu_physical_memory_map (um_addr a) (um_len a)] s
      in case p of
           None \<Rightarrow> Inl Null_deref
         | Some h \<Rightarrow>
             if plen < um_len a then Inl Out_of_bounds
             else
               bindR (host_read (unat (um_len a)) (um_buf a)) (\<lambda>bs.
               Inr (emit [Cpu_physical_memory_unmap h plen bs] s)))"
| "replay_skipped_call M (Call_hd_transfer a) s =
     bindR (run_callbacks PANDA_CB_REPLAY_HD_TRANSFER (cbs s)) (\<lambda>cs.
     Inr (emit (map (\<lambda>c. Replay_hd_transfer c a) cs) s))"
| "replay_skipped_call M (Call_handle_packet a old_buf_addr) s =
     bindR (run_callbacks PANDA_CB_REPLAY_HANDLE_PACKET (cbs s)) (\<lambda>cs.
     Inr (emit (map (\<lambda>c. Replay_handle_packet c (host_bytes (hp_buf a)) (hp_size a) (hp_direction a)
       old_buf_addr) cs) s))"
| "replay_skipped_call M (Call_net_transfer a) s =
     bindR (run_callbacks PANDA_CB_REPLAY_NET_TRANSFER (cbs s)) (\<lambda>cs.
     Inr (emit (map (\<lambda>c. Replay_net_transfer c a) cs) s))"
| "replay_skipped_call M Call_other s = Inl (Assert_fail ''0'')"

fun call_args :: "RR_variant \<Rightarrow> RR_skipped_call_args" where
  "call_args (Skipped_call c) = c" | "call_args _ = Call_other"

text \<open>
  The loop of \<^verbatim>\<open>rr_replay_skipped_calls_internal\<close>. Every turn but the last uses up an entry of the
  queue or, after a refill, of the log, so the bound below is never reached on a well-formed
  queue (theory \<open>RR_Loops\<close>).
\<close>

fun skipped_loop :: "host \<Rightarrow> machine \<Rightarrow> nat \<Rightarrow> RR_callsite_id \<Rightarrow> rr_state \<Rightarrow> rr_exit + rr_state" where
  "skipped_loop H M 0 call_site s = Inl Endless_loop"
| "skipped_loop H M (Suc n) call_site s =
     bindR (get_next_entry H RR_SKIPPED_CALL call_site False s) (\<lambda>(p, s).
     case p of
       None \<Rightarrow> Inr s
     | Some p \<Rightarrow>
         bindR (read_entry_at p (rr_queue s)) (\<lambda>current_item.
         bindR (replay_skipped_call M (call_args (variant current_item)) s) (\<lambda>s.
         bindR (recycle p s) (\<lambda>s.
         bindR (if call_site = RR_CALLSITE_MAIN_LOOP_WAIT \<and> rr_queue_head (rr_queue s) = None
                then rr_fill_queue H s else Inr s) (\<lambda>s.
         skipped_loop H M n call_site s)))))"

definition entries_left :: "rr_state \<Rightarrow> nat" where
  "entries_left s = length (q_entries (rr_queue s))
     + (case rr_nondet_log s of None \<Rightarrow> 0 | Some l \<Rightarrow> length (log_rest l))"

definition rr_replay_skipped_calls_internal ::
    "host \<Rightarrow> machine \<Rightarrow> RR_callsite_id \<Rightarrow> rr_state \<Rightarrow> rr_exit + rr_state" where
  "rr_replay_skipped_calls_internal H M call_site s =
     skipped_loop H M (Suc (entries_left s)) call_site s"

definition rr_replay_skipped_calls :: "host \<Rightarrow> machine \<Rightarrow> rr_state \<Rightarrow> rr_exit + rr_state" where
  "rr_replay_skipped_calls H M s =
     rr_replay_skipped_calls_internal H M (rr_skipped_callsite_location s) s"

section \<open>The queue against an arbitrary log\<close>

lemma replayed_entry_simps [simp]:
  "prog_point (replayed_entry H k e) = prog_point e"
  "callsite_loc (replayed_entry H k e) = callsite_loc e"
  "variant (replayed_entry H k e) = replayed_variant H k (variant e)"
  by (simp_all add: replayed_entry_def)

lemma call_kind_replayed [simp]: "call_kind (replayed_call H k c) = call_kind c"
  by (cases c) simp_all

lemma variant_kind_replayed [simp]: "variant_kind (replayed_variant H k v) = variant_kind v"
  by (cases v) simp_all

lemma is_stop_replayed [simp]: "is_stop (replayed_entry H k e) = is_stop e"
  by (simp add: is_stop_def)

lemma rr_read_item_Inl:
  assumes "q_inv (rr_queue s)" and "rr_mode s = RR_REPLAY" and "rr_nondet_log s = Some l"
    and "read_entry H (n_alloc s) RR_REPLAY l = Inl x"
  shows "rr_read_item H s = Inl x"
proof -
  from assms(1) obtain ps rs fs where "q_shape (rr_queue s) ps rs fs" by (auto simp: q_inv_def)
  from alloc_new_entry_shape [OF this] obtain p q1 where "alloc_new_entry (rr_queue s) = Inr (p, q1)" .
  with assms show ?thesis by (simp add: rr_read_item_def rr_in_replay_def the_log_def)
qed

lemma rr_read_item_Inr:
  assumes "q_inv (rr_queue s)" and "rr_mode s = RR_REPLAY" and "rr_nondet_log s = Some l"
    and "read_entry H (n_alloc s) RR_REPLAY l = Inr (e, k', l')"
  obtains p q1 q2 where
    "rr_read_item H s = Inr (p, s\<lparr>rr_queue := q1, rr_nondet_log := Some l', n_alloc := k'\<rparr>)"
    and "queue_append p q1 = Inr q2" and "read_entry_at p q2 = Inr e"
    and "q_inv q2" and "q_entries q2 = q_entries (rr_queue s) @ [e]"
proof -
  from assms(1) obtain ps rs fs where "q_shape (rr_queue s) ps rs fs" by (auto simp: q_inv_def)
  from alloc_new_entry_shape [OF this] obtain p q0 where
    0: "alloc_new_entry (rr_queue s) = Inr (p, q0)" "q_shape q0 ps (tl rs) (p # fs)"
       "q_entries q0 = q_entries (rr_queue s)" .
  from store_entry_shape [OF 0(2)] obtain q1 where
    1: "store_entry p e q0 = Inr q1" "q_shape q1 ps (tl rs) (p # fs)" "q_entries q1 = q_entries q0"
       "q_heap q1 p = Some (e, None)" .
  from queue_append_shape [OF 1(2,4)] obtain q2 where
    2: "queue_append p q1 = Inr q2" "q_shape q2 (ps @ [p]) (tl rs) fs" "q_entries q2 = q_entries q1 @ [e]" .
  have "lseg (q_heap q2) (rr_queue_head q2) (ps @ [p])" using 2(2) by (simp add: q_shape_def)
  then obtain c where c: "q_heap q2 p = Some c" using lseg_dom [of _ _ _ p] by fastforce
  have "last (q_entries q2) = fst c"
    using c by (simp add: q_entries_shape [OF 2(2)])
  then have "read_entry_at p q2 = Inr e"
    using c 2(3) by (cases c) (simp add: read_entry_at_def)
  moreover have "rr_read_item H s = Inr (p, s\<lparr>rr_queue := q1, rr_nondet_log := Some l', n_alloc := k'\<rparr>)"
    using assms 0 1 by (simp add: rr_read_item_def rr_in_replay_def the_log_def)
  moreover have "q_inv q2" using 2(2) by (auto simp: q_inv_def)
  moreover have "q_entries q2 = q_entries (rr_queue s) @ [e]" using 0 1 2 by simp
  ultimately show ?thesis using 2(1) by (intro that)
qed

text \<open>What filling the queue may change.\<close>

definition fills :: "rr_state \<Rightarrow> rr_state \<Rightarrow> bool" where
  "fills s s' \<longleftrightarrow> rr_mode s' = rr_mode s \<and> rr_prog_point s' = rr_prog_point s
     \<and> rr_record_in_progress s' = rr_record_in_progress s
     \<and> rr_skipped_callsite_location s' = rr_skipped_callsite_location s
     \<and> rr_please_flush_tb s' = rr_please_flush_tb s \<and> rr_replay_requested s' = rr_replay_requested s
     \<and> rr_record_requested s' = rr_record_requested s
     \<and> rr_end_record_requested s' = rr_end_record_requested s
     \<and> rr_end_replay_requested s' = rr_end_replay_requested s
     \<and> rr_requested_name s' = rr_requested_name s \<and> rr_snapshot_name s' = rr_snapshot_name s
     \<and> env s' = env s \<and> cpu_single_env_set s' = cpu_single_env_set s \<and> cbs s' = cbs s
     \<and> disk s' = disk s \<and> effects s' = effects s"

lemma fills_refl [simp]: "fills s s"
  by (simp add: fills_def)

lemma fills_trans: "fills s s' \<Longrightarrow> fills s' s'' \<Longrightarrow> fills s s''"
  by (simp add: fills_def)

lemma fills_updates [simp]:
  "fills s (s'\<lparr>rr_queue := q\<rparr>) = fills s s'"
  "fills s (s'\<lparr>rr_nondet_log := l\<rparr>) = fills s s'"
  "fills s (s'\<lparr>n_alloc := k\<rparr>) = fills s s'"
  "fills s (s'\<lparr>rr_num_instr_before_next_interrupt := d\<rparr>) = fills s s'"
  "fills s (s'\<lparr>rr_max_num_queue_entries := m\<rparr>) = fills s s'"
  "fills (s\<lparr>rr_queue := q\<rparr>) s' = fills s s'"
  by (simp_all add: fills_def)

section \<open>The queue against a log of recorded entries\<close>

definition log_holds :: "RR_log \<Rightarrow> RR_log_entry list \<Rightarrow> bool" where
  "log_holds l es \<longleftrightarrow> log_type l = REPLAY \<and> log_fp l \<noteq> None
     \<and> log_rest l = concat (map entry_image es)
     \<and> log_size l - bytes_read l = of_nat (length (concat (map entry_image es)))
     \<and> length (concat (map entry_image es)) < 2 ^ 64
     \<and> (\<forall>e \<in> set es. replayable e)"

fun replayed_list :: "host \<Rightarrow> nat \<Rightarrow> RR_log_entry list \<Rightarrow> RR_log_entry list" where
  "replayed_list H k [] = []"
| "replayed_list H k (e # es) =
     replayed_entry H k e # replayed_list H (k + variant_allocs (variant e)) es"

text \<open>The entries one filling of the queue reads: up to the first stop entry, at most \<open>n\<close>.\<close>

fun batch :: "nat \<Rightarrow> RR_log_entry list \<Rightarrow> RR_log_entry list" where
  "batch 0 es = []"
| "batch (Suc n) [] = []"
| "batch (Suc n) (e # es) = e # (if is_stop e then [] else batch n es)"

lemma batch_prefix: "batch n es @ drop (length (batch n es)) es = es"
  by (induction n es rule: batch.induct) simp_all

lemma length_batch: "length (batch n es) \<le> n"
  by (induction n es rule: batch.induct) simp_all

lemma batch_stop: "e \<in> set (butlast (batch n es)) \<Longrightarrow> \<not> is_stop e"
  by (induction n es rule: batch.induct) (auto split: if_splits)

lemma batch_Nil_iff: "batch n es = [] \<longleftrightarrow> n = 0 \<or> es = []"
  by (cases n; cases es) simp_all

lemma replayed_list_Nil_iff [simp]: "replayed_list H k es = [] \<longleftrightarrow> es = []"
  by (cases es) simp_all

lemma entry_image_length: "26 \<le> length (entry_image e)"
  by (simp add: entry_image_def)

lemma u64_of_nat_0_iff: "n < 2 ^ 64 \<Longrightarrow> (of_nat n :: u64) = 0 \<longleftrightarrow> n = 0"
  by (auto simp: word_of_nat_eq_0_iff dest: nat_dvd_not_less)

lemma log_holds_empty_iff:
  assumes "log_holds l es"
  shows "rr_log_is_empty l \<longleftrightarrow> es = []"
proof -
  let ?n = "length (concat (map entry_image es))"
  have "rr_log_is_empty l \<longleftrightarrow> (of_nat ?n :: u64) = 0"
    using assms by (simp add: log_holds_def rr_log_is_empty_def)
  also have "\<dots> \<longleftrightarrow> ?n = 0"
    using assms by (intro u64_of_nat_0_iff) (simp add: log_holds_def)
  also have "\<dots> \<longleftrightarrow> es = []"
  proof (cases es)
    case (Cons e es')
    then show ?thesis using entry_image_length [of e] by auto
  qed simp
  finally show ?thesis .
qed

lemma log_holds_read:
  assumes "log_holds l (e # es)"
  obtains l' where "read_entry H k RR_REPLAY l =
      Inr (replayed_entry H k e, k + variant_allocs (variant e), l')" and "log_holds l' es"
proof -
  let ?n = "length (entry_image e)"
  let ?l = "(consume ?n l)\<lparr>item_number := item_number l + 1\<rparr>"
  have "\<not> rr_log_is_empty l" using log_holds_empty_iff [OF assms] by simp
  then have "read_entry H k RR_REPLAY l =
      Inr (replayed_entry H k e, k + variant_allocs (variant e), ?l)"
    using assms by (intro read_entry_image [where cs = "concat (map entry_image es)"])
      (simp_all add: log_holds_def)
  moreover have "log_holds ?l es"
  proof -
    have "log_rest ?l = drop ?n (log_rest l)" by (simp add: log_rest_def consume_def)
      (simp add: log_rest_def [symmetric])
    moreover have "log_size ?l - bytes_read ?l = (log_size l - bytes_read l) - of_nat ?n"
      by (simp add: consume_def)
    then have "log_size ?l - bytes_read ?l = of_nat (length (concat (map entry_image es)))"
      using assms by (simp add: log_holds_def)
    moreover have "log_fp ?l \<noteq> None" using assms by (simp add: consume_def log_holds_def)
    ultimately show ?thesis using assms by (simp add: log_holds_def) (simp add: consume_def)
  qed
  ultimately show ?thesis by (rule that)
qed

text \<open>The distance to the next stop after a filling with \<open>bs\<close>.\<close>

definition fill_distance :: "RR_log_entry list \<Rightarrow> rr_state \<Rightarrow> u64" where
  "fill_distance bs s =
     (if bs \<noteq> [] \<and> is_stop (last bs)
      then guest_instr_count (prog_point (last bs)) - guest_instr_count (rr_prog_point s)
      else if length bs > RR_MAX_QUEUE_LEN then -1
      else rr_num_instr_before_next_interrupt s)"

text \<open>After the loop, with room for \<open>m\<close> entries: the queue has the batch, the log the rest.\<close>

definition filled :: "host \<Rightarrow> nat \<Rightarrow> RR_log_entry list \<Rightarrow> rr_state \<Rightarrow> rr_state \<Rightarrow> bool" where
  "filled H m ls s s' \<longleftrightarrow> fills s s' \<and> q_inv (rr_queue s')
     \<and> rr_max_num_queue_entries s' = rr_max_num_queue_entries s
     \<and> q_entries (rr_queue s') = q_entries (rr_queue s) @ replayed_list H (n_alloc s) (batch m ls)
     \<and> (\<exists>l'. rr_nondet_log s' = Some l' \<and> log_holds l' (drop (length (batch m ls)) ls))
     \<and> rr_num_instr_before_next_interrupt s' =
        (if batch m ls \<noteq> [] \<and> is_stop (last (batch m ls))
         then guest_instr_count (prog_point (last (batch m ls))) - guest_instr_count (rr_prog_point s)
         else if length (batch m ls) = m then -1 else rr_num_instr_before_next_interrupt s)"

lemma filled_Cons:
  assumes "filled H m es (s\<lparr>rr_nondet_log := Some l, n_alloc := n_alloc s + variant_allocs (variant e), rr_queue := q\<rparr>) s'"
    and "q_entries q = q_entries (rr_queue s) @ [replayed_entry H (n_alloc s) e]"
    and "\<not> is_stop e" and "m \<noteq> 0"
  shows "filled H (Suc m) (e # es) s s'"
  using assms(1)[unfolded filled_def] assms(2-4)
  by (simp add: filled_def fills_def batch_Nil_iff)

lemma fill_loop_holds:
  assumes "q_inv (rr_queue s)" and "rr_mode s = RR_REPLAY" and "rr_nondet_log s = Some l"
    and "log_holds l ls" and "n + m = Suc RR_MAX_QUEUE_LEN" and "m \<noteq> 0"
  shows "\<exists>s'. fill_loop H n s = Inr (n + length (batch m ls), s') \<and> filled H m ls s s'"
  using assms
proof (induction ls arbitrary: n m s l)
  case Nil
  then have "fill_loop H n s = Inr (n, s)"
    using log_holds_empty_iff [of l "[]"] by (subst fill_loop.simps) (simp add: the_log_def)
  with Nil.prems show ?case by (cases m) (simp_all add: filled_def)
next
  case (Cons e es)
  obtain m' where m: "m = Suc m'" using Cons.prems(6) by (cases m) auto
  from log_holds_read [OF Cons.prems(4), of H "n_alloc s"] obtain l1 where
    rd: "read_entry H (n_alloc s) RR_REPLAY l =
      Inr (replayed_entry H (n_alloc s) e, n_alloc s + variant_allocs (variant e), l1)"
    and l1: "log_holds l1 es" .
  from rr_read_item_Inr [OF Cons.prems(1-3) rd] obtain p q1 q2 where
    it: "rr_read_item H s = Inr (p, s\<lparr>rr_queue := q1, rr_nondet_log := Some l1,
          n_alloc := n_alloc s + variant_allocs (variant e)\<rparr>)"
    and q2: "queue_append p q1 = Inr q2" "read_entry_at p q2 = Inr (replayed_entry H (n_alloc s) e)"
      "q_inv q2" "q_entries q2 = q_entries (rr_queue s) @ [replayed_entry H (n_alloc s) e]" .
  let ?s = "s\<lparr>rr_nondet_log := Some l1, n_alloc := n_alloc s + variant_allocs (variant e), rr_queue := q2\<rparr>"
  have ne: "\<not> rr_log_is_empty l" using log_holds_empty_iff [OF Cons.prems(4)] by simp
  have step: "fill_loop H n s =
      (if is_stop e then Inr (Suc n, ?s\<lparr>rr_num_instr_before_next_interrupt :=
           guest_instr_count (prog_point e) - guest_instr_count (rr_prog_point s)\<rparr>)
       else if Suc n > RR_MAX_QUEUE_LEN then Inr (Suc n, ?s\<lparr>rr_num_instr_before_next_interrupt := -1\<rparr>)
       else fill_loop H (Suc n) ?s)"
    using ne it q2(1,2) Cons.prems(3) by (subst fill_loop.simps) (simp add: the_log_def Let_def)
  consider (stop) "is_stop e" | (full) "\<not> is_stop e" "m' = 0" | (more) "\<not> is_stop e" "m' \<noteq> 0" by blast
  then show ?case
  proof cases
    case stop
    with step m q2(3,4) l1 show ?thesis by (simp add: filled_def)
  next
    case full
    with Cons.prems(5) m have "Suc n > RR_MAX_QUEUE_LEN" by simp
    with full step m q2(3,4) l1 show ?thesis by (simp add: filled_def)
  next
    case more
    with Cons.prems(5) m have n: "\<not> Suc n > RR_MAX_QUEUE_LEN" by simp
    have "\<exists>s'. fill_loop H (Suc n) ?s = Inr (Suc n + length (batch m' es), s') \<and> filled H m' es ?s s'"
      by (rule Cons.IH [where l = l1]) (use Cons.prems(2,5) more m q2(3) l1 in simp_all)
    then obtain s' where s': "fill_loop H (Suc n) ?s = Inr (Suc n + length (batch m' es), s')"
      "filled H m' es ?s s'" by blast
    from filled_Cons [OF s'(2) q2(4) more] show ?thesis
      using s'(1) step more n m by simp
  qed
qed

lemma rr_fill_queue_holds:
  assumes "q_inv (rr_queue s)" and "q_entries (rr_queue s) = []" and "rr_mode s = RR_REPLAY"
    and "rr_nondet_log s = Some l" and "log_holds l ls" and "bs = batch (Suc RR_MAX_QUEUE_LEN) ls"
  obtains s' l' where "rr_fill_queue H s = Inr s'" and "fills s s'" and "q_inv (rr_queue s')"
    and "q_entries (rr_queue s') = replayed_list H (n_alloc s) bs"
    and "rr_nondet_log s' = Some l'" and "log_holds l' (drop (length bs) ls)"
    and "rr_num_instr_before_next_interrupt s' = fill_distance bs s"
    and "rr_max_num_queue_entries s' = max (rr_max_num_queue_entries s) (length bs)"
proof -
  from fill_loop_holds [OF assms(1,3,4,5), of 0 "Suc RR_MAX_QUEUE_LEN" H] obtain s1 where
    run: "fill_loop H 0 s = Inr (length bs, s1)" and fd: "filled H (Suc RR_MAX_QUEUE_LEN) ls s s1"
    by (auto simp: assms(6))
  from fd obtain l1 where
    s1: "fills s s1" "q_inv (rr_queue s1)"
      "rr_max_num_queue_entries s1 = rr_max_num_queue_entries s"
      "q_entries (rr_queue s1) = replayed_list H (n_alloc s) bs"
      "rr_nondet_log s1 = Some l1" "log_holds l1 (drop (length bs) ls)"
    and d: "rr_num_instr_before_next_interrupt s1 =
        (if bs \<noteq> [] \<and> is_stop (last bs)
         then guest_instr_count (prog_point (last bs)) - guest_instr_count (rr_prog_point s)
         else if length bs = Suc RR_MAX_QUEUE_LEN then -1 else rr_num_instr_before_next_interrupt s)"
    unfolding filled_def assms(2) assms(6) [symmetric] append_Nil by blast
  have "length bs \<le> Suc RR_MAX_QUEUE_LEN" using assms(6) length_batch by simp
  then have "length bs = Suc RR_MAX_QUEUE_LEN \<longleftrightarrow> length bs > RR_MAX_QUEUE_LEN" by auto
  then have dist: "rr_num_instr_before_next_interrupt s1 = fill_distance bs s"
    using d by (simp add: fill_distance_def)
  have none: "rr_queue_head (rr_queue s) = None" "rr_queue_tail (rr_queue s) = None"
    using q_inv_head [OF assms(1)] q_inv_tail [OF assms(1)] assms(2) by simp_all
  let ?s = "if length bs > rr_max_num_queue_entries s1
    then s1\<lparr>rr_max_num_queue_entries := length bs\<rparr> else s1"
  show ?thesis
  proof (rule that)
    show "rr_fill_queue H s = Inr ?s" using run none by (simp add: rr_fill_queue_def)
  qed (use s1 dist in \<open>auto simp: max_def\<close>)
qed

section \<open>The entries still to be replayed\<close>

definition stop_last :: "RR_log_entry list \<Rightarrow> bool" where
  "stop_last es \<longleftrightarrow> (\<forall>e \<in> set (butlast es). \<not> is_stop e)"

text \<open>
  \<open>qs\<close> is in the queue, \<open>ls\<close> in the log; a stop entry can only be the last one of the queue.
\<close>

definition replaying :: "host \<Rightarrow> rr_state \<Rightarrow> RR_log_entry list \<Rightarrow> RR_log_entry list \<Rightarrow> bool" where
  "replaying H s qs ls \<longleftrightarrow> rr_mode s = RR_REPLAY \<and> q_inv (rr_queue s)
     \<and> (\<exists>k. q_entries (rr_queue s) = replayed_list H k qs) \<and> stop_last qs
     \<and> (\<exists>l. rr_nondet_log s = Some l \<and> log_holds l ls)"

text \<open>A caller holds the entry \<open>e\<close> at \<open>p\<close>; the queue has \<open>qs\<close> left.\<close>

definition holding :: "host \<Rightarrow> rr_state \<Rightarrow> nat \<Rightarrow> RR_log_entry \<Rightarrow> RR_log_entry list \<Rightarrow> RR_log_entry list \<Rightarrow> bool" where
  "holding H s p e qs ls \<longleftrightarrow> rr_mode s = RR_REPLAY
     \<and> (\<exists>ps rs fs k. q_shape (rr_queue s) ps rs (p # fs) \<and> q_entries (rr_queue s) = replayed_list H k qs
          \<and> (\<exists>k'. q_heap (rr_queue s) p = Some (replayed_entry H k' e, None)))
     \<and> stop_last (e # qs) \<and> (\<exists>l. rr_nondet_log s = Some l \<and> log_holds l ls)"

lemma stop_last_ConsD: "stop_last (e # es) \<Longrightarrow> stop_last es \<and> (is_stop e \<longrightarrow> es = [])"
  by (cases es) (auto simp: stop_last_def)

lemma stop_last_Nil [simp]: "stop_last []"
  by (simp add: stop_last_def)

lemma stop_last_batch [simp]: "stop_last (batch n es)"
  using batch_stop by (auto simp: stop_last_def)

lemma replaying_head:
  "replaying H s qs ls \<Longrightarrow> rr_queue_head (rr_queue s) = None \<longleftrightarrow> qs = []"
  using q_inv_head [of "rr_queue s"] by (auto simp: replaying_def) (metis replayed_list_Nil_iff)

lemma replaying_update [simp]:
  "replaying H (s\<lparr>rr_prog_point := pp\<rparr>) qs ls = replaying H s qs ls"
  "replaying H (s\<lparr>rr_num_instr_before_next_interrupt := d\<rparr>) qs ls = replaying H s qs ls"
  "replaying H (s\<lparr>rr_skipped_callsite_location := c\<rparr>) qs ls = replaying H s qs ls"
  "replaying H (emit es s) qs ls = replaying H s qs ls"
  by (simp_all add: replaying_def)

lemma rr_fill_queue_replaying:
  assumes "replaying H s [] ls"
  obtains s' where "rr_fill_queue H s = Inr s'" and "fills s s'"
    and "replaying H s' (batch (Suc RR_MAX_QUEUE_LEN) ls) (drop (length (batch (Suc RR_MAX_QUEUE_LEN) ls)) ls)"
    and "rr_num_instr_before_next_interrupt s' = fill_distance (batch (Suc RR_MAX_QUEUE_LEN) ls) s"
proof -
  from assms obtain l where "q_inv (rr_queue s)" "q_entries (rr_queue s) = []" "rr_mode s = RR_REPLAY"
    "rr_nondet_log s = Some l" "log_holds l ls" by (auto simp: replaying_def)
  from rr_fill_queue_holds [OF this refl] obtain s' l' where
    "rr_fill_queue H s = Inr s'" "fills s s'" "q_inv (rr_queue s')"
    "q_entries (rr_queue s') = replayed_list H (n_alloc s) (batch (Suc RR_MAX_QUEUE_LEN) ls)"
    "rr_nondet_log s' = Some l'" "log_holds l' (drop (length (batch (Suc RR_MAX_QUEUE_LEN) ls)) ls)"
    "rr_num_instr_before_next_interrupt s' = fill_distance (batch (Suc RR_MAX_QUEUE_LEN) ls) s" .
  with assms that [of s'] show ?thesis by (auto simp: replaying_def fills_def)
qed

text \<open>The first thing \<^verbatim>\<open>get_next_entry\<close> does: an empty queue is filled.\<close>

lemma refill_if_empty:
  assumes "replaying H s qs ls"
  obtains s' qs' ls' where
    "(if rr_queue_head (rr_queue s) = None then rr_fill_queue H s else Inr s) = Inr s'"
    and "fills s s'" and "replaying H s' qs' ls'" and "qs' @ ls' = qs @ ls" and "qs' = [] \<longleftrightarrow> qs @ ls = []"
proof (cases "qs = []")
  case True
  with assms rr_fill_queue_replaying [of H s ls] obtain s' where
    "rr_fill_queue H s = Inr s'" "fills s s'"
    "replaying H s' (batch (Suc RR_MAX_QUEUE_LEN) ls) (drop (length (batch (Suc RR_MAX_QUEUE_LEN) ls)) ls)"
    by metis
  with True that [of s'] replaying_head [OF assms] batch_prefix [of "Suc RR_MAX_QUEUE_LEN" ls]
  show ?thesis by (simp add: batch_Nil_iff)
next
  case False
  with that [of s qs ls] replaying_head [OF assms] assms show ?thesis by simp
qed

lemma replaying_pop:
  assumes "replaying H s (e # qs) ls"
  obtains p q k where "queue_head_entry (rr_queue s) = Inr (replayed_entry H k e)"
    and "queue_pop (rr_queue s) = Inr (p, q)" and "holding H (s\<lparr>rr_queue := q\<rparr>) p e qs ls"
proof -
  from assms obtain ps rs fs k where sh: "q_shape (rr_queue s) ps rs fs"
    and qe: "q_entries (rr_queue s) = replayed_entry H k e # replayed_list H (k + variant_allocs (variant e)) qs"
    by (auto simp: replaying_def q_inv_def)
  from queue_pop_shape [OF sh qe] obtain p q where
    "queue_pop (rr_queue s) = Inr (p, q)" "q_shape q (tl ps) rs (p # fs)"
    "q_entries q = replayed_list H (k + variant_allocs (variant e)) qs"
    "q_heap q p = Some (replayed_entry H k e, None)" .
  with assms that queue_head_entry_shape [OF sh qe] show ?thesis
    by (fastforce simp: holding_def replaying_def)
qed

lemma recycle_holding:
  assumes "holding H s p e qs ls"
  obtains s' where "recycle p s = Inr s'" and "fills s s'" and "replaying H s' qs ls"
proof -
  from assms obtain ps rs fs where "q_shape (rr_queue s) ps rs (p # fs)" by (auto simp: holding_def)
  from add_to_recycle_list_shape [OF this] obtain q where
    "add_to_recycle_list p (rr_queue s) = Inr q" "q_shape q ps (p # rs) fs"
    "q_entries q = q_entries (rr_queue s)" .
  with assms stop_last_ConsD [of e qs] that [of "s\<lparr>rr_queue := q\<rparr>"] show ?thesis
    by (auto simp: recycle_def holding_def replaying_def q_inv_def)
qed

lemma read_holding:
  "holding H s p e qs ls \<Longrightarrow> \<exists>k. read_entry_at p (rr_queue s) = Inr (replayed_entry H k e)"
  by (auto simp: holding_def read_entry_at_def)

text \<open>What \<^verbatim>\<open>get_next_entry\<close> checks of the entry at the head.\<close>

definition wanted :: "RR_log_entry_kind \<Rightarrow> RR_callsite_id \<Rightarrow> bool \<Rightarrow> RR_log_entry \<Rightarrow> bool" where
  "wanted kd cs check e \<longleftrightarrow> kind e = kd \<and> (check \<longrightarrow> callsite_loc e = cs)"

definition point_check :: "RR_prog_point \<Rightarrow> RR_log_entry \<Rightarrow> rr_exit + int" where
  "point_check now e =
     (if prog_point e = zero_prog_point then Inr 0 else rr_prog_point_compare now (prog_point e))"

definition no_skip :: "RR_log_entry_kind \<Rightarrow> RR_log_entry \<Rightarrow> bool" where
  "no_skip kd e \<longleftrightarrow> kd = RR_INTERRUPT_REQUEST \<or> kd = RR_SKIPPED_CALL \<or> kind e \<noteq> RR_DEBUG"

lemma get_next_entry_empty:
  assumes "replaying H s [] []"
  obtains s' where "get_next_entry H kd cs chk s = Inr (None, s')" and "fills s s'" and "replaying H s' [] []"
proof -
  from refill_if_empty [OF assms] obtain s' where
    s': "(if rr_queue_head (rr_queue s) = None then rr_fill_queue H s else Inr s) = Inr s'"
      "fills s s'" "replaying H s' [] []" by (metis append_is_Nil_conv)
  with that replaying_head [OF s'(3)] show ?thesis
    unfolding get_next_entry_def s'(1) by simp
qed

lemma get_next_entry_head:
  assumes "replaying H s qs ls" and "qs @ ls = e # es" and "no_skip kd e"
  obtains s1 qs' ls' p q where
    "fills s s1" and "replaying H s1 (e # qs') ls'" and "qs' @ ls' = es"
    and "holding H (s1\<lparr>rr_queue := q\<rparr>) p e qs' ls'"
    and "get_next_entry H kd cs chk s =
      (if wanted kd cs chk e then
         bindR (point_check (rr_prog_point s) e) (\<lambda>c.
           Inr (if c \<noteq> 0 then (None, s1) else (Some p, s1\<lparr>rr_queue := q\<rparr>)))
       else Inr (None, s1))"
proof -
  from refill_if_empty [OF assms(1)] obtain s1 qs1 ls' where
    s1: "(if rr_queue_head (rr_queue s) = None then rr_fill_queue H s else Inr s) = Inr s1"
      "fills s s1" "replaying H s1 qs1 ls'" "qs1 @ ls' = e # es" "qs1 \<noteq> []"
    using assms(2) by (metis list.distinct(1))
  then obtain qs' where qs': "qs1 = e # qs'" "qs' @ ls' = es" by (cases qs1) auto
  from s1(3) qs'(1) have r1: "replaying H s1 (e # qs') ls'" by simp
  from replaying_pop [OF this] obtain p q k where
    pop: "queue_head_entry (rr_queue s1) = Inr (replayed_entry H k e)"
      "queue_pop (rr_queue s1) = Inr (p, q)" "holding H (s1\<lparr>rr_queue := q\<rparr>) p e qs' ls'" .
  have hd: "rr_queue_head (rr_queue s1) \<noteq> None" using replaying_head [OF r1] by simp
  have skip: "(if kd \<noteq> RR_INTERRUPT_REQUEST \<and> kd \<noteq> RR_SKIPPED_CALL
      then skip_debug (q_fresh (rr_queue s1)) (rr_queue s1) else Inr (rr_queue s1)) = Inr (rr_queue s1)"
    using assms(3) pop(1) hd by (subst skip_debug.simps) (auto simp: no_skip_def)
  have pp: "rr_prog_point s1 = rr_prog_point s" using s1(2) by (simp add: fills_def)
  have "get_next_entry H kd cs chk s =
      (if wanted kd cs chk e then
         bindR (point_check (rr_prog_point s) e) (\<lambda>c.
           Inr (if c \<noteq> 0 then (None, s1) else (Some p, s1\<lparr>rr_queue := q\<rparr>)))
       else Inr (None, s1))"
    unfolding get_next_entry_def s1(1) bindR_simps skip
    using hd pop(1,2) by (auto simp: wanted_def point_check_def Let_def pp intro!: bindR_cong)
  with that s1(2) r1 qs'(2) pop(3) show ?thesis by blast
qed

section \<open>The replay functions return what the log holds\<close>

text \<open>The current program point is that of the entry, or the entry is from before the start.\<close>

definition at_point :: "rr_state \<Rightarrow> RR_log_entry \<Rightarrow> bool" where
  "at_point s e \<longleftrightarrow> point_check (rr_prog_point s) e = Inr 0"

lemma at_point_same [simp]: "at_point (s\<lparr>rr_prog_point := prog_point e\<rparr>) e"
  by (simp add: at_point_def point_check_def)

lemma get_next_entry_taken:
  assumes "replaying H s qs ls" and "qs @ ls = e # es" and "no_skip kd e"
    and "wanted kd cs chk e" and "at_point s e"
  obtains s' qs' ls' p where "get_next_entry H kd cs chk s = Inr (Some p, s')" and "fills s s'"
    and "holding H s' p e qs' ls'" and "qs' @ ls' = es"
proof -
  from get_next_entry_head [OF assms(1-3), of cs chk] obtain s1 qs' ls' p q where
    1: "fills s s1" "qs' @ ls' = es" "holding H (s1\<lparr>rr_queue := q\<rparr>) p e qs' ls'"
    and g: "get_next_entry H kd cs chk s =
      (if wanted kd cs chk e then
         bindR (point_check (rr_prog_point s) e) (\<lambda>c.
           Inr (if c \<noteq> 0 then (None, s1) else (Some p, s1\<lparr>rr_queue := q\<rparr>)))
       else Inr (None, s1))" .
  have "get_next_entry H kd cs chk s = Inr (Some p, s1\<lparr>rr_queue := q\<rparr>)"
    using g assms(4,5) by (simp add: at_point_def)
  with 1 that show ?thesis by simp
qed

lemma get_next_entry_refused:
  assumes "replaying H s qs ls" and "qs @ ls = e # es" and "no_skip kd e"
    and "\<not> wanted kd cs chk e \<or> point_check (rr_prog_point s) e = Inr (-1)"
  obtains s' qs' ls' where "get_next_entry H kd cs chk s = Inr (None, s')" and "fills s s'"
    and "replaying H s' qs' ls'" and "qs' @ ls' = e # es" and "qs' \<noteq> []"
proof -
  from get_next_entry_head [OF assms(1-3), of cs chk] obtain s1 qs' ls' p q where
    1: "fills s s1" "replaying H s1 (e # qs') ls'" "qs' @ ls' = es"
    and g: "get_next_entry H kd cs chk s =
      (if wanted kd cs chk e then
         bindR (point_check (rr_prog_point s) e) (\<lambda>c.
           Inr (if c \<noteq> 0 then (None, s1) else (Some p, s1\<lparr>rr_queue := q\<rparr>)))
       else Inr (None, s1))" .
  have "get_next_entry H kd cs chk s = Inr (None, s1)"
    using g assms(4) by auto
  with 1 that [of s1 "e # qs'" ls'] show ?thesis by simp
qed

lemma get_next_entry_ahead:
  assumes "replaying H s qs ls" and "qs @ ls = e # es" and "no_skip kd e" and "wanted kd cs chk e"
    and "prog_point e \<noteq> zero_prog_point"
    and "guest_instr_count (prog_point e) < guest_instr_count (rr_prog_point s)"
  shows "get_next_entry H kd cs chk s = Inl Replay_abort"
proof -
  have "point_check (rr_prog_point s) e = Inl Replay_abort"
    using assms(5,6) by (simp add: point_check_def rr_prog_point_compare_abort_iff)
  with get_next_entry_head [OF assms(1-3), of cs chk] assms(4) show ?thesis
    by (metis (no_types, lifting) bindR_simps(1))
qed

text \<open>Inputs: the member of the entry's kind.\<close>

definition is_input :: "RR_log_entry_kind \<Rightarrow> bool" where
  "is_input kd \<longleftrightarrow> kd = RR_INPUT_1 \<or> kd = RR_INPUT_2 \<or> kd = RR_INPUT_4 \<or> kd = RR_INPUT_8"

lemma replayed_input [simp]: "is_input (variant_kind v) \<Longrightarrow> replayed_variant H k v = v"
  by (cases v) (simp_all add: is_input_def)

lemma replay_input_head:
  assumes "replaying H s qs ls" and "qs @ ls = e # es" and "is_input (kind e)"
    and "callsite_loc e = cs" and "at_point s e"
  obtains s' qs' ls' where "replay_input H (kind e) cs s = Inr (variant e, s')" and "fills s s'"
    and "replaying H s' qs' ls'" and "qs' @ ls' = es"
proof -
  have "no_skip (kind e) e" "wanted (kind e) cs False e"
    using assms(3) by (auto simp: no_skip_def wanted_def is_input_def)
  from get_next_entry_taken [OF assms(1,2) this assms(5)] obtain s1 qs' ls' p where
    1: "get_next_entry H (kind e) cs False s = Inr (Some p, s1)" "fills s s1"
      "holding H s1 p e qs' ls'" "qs' @ ls' = es" .
  from recycle_holding [OF 1(3)] obtain s2 where
    2: "recycle p s1 = Inr s2" "fills s1 s2" "replaying H s2 qs' ls'" .
  from read_holding [OF 1(3)] obtain k where "read_entry_at p (rr_queue s1) = Inr (replayed_entry H k e)" ..
  with 1 2 assms(3,4) have "replay_input H (kind e) cs s = Inr (variant e, s2)"
    by (simp add: replay_input_def)
  with 1 2 that fills_trans show ?thesis by blast
qed

lemma rr_replay_interrupt_request_taken:
  assumes "replaying H s qs ls" and "qs @ ls = e # es" and "variant e = Interrupt_request d"
    and "callsite_loc e = cs" and "at_point s e"
  obtains s' qs' ls' where "rr_replay_interrupt_request H cs s = Inr (ucast d, s')" and "fills s s'"
    and "replaying H s' qs' ls'" and "qs' @ ls' = es"
proof -
  have "no_skip RR_INTERRUPT_REQUEST e" "wanted RR_INTERRUPT_REQUEST cs True e" "is_stop e"
    using assms(3,4) by (auto simp: no_skip_def wanted_def is_stop_def)
  from get_next_entry_taken [OF assms(1,2) this(1,2) assms(5)] obtain s1 qs1 ls1 p where
    1: "get_next_entry H RR_INTERRUPT_REQUEST cs True s = Inr (Some p, s1)" "fills s s1"
      "holding H s1 p e qs1 ls1" "qs1 @ ls1 = es" .
  have "qs1 = []" using 1(3) \<open>is_stop e\<close> stop_last_ConsD by (auto simp: holding_def)
  from recycle_holding [OF 1(3)] this obtain s2 where
    2: "recycle p s1 = Inr s2" "fills s1 s2" "replaying H s2 [] ls1" by auto
  from rr_fill_queue_replaying [OF 2(3)] obtain s3 where
    3: "rr_fill_queue H s2 = Inr s3" "fills s2 s3"
      "replaying H s3 (batch (Suc RR_MAX_QUEUE_LEN) ls1) (drop (length (batch (Suc RR_MAX_QUEUE_LEN) ls1)) ls1)" .
  from read_holding [OF 1(3)] obtain k where "read_entry_at p (rr_queue s1) = Inr (replayed_entry H k e)" ..
  with 1 2 3 assms(3) have "rr_replay_interrupt_request H cs s = Inr (ucast d, s3)"
    by (simp add: rr_replay_interrupt_request_def)
  moreover have "batch (Suc RR_MAX_QUEUE_LEN) ls1 @ drop (length (batch (Suc RR_MAX_QUEUE_LEN) ls1)) ls1 = es"
    using 1(4) \<open>qs1 = []\<close> batch_prefix by simp
  ultimately show ?thesis
    using 3 that fills_trans [OF 1(2) fills_trans [OF 2(2) 3(2)]] by blast
qed

lemma rr_replay_interrupt_request_none:
  assumes "replaying H s qs ls" and "qs @ ls = e # es"
    and "\<not> wanted RR_INTERRUPT_REQUEST cs True e \<or> point_check (rr_prog_point s) e = Inr (-1)"
  obtains s' qs' ls' where "rr_replay_interrupt_request H cs s = Inr (0, s')" and "fills s s'"
    and "replaying H s' qs' ls'" and "qs' @ ls' = e # es"
proof -
  have "no_skip RR_INTERRUPT_REQUEST e" by (simp add: no_skip_def)
  from get_next_entry_refused [OF assms(1,2) this assms(3)] obtain s1 qs' ls' where
    "get_next_entry H RR_INTERRUPT_REQUEST cs True s = Inr (None, s1)" "fills s s1"
    "replaying H s1 qs' ls'" "qs' @ ls' = e # es" .
  with that show ?thesis by (simp add: rr_replay_interrupt_request_def)
qed

lemma rr_replay_exit_request_taken:
  assumes "replaying H s qs ls" and "qs @ ls = e # es" and "variant e = Exit_request d"
    and "callsite_loc e = cs" and "at_point s e"
  obtains s' qs' ls' where "rr_replay_exit_request H cs s = Inr (ucast d, s')" and "fills s s'"
    and "replaying H s' qs' ls'" and "qs' @ ls' = es"
proof -
  have "no_skip RR_EXIT_REQUEST e" "wanted RR_EXIT_REQUEST cs False e"
    using assms(3,4) by (auto simp: no_skip_def wanted_def)
  from get_next_entry_taken [OF assms(1,2) this assms(5)] obtain s1 qs' ls' p where
    1: "get_next_entry H RR_EXIT_REQUEST cs False s = Inr (Some p, s1)" "fills s s1"
      "holding H s1 p e qs' ls'" "qs' @ ls' = es" .
  from recycle_holding [OF 1(3)] obtain s2 where
    2: "recycle p s1 = Inr s2" "fills s1 s2" "replaying H s2 qs' ls'" .
  from read_holding [OF 1(3)] obtain k where "read_entry_at p (rr_queue s1) = Inr (replayed_entry H k e)" ..
  with 1 2 assms(3,4) have "rr_replay_exit_request H cs s = Inr (ucast d, s2)"
    by (simp add: rr_replay_exit_request_def)
  with 1 2 that fills_trans show ?thesis by blast
qed

section \<open>Skipped calls\<close>

text \<open>
  The calls that replaying a recorded skipped call makes, given the callbacks registered and
  what was done before.
\<close>

fun call_trace :: "machine \<Rightarrow> cb_state \<Rightarrow> rr_effect list \<Rightarrow> RR_skipped_call_args \<Rightarrow> rr_effect list" where
  "call_trace M C tr (Call_cpu_mem_rw a) =
     [Cpu_physical_memory_rw (rw_addr a) (rw_len a) (take (unat (rw_len a)) (host_bytes (rw_buf a)))]"
| "call_trace M C tr (Call_cpu_reg_mem_region a) =
     [Cpu_register_physical_memory (reg_start_addr a) (reg_size a) (reg_phys_offset a)]"
| "call_trace M C tr (Call_cpu_mem_unmap a) =
     (let (p, plen) = phys_map M tr (um_addr a) (um_len a)
      in [Cpu_physical_memory_map (um_addr a) (um_len a),
          Cpu_physical_memory_unmap (the p) plen (take (unat (um_len a)) (host_bytes (um_buf a)))])"
| "call_trace M C tr (Call_hd_transfer a) =
     map (\<lambda>c. Replay_hd_transfer c a) (called (cb_view C PANDA_CB_REPLAY_HD_TRANSFER))"
| "call_trace M C tr (Call_handle_packet a oba) =
     map (\<lambda>c. Replay_handle_packet c (take (unat (hp_size a)) (host_bytes (hp_buf a))) (hp_size a)
        (hp_direction a) (host_addr (hp_buf a))) (called (cb_view C PANDA_CB_REPLAY_HANDLE_PACKET))"
| "call_trace M C tr (Call_net_transfer a) =
     map (\<lambda>c. Replay_net_transfer c a) (called (cb_view C PANDA_CB_REPLAY_NET_TRANSFER))"
| "call_trace M C tr Call_other = []"

fun calls_trace :: "machine \<Rightarrow> cb_state \<Rightarrow> rr_effect list \<Rightarrow> RR_log_entry list \<Rightarrow> rr_effect list" where
  "calls_trace M C tr [] = tr"
| "calls_trace M C tr (e # es) = calls_trace M C (tr @ call_trace M C tr (call_args (variant e))) es"

text \<open>Guest memory that was mapped when recording can be mapped, in full.\<close>

definition maps_all :: "machine \<Rightarrow> bool" where
  "maps_all M \<longleftrightarrow> (\<forall>tr a n. fst (phys_map M tr a n) \<noteq> None \<and> n \<le> snd (phys_map M tr a n))"

lemma replay_skipped_call_replayed:
  assumes "writable_call c" and "maps_all M" and "cbs_inv (cbs s)"
  shows "replay_skipped_call M (replayed_call H k c) s = Inr (emit (call_trace M (cbs s) (effects s) c) s)"
proof (cases c)
  case (Call_cpu_mem_unmap a)
  obtain h plen where "phys_map M (effects s) (um_addr a) (um_len a) = (Some h, plen)" "um_len a \<le> plen"
    using assms(2) by (metis maps_all_def option.collapse prod.collapse)
  with Call_cpu_mem_unmap assms(1) show ?thesis
    by (auto simp: host_read_def emit_def not_less)
qed (use assms in \<open>simp_all add: pcb.run\<close>)

lemma refill_main_loop:
  assumes "replaying H s qs ls"
  obtains s' qs' ls' where
    "(if c \<and> rr_queue_head (rr_queue s) = None then rr_fill_queue H s else Inr s) = Inr s'"
    and "fills s s'" and "replaying H s' qs' ls'" and "qs' @ ls' = qs @ ls"
proof (cases c)
  case True
  with refill_if_empty [OF assms] that show ?thesis by (metis (full_types))
next
  case False
  with that [of s qs ls] assms show ?thesis by simp
qed

lemma fills_at_point: "fills s s' \<Longrightarrow> at_point s' e = at_point s e"
  by (simp add: fills_def at_point_def)

lemma skipped_loop_replays:
  assumes "replaying H s qs ls" and "qs @ ls = es @ rest" and "length es < n"
    and "\<And>e. e \<in> set es \<Longrightarrow> kind e = RR_SKIPPED_CALL \<and> replayable e \<and> at_point s e"
    and "\<And>e r. rest = e # r \<Longrightarrow> kind e \<noteq> RR_SKIPPED_CALL \<or> point_check (rr_prog_point s) e = Inr (-1)"
    and "maps_all M" and "cbs_inv (cbs s)"
  shows "\<exists>s' qs' ls'. skipped_loop H M n cs s = Inr s' \<and> replaying H s' qs' ls' \<and> qs' @ ls' = rest
    \<and> fills (s\<lparr>effects := calls_trace M (cbs s) (effects s) es\<rparr>) s'"
  using assms
proof (induction es arbitrary: n s qs ls)
  case Nil
  obtain m where n: "n = Suc m" using Nil.prems(3) by (cases n) auto
  have "\<exists>s' qs' ls'. get_next_entry H RR_SKIPPED_CALL cs False s = Inr (None, s') \<and> fills s s'
      \<and> replaying H s' qs' ls' \<and> qs' @ ls' = rest"
  proof (cases rest)
    case Nil
    with Nil.prems(1,2) have "replaying H s [] []" by simp
    from get_next_entry_empty [OF this, of RR_SKIPPED_CALL cs False] Nil show ?thesis by blast
  next
    case (Cons e r)
    with Nil.prems(2) have "qs @ ls = e # r" by simp
    moreover have "no_skip RR_SKIPPED_CALL e" by (simp add: no_skip_def)
    moreover have "\<not> wanted RR_SKIPPED_CALL cs False e \<or> point_check (rr_prog_point s) e = Inr (-1)"
      using Nil.prems(5) [OF Cons] by (auto simp: wanted_def)
    ultimately show ?thesis
      using get_next_entry_refused [OF Nil.prems(1)] Cons by metis
  qed
  then obtain s' qs' ls' where "get_next_entry H RR_SKIPPED_CALL cs False s = Inr (None, s')" "fills s s'"
    "replaying H s' qs' ls'" "qs' @ ls' = rest" by blast
  with n show ?case by (intro exI [of _ s'] exI [of _ qs'] exI [of _ ls']) simp
next
  case (Cons e es)
  obtain m where n: "n = Suc m" using Cons.prems(3) by (cases n) auto
  have e: "kind e = RR_SKIPPED_CALL" "replayable e" "at_point s e" using Cons.prems(4) [of e] by auto
  obtain c where c: "variant e = Skipped_call c" "writable_call c"
    using e(1,2) by (cases "variant e") auto
  have "qs @ ls = e # (es @ rest)" "no_skip RR_SKIPPED_CALL e" "wanted RR_SKIPPED_CALL cs False e"
    using Cons.prems(2) e(1) by (auto simp: no_skip_def wanted_def)
  from get_next_entry_taken [OF Cons.prems(1) this e(3)] obtain s1 qs1 ls1 p where
    1: "get_next_entry H RR_SKIPPED_CALL cs False s = Inr (Some p, s1)" "fills s s1"
      "holding H s1 p e qs1 ls1" "qs1 @ ls1 = es @ rest" .
  from read_holding [OF 1(3)] obtain k where rd: "read_entry_at p (rr_queue s1) = Inr (replayed_entry H k e)" ..
  let ?tr = "call_trace M (cbs s) (effects s) c"
  have f1: "cbs s1 = cbs s" "effects s1 = effects s" using 1(2) by (simp_all add: fills_def)
  have call: "replay_skipped_call M (call_args (variant (replayed_entry H k e))) s1 = Inr (emit ?tr s1)"
    using replay_skipped_call_replayed [OF c(2) Cons.prems(6), of s1 H k] Cons.prems(7) c(1) f1 by simp
  have "holding H (emit ?tr s1) p e qs1 ls1" using 1(3) by (simp add: holding_def)
  from recycle_holding [OF this] obtain s2 where
    2: "recycle p (emit ?tr s1) = Inr s2" "fills (emit ?tr s1) s2" "replaying H s2 qs1 ls1" .
  from refill_main_loop [OF 2(3), of "cs = RR_CALLSITE_MAIN_LOOP_WAIT"] obtain s3 qs3 ls3 where
    3: "(if cs = RR_CALLSITE_MAIN_LOOP_WAIT \<and> rr_queue_head (rr_queue s2) = None
          then rr_fill_queue H s2 else Inr s2) = Inr s3"
      "fills s2 s3" "replaying H s3 qs3 ls3" "qs3 @ ls3 = qs1 @ ls1" .
  have f3: "fills (s\<lparr>effects := effects s @ ?tr\<rparr>) s3"
    using 1(2) 2(2) 3(2) by (simp add: fills_def emit_def)
  have "\<exists>s' qs' ls'. skipped_loop H M m cs s3 = Inr s' \<and> replaying H s' qs' ls' \<and> qs' @ ls' = rest
    \<and> fills (s3\<lparr>effects := calls_trace M (cbs s3) (effects s3) es\<rparr>) s'"
  proof (rule Cons.IH [OF 3(3)])
    show "qs3 @ ls3 = es @ rest" using 3(4) 1(4) by simp
    show "length es < m" using Cons.prems(3) n by simp
    show "kind x = RR_SKIPPED_CALL \<and> replayable x \<and> at_point s3 x" if "x \<in> set es" for x
      using Cons.prems(4) [of x] that f3 by (simp add: fills_def at_point_def)
    show "kind x \<noteq> RR_SKIPPED_CALL \<or> point_check (rr_prog_point s3) x = Inr (-1)" if "rest = x # r" for x r
      using Cons.prems(5) [OF that] f3 by (simp add: fills_def)
  qed (use Cons.prems(6,7) f3 in \<open>simp_all add: fills_def\<close>)
  moreover have "skipped_loop H M n cs s = skipped_loop H M m cs s3"
    using n 1(1) rd call 2(1) 3(1) by simp
  moreover have "fills (s\<lparr>effects := calls_trace M (cbs s) (effects s) (e # es)\<rparr>) s'"
    if "fills (s3\<lparr>effects := calls_trace M (cbs s3) (effects s3) es\<rparr>) s'" for s'
    using that f3 c(1) by (simp add: fills_def)
  ultimately show ?case by metis
qed

lemma replaying_entries_left:
  assumes "replaying H s qs ls"
  shows "length (qs @ ls) \<le> entries_left s"
proof -
  have "length ls \<le> length (concat (map entry_image ls))" for ls
  proof (induction ls)
    case (Cons e ls)
    then show ?case using entry_image_length [of e] by simp
  qed simp
  moreover have "length (replayed_list H k qs) = length qs" for k
    by (induction qs arbitrary: k) simp_all
  ultimately show ?thesis
    using assms by (auto simp: replaying_def entries_left_def log_holds_def add_mono)
qed

section \<open>Properties\<close>

text \<open>A replay just opened on a log with the given entries, for the examples.\<close>

definition opened :: "RR_log_entry list \<Rightarrow> rr_state" where
  "opened es = (init_rr \<lparr>eip = 0, regs_ecx = 0, rr_guest_instr_count = 0\<rparr> Map.empty)\<lparr>rr_mode := RR_REPLAY,
     rr_nondet_log := Some \<lparr>log_type = REPLAY, last_prog_point = zero_prog_point, log_name = ''x'',
       log_fp = Some (fopen_r (concat (map entry_image es))),
       log_size = of_nat (length (concat (map entry_image es))), bytes_read = 0,
       current_item = zero_entry, item_number = 0\<rparr>\<rparr>"

definition an_entry :: "u64 \<Rightarrow> RR_callsite_id \<Rightarrow> RR_variant \<Rightarrow> RR_log_entry" where
  "an_entry n cs v = \<lparr>prog_point = \<lparr>pc = 4096, secondary = 0, guest_instr_count = n\<rparr>, callsite_loc = cs, variant = v\<rparr>"

definition a_host :: host where
  "a_host = \<lparr>h_addr = \<lambda>_. 4096, h_fill = \<lambda>_ _. 0\<rparr>"

lemma opened_replaying:
  assumes "length (concat (map entry_image es)) < 2 ^ 64" and "\<forall>e \<in> set es. replayable e"
  shows "replaying H (opened es) [] es"
  using assms by (simp add: replaying_def opened_def log_holds_def log_rest_def fopen_r_def f_rest_def init_rr_def)

lemma opened_simps [simp]:
  "rr_prog_point (opened es) = zero_prog_point" "effects (opened es) = []" "cbs (opened es) = init_cbs"
  by (simp_all add: opened_def init_rr_def)

lemma an_entry_simps [simp]:
  "prog_point (an_entry n cs v) = \<lparr>pc = 4096, secondary = 0, guest_instr_count = n\<rparr>"
  "callsite_loc (an_entry n cs v) = cs" "variant (an_entry n cs v) = v"
  by (simp_all add: an_entry_def)






definition a_machine :: machine where
  "a_machine = \<lparr>phys_map = \<lambda>tr a n. (Some a, n), load_vm = \<lambda>tr f cpu. (0, cpu), save_vm = \<lambda>tr f. 0,
     can_create = \<lambda>f. True\<rparr>"




section \<open>Debug entries\<close>

lemma skip_debug_all:
  assumes "replaying H s qs ls" and "\<forall>e \<in> set qs. kind e = RR_DEBUG" and "length qs \<le> n"
  shows "\<exists>q. skip_debug n (rr_queue s) = Inr q \<and> rr_queue_head q = None"
  using assms
proof (induction qs arbitrary: s n)
  case Nil
  then have "rr_queue_head (rr_queue s) = None" using replaying_head by blast
  then show ?case by (subst skip_debug.simps) simp
next
  case (Cons e qs)
  then obtain m where n: "n = Suc m" by (cases n) auto
  from replaying_pop [OF Cons.prems(1)] obtain p q k where
    p: "queue_head_entry (rr_queue s) = Inr (replayed_entry H k e)" "queue_pop (rr_queue s) = Inr (p, q)"
      "holding H (s\<lparr>rr_queue := q\<rparr>) p e qs ls" .
  have "replaying H (s\<lparr>rr_queue := q\<rparr>) qs ls"
    using p(3) stop_last_ConsD by (auto simp: holding_def replaying_def q_inv_def)
  with Cons.IH [of "s\<lparr>rr_queue := q\<rparr>" m] Cons.prems(2,3) n obtain q' where
    "skip_debug m q = Inr q'" "rr_queue_head q' = None" by auto
  moreover have "rr_queue_head (rr_queue s) \<noteq> None" using replaying_head [OF Cons.prems(1)] by simp
  ultimately show ?case
    using p(1,2) n Cons.prems(2) by (subst skip_debug.simps) simp
qed

lemma length_replayed_list [simp]: "length (replayed_list H k es) = length es"
  by (induction es arbitrary: k) auto

text \<open>
  When every queued entry is a debug entry, asking for an input skips them all and then
  dereferences the NULL head of the queue, although the log may hold the entry asked for.
\<close>

theorem debug_only_queue_crashes:
  assumes "replaying H s qs ls" and "qs \<noteq> []" and "\<forall>e \<in> set qs. kind e = RR_DEBUG" and "is_input kd"
  shows "replay_input H kd cs s = Inl Null_deref"
proof -
  have hd: "rr_queue_head (rr_queue s) \<noteq> None" using replaying_head [OF assms(1)] assms(2) by simp
  have "length qs \<le> q_fresh (rr_queue s)"
  proof -
    from assms(1) obtain k ps rs fs where "q_entries (rr_queue s) = replayed_list H k qs"
      and sh: "q_shape (rr_queue s) ps rs fs" by (auto simp: replaying_def q_inv_def)
    then have "length qs = length ps" using q_entries_shape [OF sh] length_replayed_list by (metis length_map)
    then show ?thesis using q_shape_bound(2) [OF sh] by simp
  qed
  from skip_debug_all [OF assms(1,3) this] obtain q where
    "skip_debug (q_fresh (rr_queue s)) (rr_queue s) = Inr q" "rr_queue_head q = None" by blast
  with hd assms(4) show ?thesis
    by (auto simp: replay_input_def get_next_entry_def Let_def queue_head_entry_def is_input_def)
qed

theorem debug_only_queue_crashes_witness:
  "\<exists>s. rr_fill_queue a_host (opened [an_entry 5 1 Debug_entry]) = Inr s
    \<and> replay_input a_host RR_INPUT_1 7 s = Inl Null_deref"
proof -
  let ?es = "[an_entry 5 1 Debug_entry]"
  have b: "batch (Suc RR_MAX_QUEUE_LEN) ?es = ?es" by (simp add: is_stop_def batch_Nil_iff)
  have "replaying a_host (opened ?es) [] ?es"
    by (rule opened_replaying) (simp_all add: entry_image_def)
  from rr_fill_queue_replaying [OF this] obtain s where
    "rr_fill_queue a_host (opened ?es) = Inr s" "replaying a_host s ?es (drop (length ?es) ?es)" unfolding b .
  with debug_only_queue_crashes [of a_host s ?es "drop (length ?es) ?es" RR_INPUT_1 7] show ?thesis
    by (auto simp: is_input_def)
qed

end
