(* ===== verification/RR_Loops.thy ===== *)
theory RR_Loops
  imports RR_Replay
begin

text \<open>
  The loops of the replay code end on a well-formed queue, whatever the log file holds: each
  turn of \<^verbatim>\<open>rr_fill_queue\<close> reads at least 26 bytes or stops, and each turn of
  \<^verbatim>\<open>rr_replay_skipped_calls_internal\<close> uses up an entry of the queue or of the log.
\<close>

section \<open>The loops end, whatever the log holds\<close>

definition not_endless :: "rr_exit + 'a \<Rightarrow> bool" where
  "not_endless r \<longleftrightarrow> r \<noteq> Inl Endless_loop"

lemma not_endless_simps [simp]:
  "not_endless (Inr x)" "not_endless (rr_assert b e)" "not_endless (Inl y) \<longleftrightarrow> y \<noteq> Endless_loop"
  by (simp_all add: not_endless_def rr_assert_def)

lemma not_endless_bindR: "not_endless m \<Longrightarrow> (\<And>x. m = Inr x \<Longrightarrow> not_endless (f x)) \<Longrightarrow> not_endless (bindR m f)"
  by (cases m) (auto simp: not_endless_def)

lemma not_endless_if: "(b \<Longrightarrow> not_endless x) \<Longrightarrow> (\<not> b \<Longrightarrow> not_endless y) \<Longrightarrow> not_endless (if b then x else y)"
  by simp

lemma log_read_not_endless [simp]:
  "not_endless (log_read n e l)" "not_endless (log_read_buf n b l)" "not_endless (log_read_item_buf n b l)"
  by (auto simp: log_read_def log_read_buf_def log_read_item_buf_def Let_def
      split: option.splits prod.splits)

lemma read_call_args_not_endless [simp]: "not_endless (read_call_args H k c l)"
  unfolding read_call_args_def Let_def
  by (auto intro!: not_endless_bindR not_endless_if split: prod.splits)

lemma read_variant_not_endless [simp]: "not_endless (read_variant H k c l)"
  unfolding read_variant_def
  by (auto intro!: not_endless_bindR not_endless_if split: prod.splits)

lemma read_entry_not_endless [simp]: "not_endless (read_entry H k m l)"
  unfolding read_entry_def
  by (auto intro!: not_endless_bindR split: prod.splits)

text \<open>A well-formed replay state, with any log.\<close>

definition replay_ok :: "rr_state \<Rightarrow> bool" where
  "replay_ok s \<longleftrightarrow> rr_mode s = RR_REPLAY \<and> q_inv (rr_queue s) \<and> cbs_inv (cbs s)
     \<and> (\<exists>l. rr_nondet_log s = Some l \<and> log_type l = REPLAY)"

definition advances :: "nat \<Rightarrow> rr_state \<Rightarrow> rr_state \<Rightarrow> bool" where
  "advances d s s' \<longleftrightarrow> replay_ok s' \<and> entries_left s' + d \<le> entries_left s"

lemma advances_trans: "advances c s s' \<Longrightarrow> advances d s' s'' \<Longrightarrow> advances (c + d) s s''"
  by (simp add: advances_def)

lemma fill_loop_advances:
  assumes "replay_ok s"
  shows "not_endless (fill_loop H n s) \<and> (\<forall>n' s'. fill_loop H n s = Inr (n', s') \<longrightarrow> advances 0 s s')"
  using assms
proof (induction H n s rule: fill_loop.induct)
  case (1 H n s)
  from 1(2) obtain l where ok: "rr_mode s = RR_REPLAY" "q_inv (rr_queue s)" "rr_nondet_log s = Some l" "cbs_inv (cbs s)"
      "log_type l = REPLAY"
    by (auto simp: replay_ok_def)
  show ?case
  proof (cases "rr_log_is_empty l")
    case True
    with ok 1(2) show ?thesis by (subst fill_loop.simps) (simp add: the_log_def advances_def fill_loop.simps)
  next
    case False
    show ?thesis
    proof (cases "read_entry H (n_alloc s) RR_REPLAY l")
      case (Inl x)
      from rr_read_item_Inl [OF ok(2,1,3) Inl] have "fill_loop H n s = Inl x"
        using False ok by (subst fill_loop.simps) (simp add: the_log_def)
      with Inl read_entry_not_endless [of H "n_alloc s" RR_REPLAY l] show ?thesis by simp
    next
      case (Inr r)
      then obtain e k' l' where rd: "read_entry H (n_alloc s) RR_REPLAY l = Inr (e, k', l')" by (cases r) auto
      from rr_read_item_Inr [OF ok(2,1,3) rd] obtain p q1 q2 where
        it: "rr_read_item H s = Inr (p, s\<lparr>rr_queue := q1, rr_nondet_log := Some l', n_alloc := k'\<rparr>)"
        and q2: "queue_append p q1 = Inr q2" "read_entry_at p q2 = Inr e" "q_inv q2"
          "q_entries q2 = q_entries (rr_queue s) @ [e]" .
      let ?s = "s\<lparr>rr_nondet_log := Some l', n_alloc := k', rr_queue := q2\<rparr>"
      have "length (log_rest l') + 26 \<le> length (log_rest l)" "log_type l' = REPLAY"
        using read_entry_step [OF rd] ok(5) by (simp_all add: log_step_def)
      then have adv: "advances 0 s ?s"
        using ok q2 by (simp add: advances_def replay_ok_def entries_left_def)
      have step: "fill_loop H n s = (if is_stop e then Inr (Suc n, ?s\<lparr>rr_num_instr_before_next_interrupt :=
             guest_instr_count (prog_point e) - guest_instr_count (rr_prog_point s)\<rparr>)
         else if Suc n > RR_MAX_QUEUE_LEN then Inr (Suc n, ?s\<lparr>rr_num_instr_before_next_interrupt := -1\<rparr>)
         else fill_loop H (Suc n) ?s)"
        using False it q2(1,2) ok(3) by (subst fill_loop.simps) (simp add: the_log_def Let_def)
      have IH: "\<not> is_stop e \<Longrightarrow> \<not> Suc n > RR_MAX_QUEUE_LEN \<Longrightarrow>
          not_endless (fill_loop H (Suc n) ?s) \<and> (\<forall>n' s'. fill_loop H (Suc n) ?s = Inr (n', s') \<longrightarrow> advances 0 ?s s')"
        using 1(1) [of l "(p, s\<lparr>rr_queue := q1, rr_nondet_log := Some l', n_alloc := k'\<rparr>)" p
            "s\<lparr>rr_queue := q1, rr_nondet_log := Some l', n_alloc := k'\<rparr>" q2 e ?s "n + 1"]
          ok(3) False it q2(1,2) adv by (simp add: the_log_def advances_def)
      have num: "advances 0 s (?s\<lparr>rr_num_instr_before_next_interrupt := d\<rparr>)" for d
        using adv by (simp add: advances_def replay_ok_def entries_left_def)
      show ?thesis
        using IH num advances_trans [OF adv, of 0] unfolding step by auto
    qed
  qed
qed

lemma rr_fill_queue_advances:
  assumes "replay_ok s"
  shows "not_endless (rr_fill_queue H s)" and "rr_fill_queue H s = Inr s' \<Longrightarrow> advances 0 s s'"
proof -
  note f = fill_loop_advances [OF assms, of H 0]
  show "not_endless (rr_fill_queue H s)"
    unfolding rr_fill_queue_def using f by (intro not_endless_bindR) (simp_all split: prod.splits)
  assume "rr_fill_queue H s = Inr s'"
  then obtain n s1 where s1: "fill_loop H 0 s = Inr (n, s1)"
    and s': "s' = (if n > rr_max_num_queue_entries s1 then s1\<lparr>rr_max_num_queue_entries := n\<rparr> else s1)"
    by (auto simp: rr_fill_queue_def)
  from f s1 have "advances 0 s s1" by simp
  then show "advances 0 s s'" by (simp add: s' advances_def replay_ok_def entries_left_def)
qed

text \<open>A caller holds the entry at \<open>p\<close>.\<close>

definition held :: "rr_state \<Rightarrow> nat \<Rightarrow> bool" where
  "held s p \<longleftrightarrow> rr_mode s = RR_REPLAY \<and> cbs_inv (cbs s)
     \<and> (\<exists>l. rr_nondet_log s = Some l \<and> log_type l = REPLAY)
     \<and> (\<exists>ps rs fs. q_shape (rr_queue s) ps rs (p # fs))"

lemma queue_head_pop_inv:
  assumes "replay_ok s" and "rr_queue_head (rr_queue s) \<noteq> None"
  obtains e p q where "queue_head_entry (rr_queue s) = Inr e" and "queue_pop (rr_queue s) = Inr (p, q)"
    and "held (s\<lparr>rr_queue := q\<rparr>) p" and "entries_left (s\<lparr>rr_queue := q\<rparr>) + 1 = entries_left s"
proof -
  from assms obtain ps rs fs where sh: "q_shape (rr_queue s) ps rs fs"
    by (auto simp: replay_ok_def q_inv_def)
  have "q_entries (rr_queue s) \<noteq> []"
    using assms q_inv_head by (auto simp: replay_ok_def)
  then obtain e es where qe: "q_entries (rr_queue s) = e # es" by (cases "q_entries (rr_queue s)") auto
  from queue_pop_shape [OF sh qe] obtain p q where
    "queue_pop (rr_queue s) = Inr (p, q)" "q_shape q (tl ps) rs (p # fs)" "q_entries q = es" .
  with that queue_head_entry_shape [OF sh qe] qe assms show ?thesis
    by (fastforce simp: held_def replay_ok_def entries_left_def)
qed

text \<open>Dropping debug entries, on a queue that is not empty.\<close>

lemma skip_debug_advances:
  assumes "replay_ok s" and "length (q_entries (rr_queue s)) \<le> n"
  obtains q where "skip_debug n (rr_queue s) = Inr q" and "advances 0 s (s\<lparr>rr_queue := q\<rparr>)"
proof -
  have "\<exists>q. skip_debug n (rr_queue s) = Inr q \<and> advances 0 s (s\<lparr>rr_queue := q\<rparr>)"
    using assms
  proof (induction n arbitrary: s)
    case 0
    then have "rr_queue_head (rr_queue s) = None"
      using q_inv_head by (simp add: replay_ok_def)
    with 0 show ?case by (subst skip_debug.simps) (simp add: advances_def)
  next
    case (Suc n)
    show ?case
    proof (cases "rr_queue_head (rr_queue s) = None")
      case True
      with Suc.prems(1) show ?thesis by (subst skip_debug.simps) (simp add: advances_def)
    next
      case False
      from queue_head_pop_inv [OF Suc.prems(1) False] obtain e p q where pop:
        "queue_head_entry (rr_queue s) = Inr e" "queue_pop (rr_queue s) = Inr (p, q)"
        "held (s\<lparr>rr_queue := q\<rparr>) p" "entries_left (s\<lparr>rr_queue := q\<rparr>) + 1 = entries_left s" .
      let ?s = "s\<lparr>rr_queue := q\<rparr>"
      have ok: "replay_ok ?s" using pop(3) by (auto simp: held_def replay_ok_def q_inv_def)
      have "length (q_entries (rr_queue ?s)) \<le> n"
        using pop(4) Suc.prems(2) by (simp add: entries_left_def)
      from Suc.IH [OF ok this] obtain q' where "skip_debug n q = Inr q'" "advances 0 ?s (s\<lparr>rr_queue := q'\<rparr>)"
        by auto
      with False pop Suc.prems(1) show ?thesis
        by (subst skip_debug.simps) (auto simp: advances_def)
    qed
  qed
  then show ?thesis using that by blast
qed

lemma get_next_entry_ok:
  assumes "replay_ok s"
  shows "not_endless (get_next_entry H kd cs chk s)"
    and "get_next_entry H kd cs chk s = Inr (Some p, s') \<Longrightarrow> held s' p \<and> entries_left s' < entries_left s"
    and "get_next_entry H kd cs chk s = Inr (None, s') \<Longrightarrow> replay_ok s'"
proof -
  let ?g = "get_next_entry H kd cs chk s"
  let ?r = "if rr_queue_head (rr_queue s) = None then rr_fill_queue H s else Inr s"
  have "not_endless ?g \<and> (\<forall>p s'. ?g = Inr (Some p, s') \<longrightarrow> held s' p \<and> entries_left s' < entries_left s)
      \<and> (\<forall>s'. ?g = Inr (None, s') \<longrightarrow> replay_ok s')"
  proof (cases ?r)
    case (Inl x)
    then have "?g = Inl x" by (simp add: get_next_entry_def)
    moreover have "x \<noteq> Endless_loop"
      using Inl rr_fill_queue_advances(1) [OF assms, of H] by (auto split: if_splits)
    ultimately show ?thesis by simp
  next
    case (Inr s1)
    then have adv: "advances 0 s s1"
      using rr_fill_queue_advances(2) [OF assms] assms by (auto simp: advances_def split: if_splits)
    then have ok: "replay_ok s1" by (simp add: advances_def)
    let ?sk = "if kd \<noteq> RR_INTERRUPT_REQUEST \<and> kd \<noteq> RR_SKIPPED_CALL
              then skip_debug (q_fresh (rr_queue s1)) (rr_queue s1) else Inr (rr_queue s1)"
    have "length (q_entries (rr_queue s1)) \<le> q_fresh (rr_queue s1)"
    proof -
      from ok obtain ps rs fs where sh: "q_shape (rr_queue s1) ps rs fs" by (auto simp: replay_ok_def q_inv_def)
      then show ?thesis using q_shape_bound(2) [OF sh] by (simp add: q_entries_shape [OF sh])
    qed
    from skip_debug_advances [OF ok this] obtain q0 where
      q0: "skip_debug (q_fresh (rr_queue s1)) (rr_queue s1) = Inr q0" "advances 0 s1 (s1\<lparr>rr_queue := q0\<rparr>)" .
    have "advances 0 s1 (s1\<lparr>rr_queue := rr_queue s1\<rparr>)" using ok by (simp add: advances_def)
    then obtain q where q: "?sk = Inr q" "advances 0 s1 (s1\<lparr>rr_queue := q\<rparr>)"
      using q0 that by presburger
    let ?s2 = "s1\<lparr>rr_queue := q\<rparr>"
    have ok2: "replay_ok ?s2" using q(2) by (simp add: advances_def)
    consider (empty) "rr_queue_head (rr_queue s1) = None"
      | (dropped) "rr_queue_head (rr_queue s1) \<noteq> None" "rr_queue_head q = None"
      | (entry) "rr_queue_head (rr_queue s1) \<noteq> None" "rr_queue_head q \<noteq> None" by blast
    then show ?thesis
    proof cases
      case empty
      then have "?g = Inr (None, s1)" unfolding get_next_entry_def Inr bindR_simps by simp
      then show ?thesis using ok by simp
    next
      case dropped
      then have "queue_head_entry q = Inl Null_deref" by (simp add: queue_head_entry_def)
      with dropped(1) have "?g = Inl Null_deref"
        unfolding get_next_entry_def Inr bindR_simps q(1) by (simp add: Let_def)
      then show ?thesis by simp
    next
      case entry
      then have "rr_queue_head (rr_queue ?s2) \<noteq> None" by simp
      from queue_head_pop_inv [OF ok2 this] obtain e p q' where pop:
        "queue_head_entry q = Inr e" "queue_pop q = Inr (p, q')"
        "held (s1\<lparr>rr_queue := q'\<rparr>) p" "entries_left (s1\<lparr>rr_queue := q'\<rparr>) + 1 = entries_left ?s2"
        by auto
      have "?g = (if kind e \<noteq> kd \<or> chk \<and> callsite_loc e \<noteq> cs then Inr (None, ?s2)
          else bindR (point_check (rr_prog_point s1) e) (\<lambda>c.
            Inr (if c \<noteq> 0 then (None, ?s2) else (Some p, s1\<lparr>rr_queue := q'\<rparr>))))"
      proof -
        have "?g = (let s = ?s2 in bindR (queue_head_entry q) (\<lambda>e.
            if kind e \<noteq> kd then Inr (None, s)
            else if chk \<and> callsite_loc e \<noteq> cs then Inr (None, s)
            else bindR (point_check (rr_prog_point s) e) (\<lambda>c.
              if c \<noteq> 0 then Inr (None, s)
              else bindR (queue_pop q) (\<lambda>(p, q). Inr (Some p, s\<lparr>rr_queue := q\<rparr>)))))"
          unfolding get_next_entry_def Inr bindR_simps q(1) point_check_def by (rule if_not_P [OF entry(1)])
        also have "\<dots> = (if kind e \<noteq> kd \<or> chk \<and> callsite_loc e \<noteq> cs then Inr (None, ?s2)
          else bindR (point_check (rr_prog_point s1) e) (\<lambda>c.
            Inr (if c \<noteq> 0 then (None, ?s2) else (Some p, s1\<lparr>rr_queue := q'\<rparr>))))"
          unfolding Let_def pop(1,2) by (cases "point_check (rr_prog_point s1) e") simp_all
        finally show ?thesis .
      qed
      moreover have "not_endless (point_check (rr_prog_point s1) e)"
        by (simp add: point_check_def rr_prog_point_compare_def)
      moreover have "entries_left (s1\<lparr>rr_queue := q'\<rparr>) < entries_left s"
        using pop(4) adv q(2) by (simp add: advances_def)
      ultimately show ?thesis
        using pop(3) ok2 by (cases "point_check (rr_prog_point s1) e") auto
    qed
  qed
  then show "not_endless ?g" and "?g = Inr (Some p, s') \<Longrightarrow> held s' p \<and> entries_left s' < entries_left s"
    and "?g = Inr (None, s') \<Longrightarrow> replay_ok s'"
    by blast+
qed

lemma replay_skipped_call_ok:
  assumes "cbs_inv (cbs s)"
  shows "not_endless (replay_skipped_call M c s)"
    and "replay_skipped_call M c s = Inr s' \<Longrightarrow> \<exists>tr. s' = emit tr s"
proof -
  have "not_endless (replay_skipped_call M c s)
      \<and> (\<forall>s'. replay_skipped_call M c s = Inr s' \<longrightarrow> (\<exists>tr. s' = emit tr s))"
  proof (cases c)
    case (Call_cpu_mem_unmap a)
    have "emit b (emit a s) = emit (a @ b) s" for a b by (simp add: emit_def)
    with Call_cpu_mem_unmap show ?thesis
      by (auto simp: host_read_def Let_def split: prod.splits option.splits)
  qed (use assms in \<open>auto simp: pcb.run\<close>)
  then show "not_endless (replay_skipped_call M c s)"
    and "replay_skipped_call M c s = Inr s' \<Longrightarrow> \<exists>tr. s' = emit tr s" by blast+
qed

lemma recycle_held:
  assumes "held s p"
  obtains s' where "recycle p s = Inr s'" and "replay_ok s'" and "entries_left s' = entries_left s"
proof -
  from assms obtain ps rs fs where "q_shape (rr_queue s) ps rs (p # fs)" by (auto simp: held_def)
  from add_to_recycle_list_shape [OF this] obtain q where
    "add_to_recycle_list p (rr_queue s) = Inr q" "q_shape q ps (p # rs) fs"
    "q_entries q = q_entries (rr_queue s)" .
  with assms that [of "s\<lparr>rr_queue := q\<rparr>"] show ?thesis
    by (auto simp: recycle_def held_def replay_ok_def q_inv_def entries_left_def)
qed

lemma skipped_loop_not_endless:
  "replay_ok s \<Longrightarrow> entries_left s < n \<Longrightarrow> not_endless (skipped_loop H M n cs s)"
proof (induction n arbitrary: s)
  case 0
  then show ?case by simp
next
  case (Suc n)
  note g = get_next_entry_ok [OF Suc.prems(1), of H RR_SKIPPED_CALL cs False]
  have "not_endless (skipped_loop H M n cs s4)"
    if 1: "get_next_entry H RR_SKIPPED_CALL cs False s = Inr (Some p, s1)"
      and 2: "replay_skipped_call M c s1 = Inr s2" and 3: "recycle p s2 = Inr s3"
      and 4: "(if cs = RR_CALLSITE_MAIN_LOOP_WAIT \<and> rr_queue_head (rr_queue s3) = None
               then rr_fill_queue H s3 else Inr s3) = Inr s4" for p c s1 s2 s3 s4
  proof -
    from g(2) [OF 1] have h: "held s1 p" "entries_left s1 < entries_left s" by auto
    then have "cbs_inv (cbs s1)" by (simp add: held_def)
    from replay_skipped_call_ok(2) [OF this 2] obtain tr where "s2 = emit tr s1" ..
    with h have "held s2 p" "entries_left s2 < entries_left s"
      by (simp_all add: held_def entries_left_def)
    moreover from this(1) obtain s3' where "recycle p s2 = Inr s3'" "replay_ok s3'"
      "entries_left s3' = entries_left s2" by (rule recycle_held)
    ultimately have ok: "replay_ok s3" "entries_left s3 < entries_left s" using 3 by simp_all
    have "advances 0 s3 s4"
      using 4 ok rr_fill_queue_advances(2) [OF ok(1), of H s4] by (auto simp: advances_def split: if_splits)
    with ok(2) have "replay_ok s4" "entries_left s4 < entries_left s" by (simp_all add: advances_def)
    with Suc.prems(2) show ?thesis by (intro Suc.IH) auto
  qed
  note loop = this
  have held: "held s1 p" if "get_next_entry H RR_SKIPPED_CALL cs False s = Inr (Some p, s1)" for p s1
    using g(2) [OF that] by simp
  have turn: "not_endless (bindR (read_entry_at p (rr_queue s1)) (\<lambda>e.
      bindR (replay_skipped_call M (call_args (variant e)) s1) (\<lambda>s2.
      bindR (recycle p s2) (\<lambda>s3.
      bindR (if cs = RR_CALLSITE_MAIN_LOOP_WAIT \<and> rr_queue_head (rr_queue s3) = None
                then rr_fill_queue H s3 else Inr s3) (\<lambda>s4. skipped_loop H M n cs s4)))))"
    if 1: "get_next_entry H RR_SKIPPED_CALL cs False s = Inr (Some p, s1)" for p s1
  proof (intro not_endless_bindR)
    show "not_endless (read_entry_at p (rr_queue s1))"
      by (simp add: read_entry_at_def split: option.splits)
  next
    fix e show "not_endless (replay_skipped_call M (call_args (variant e)) s1)"
      using replay_skipped_call_ok(1) held [OF 1] by (simp add: held_def)
  next
    fix e s2 assume "replay_skipped_call M (call_args (variant e)) s1 = Inr s2"
    then have "held s2 p"
      using replay_skipped_call_ok(2) [of s1] held [OF 1] by (fastforce simp: held_def)
    then show "not_endless (recycle p s2)" by (rule recycle_held) simp
    fix s3 assume "recycle p s2 = Inr s3"
    moreover from \<open>held s2 p\<close> obtain s3' where "recycle p s2 = Inr s3'" "replay_ok s3'" by (rule recycle_held)
    ultimately have "replay_ok s3" by simp
    then show "not_endless (if cs = RR_CALLSITE_MAIN_LOOP_WAIT \<and> rr_queue_head (rr_queue s3) = None
        then rr_fill_queue H s3 else Inr s3)"
      using rr_fill_queue_advances(1) by simp
  qed (use loop [OF 1] in blast)
  show ?case
    unfolding skipped_loop.simps
  proof (rule not_endless_bindR [OF g(1)], clarify)
    fix r s1 assume "get_next_entry H RR_SKIPPED_CALL cs False s = Inr (r, s1)"
    then show "not_endless (case r of None \<Rightarrow> Inr s1
      | Some p \<Rightarrow> bindR (read_entry_at p (rr_queue s1)) (\<lambda>e.
          bindR (replay_skipped_call M (call_args (variant e)) s1) (\<lambda>s2.
          bindR (recycle p s2) (\<lambda>s3.
          bindR (if cs = RR_CALLSITE_MAIN_LOOP_WAIT \<and> rr_queue_head (rr_queue s3) = None
                    then rr_fill_queue H s3 else Inr s3) (\<lambda>s4. skipped_loop H M n cs s4)))))"
      using turn by (cases r) simp_all
  qed
qed

section \<open>Every replay function keeps the state well-formed\<close>

lemma recycle_ok: "held s p \<Longrightarrow> recycle p s = Inr s' \<Longrightarrow> replay_ok s'"
  by (metis recycle_held sum.inject(2))

lemma replay_input_ok:
  assumes "replay_ok s" and "replay_input H kd cs s = Inr (v, s')"
  shows "replay_ok s'"
proof -
  from assms(2) obtain p s1 where "get_next_entry H kd cs False s = Inr (Some p, s1)" "recycle p s1 = Inr s'"
    by (auto simp: replay_input_def split: option.splits)
  with get_next_entry_ok(2) [OF assms(1)] recycle_ok show ?thesis by blast
qed

lemma rr_replay_interrupt_request_ok:
  assumes "replay_ok s" and "rr_replay_interrupt_request H cs s = Inr (v, s')"
  shows "replay_ok s'"
proof -
  from assms(2) obtain r s1 where g: "get_next_entry H RR_INTERRUPT_REQUEST cs True s = Inr (r, s1)"
    and r: "case r of None \<Rightarrow> s' = s1
      | Some p \<Rightarrow> \<exists>s2. recycle p s1 = Inr s2 \<and> rr_fill_queue H s2 = Inr s'"
    by (auto simp: rr_replay_interrupt_request_def split: option.splits)
  show ?thesis
  proof (cases r)
    case None
    with g r get_next_entry_ok(3) [OF assms(1)] show ?thesis by fastforce
  next
    case (Some p)
    with r obtain s2 where s2: "recycle p s1 = Inr s2" "rr_fill_queue H s2 = Inr s'" by auto
    from g Some get_next_entry_ok(2) [OF assms(1)] have "held s1 p" by blast
    with s2(1) have "replay_ok s2" by (rule recycle_ok [rotated])
    from rr_fill_queue_advances(2) [OF this s2(2)] show ?thesis by (simp add: advances_def)
  qed
qed

lemma rr_replay_exit_request_ok:
  assumes "replay_ok s" and "rr_replay_exit_request H cs s = Inr (v, s')"
  shows "replay_ok s'"
proof -
  from assms(2) obtain r s1 where g: "get_next_entry H RR_EXIT_REQUEST cs False s = Inr (r, s1)"
    and r: "case r of None \<Rightarrow> s' = s1 | Some p \<Rightarrow> recycle p s1 = Inr s'"
    by (auto simp: rr_replay_exit_request_def split: option.splits)
  then show ?thesis
    using get_next_entry_ok(2,3) [OF assms(1)] recycle_ok by (cases r) fastforce+
qed

lemma rr_replay_debug_ok:
  assumes "replay_ok s" and "rr_replay_debug cs s = Inr s'"
  shows "replay_ok s'"
proof (cases "rr_queue_head (rr_queue s) = None")
  case True
  with assms show ?thesis by (simp add: rr_replay_debug_def)
next
  case False
  from queue_head_pop_inv [OF assms(1) False] obtain e p q where pop:
    "queue_head_entry (rr_queue s) = Inr e" "queue_pop (rr_queue s) = Inr (p, q)"
    "held (s\<lparr>rr_queue := q\<rparr>) p" .
  have "held ((emit tr s)\<lparr>rr_queue := q\<rparr>) p" for tr using pop(3) by (simp add: held_def)
  with False pop assms recycle_ok show ?thesis
    by (auto simp: rr_replay_debug_def Let_def split: if_splits)
qed

lemma skipped_loop_ok:
  "replay_ok s \<Longrightarrow> skipped_loop H M n cs s = Inr s' \<Longrightarrow> replay_ok s'"
proof (induction n arbitrary: s)
  case (Suc n)
  from Suc.prems(2) obtain r s1 where g: "get_next_entry H RR_SKIPPED_CALL cs False s = Inr (r, s1)"
    and r: "case r of None \<Rightarrow> s' = s1
      | Some p \<Rightarrow> \<exists>c s2 s3 s4. replay_skipped_call M c s1 = Inr s2 \<and> recycle p s2 = Inr s3
          \<and> (if cs = RR_CALLSITE_MAIN_LOOP_WAIT \<and> rr_queue_head (rr_queue s3) = None
             then rr_fill_queue H s3 else Inr s3) = Inr s4 \<and> skipped_loop H M n cs s4 = Inr s'"
    by (auto split: option.splits) blast
  show ?case
  proof (cases r)
    case None
    with g r get_next_entry_ok(3) [OF Suc.prems(1)] show ?thesis by fastforce
  next
    case (Some p)
    with r obtain c s2 s3 s4 where s2: "replay_skipped_call M c s1 = Inr s2" "recycle p s2 = Inr s3"
      and s4: "(if cs = RR_CALLSITE_MAIN_LOOP_WAIT \<and> rr_queue_head (rr_queue s3) = None
             then rr_fill_queue H s3 else Inr s3) = Inr s4" "skipped_loop H M n cs s4 = Inr s'" by auto
    from g Some get_next_entry_ok(2) [OF Suc.prems(1)] have h: "held s1 p" by blast
    then have "cbs_inv (cbs s1)" by (simp add: held_def)
    from replay_skipped_call_ok(2) [OF this s2(1)] obtain tr where "s2 = emit tr s1" ..
    with h have "held s2 p" by (simp add: held_def)
    from recycle_ok [OF this s2(2)] have ok: "replay_ok s3" .
    have "replay_ok s4"
      using s4(1) ok rr_fill_queue_advances(2) [OF ok, of H s4] by (auto simp: advances_def split: if_splits)
    from Suc.IH [OF this s4(2)] show ?thesis .
  qed
qed simp

end
