(* ===== verification/RR_Manage.thy ===== *)
theory RR_Manage
  imports RR_Record RR_Loops
begin

text \<open>
  The life of a recording and of a replay: creating and closing the log, beginning and ending
  (\<^verbatim>\<open>qemu/rr_log.c\<close>), the monitor commands and the main loop that carries them out
  (\<^verbatim>\<open>vl.c\<close>), and the functions that record or replay depending on the mode
  (\<^verbatim>\<open>rr_log_all.h\<close>). The state machine of the mode is a step relation whose reachable states
  keep \<open>rr_inv\<close>.
\<close>

section \<open>Path names\<close>

text \<open>\<^verbatim>\<open>basename\<close> and \<^verbatim>\<open>dirname\<close> of \<^verbatim>\<open>libgen.h\<close>; \<open>None\<close> is a NULL argument.\<close>

definition strip_slashes :: "string \<Rightarrow> string" where
  "strip_slashes s = rev (dropWhile (\<lambda>c. c = CHR ''/'') (rev s))"

fun basename :: "string option \<Rightarrow> string" where
  "basename None = ''.''"
| "basename (Some s) =
     (if s = '''' then ''.''
      else let t = strip_slashes s in
        if t = '''' then ''/'' else rev (takeWhile (\<lambda>c. c \<noteq> CHR ''/'') (rev t)))"

fun dirname :: "string option \<Rightarrow> string" where
  "dirname None = ''.''"
| "dirname (Some s) =
     (if s = '''' then ''.''
      else let t = strip_slashes s in
        if t = '''' then ''/''
        else if CHR ''/'' \<notin> set t then ''.''
        else let d = strip_slashes (rev (dropWhile (\<lambda>c. c \<noteq> CHR ''/'') (rev t))) in
          if d = '''' then ''/'' else d)"

definition rr_get_snapshot_file_name :: "string \<Rightarrow> string \<Rightarrow> nat \<Rightarrow> string" where
  "rr_get_snapshot_file_name rr_name rr_path len =
     take (len - 1) (rr_path @ ''/'' @ rr_name @ ''-rr-snp'')"

definition rr_get_nondet_log_file_name :: "string \<Rightarrow> string \<Rightarrow> nat \<Rightarrow> string" where
  "rr_get_nondet_log_file_name rr_name rr_path len =
     take (len - 1) (rr_path @ ''/'' @ rr_name @ ''-rr-nondet.log'')"

section \<open>Creating and closing the log\<close>

definition new_log :: "RR_log_type \<Rightarrow> string \<Rightarrow> FILE \<Rightarrow> RR_log" where
  "new_log t name f = \<lparr>log_type = t, last_prog_point = zero_prog_point, log_name = name,
     log_fp = Some f, log_size = 0, bytes_read = 0, current_item = zero_entry, item_number = 0\<rparr>"

definition rr_create_record_log :: "machine \<Rightarrow> string \<Rightarrow> rr_state \<Rightarrow> rr_exit + rr_state" where
  "rr_create_record_log M filename s =
     bindR (rr_assert (can_create M filename) ''rr_nondet_log->fp != NULL'') (\<lambda>_.
     bindR (log_write (prog_point_image zero_prog_point) (new_log RECORD filename fopen_w)) (\<lambda>l.
     Inr (s\<lparr>rr_nondet_log := Some l, disk := (disk s)(filename \<mapsto> [])\<rparr>)))"

definition rr_create_replay_log :: "string \<Rightarrow> rr_state \<Rightarrow> rr_exit + rr_state" where
  "rr_create_replay_log filename s =
     (case disk s filename of
        None \<Rightarrow> Inl (Assert_fail ''rr_nondet_log->fp != NULL'')
      | Some bs \<Rightarrow>
          bindR (log_read 24 ''fread(&(rr_nondet_log->last_prog_point), ...) == 1''
            ((new_log REPLAY filename (fopen_r bs))\<lparr>log_size := of_nat (length bs)\<rparr>)) (\<lambda>(pp, l).
          Inr (s\<lparr>rr_nondet_log := Some (bump 24 (l\<lparr>last_prog_point := prog_point_of pp\<rparr>))\<rparr>)))"

definition rr_destroy_log :: "rr_state \<Rightarrow> rr_exit + rr_state" where
  "rr_destroy_log s =
     bindR (the_log s) (\<lambda>l.
     case log_fp l of
       None \<Rightarrow> Inr (s\<lparr>rr_nondet_log := None\<rparr>)
     | Some f \<Rightarrow>
         if log_type l = RECORD then
           let f = fwrite (prog_point_image (last_prog_point l)) (rewind f)
           in Inr (s\<lparr>rr_nondet_log := None, disk := (disk s)(log_name l \<mapsto> f_bytes f)\<rparr>)
         else Inr (s\<lparr>rr_nondet_log := None\<rparr>))"

section \<open>Beginning and ending\<close>

definition rr_do_begin_record :: "machine \<Rightarrow> string option \<Rightarrow> rr_state \<Rightarrow> rr_exit + (int \<times> rr_state)" where
  "rr_do_begin_record M file_name_full s =
     (let rr_path = dirname file_name_full; rr_name = basename file_name_full in
      bindR (if rr_record_requested s = 2 then
               (case rr_snapshot_name s of
                  None \<Rightarrow> Inl Null_deref
                | Some snp \<Rightarrow>
                    let (ret, cpu) = load_vm M (effects s) snp (env s)
                    in Inr (ret, (emit [Load_vmstate snp] s)\<lparr>env := cpu, rr_snapshot_name := None\<rparr>))
             else Inr (-1, s)) (\<lambda>(snapshot_ret, s).
      let (snapshot_ret, s) =
            (if rr_record_requested s = 1 \<or> rr_record_requested s = 2 then
               let name = rr_get_snapshot_file_name rr_name rr_path 1024
               in (save_vm M (effects s) name, emit [Do_savevm_rr name] s)
             else (snapshot_ret, s))
      in
      bindR (rr_create_record_log M (rr_get_nondet_log_file_name rr_name rr_path 1024) s) (\<lambda>s.
      Inr (snapshot_ret, (rr_reset_state s)\<lparr>rr_mode := RR_RECORD\<rparr>))))"

definition rr_do_end_record :: "rr_state \<Rightarrow> rr_exit + rr_state" where
  "rr_do_end_record s =
     bindR (rr_record_end_of_log s) (\<lambda>s.
     bindR (rr_destroy_log s) (\<lambda>s.
     Inr (s\<lparr>rr_mode := RR_OFF\<rparr>)))"

definition rr_do_begin_replay ::
    "host \<Rightarrow> machine \<Rightarrow> string option \<Rightarrow> rr_state \<Rightarrow> rr_exit + (int \<times> rr_state)" where
  "rr_do_begin_replay H M file_name_full s =
     (let rr_path = dirname file_name_full; rr_name = basename file_name_full;
          snp = rr_get_snapshot_file_name rr_name rr_path 1024 in
      bindR (run_callbacks PANDA_CB_BEFORE_REPLAY_LOADVM (cbs s)) (\<lambda>cs.
      let s = emit (map Before_loadvm cs) s;
          (snapshot_ret, cpu) = load_vm M (effects s) snp (env s);
          s = (emit [Load_vmstate_rr snp] s)\<lparr>env := cpu\<rparr>
      in
      bindR (rr_create_replay_log (rr_get_nondet_log_file_name rr_name rr_path 1024) s) (\<lambda>s.
      bindR (rr_fill_queue H ((rr_reset_state s)\<lparr>rr_mode := RR_REPLAY\<rparr>)) (\<lambda>s.
      Inr (0, s)))))"

definition rr_do_end_replay :: "bool \<Rightarrow> rr_state \<Rightarrow> rr_exit + rr_state" where
  "rr_do_end_replay is_error s =
     bindR (free_recycle_list (rr_queue s)) (\<lambda>q.
     bindR (if rr_queue_head q = rr_queue_tail q \<and> rr_queue_head q \<noteq> None
            then bindR (queue_head_entry q) (\<lambda>e. Inr (kind e = RR_LAST)) else Inr False) (\<lambda>completed.
     bindR (free_queue q) (\<lambda>q.
     bindR (rr_destroy_log (emit [Replay_message
         (if completed then ''Replay completed successfully 2.''
          else if is_error then ''ERROR: replay failed!''
          else ''Replay terminated at user request.'')]
       (s\<lparr>rr_max_num_queue_entries := 0, rr_queue := q\<rparr>))) (\<lambda>s.
     if is_error then Inl Replay_abort else Inr (s\<lparr>rr_mode := RR_OFF\<rparr>)))))"

section \<open>Monitor commands\<close>

definition qmp_begin_record :: "string option \<Rightarrow> rr_state \<Rightarrow> rr_state" where
  "qmp_begin_record file_name s = s\<lparr>rr_record_requested := 1, rr_requested_name := file_name\<rparr>"

definition qmp_begin_record_from :: "string option \<Rightarrow> string option \<Rightarrow> rr_state \<Rightarrow> rr_state" where
  "qmp_begin_record_from snapshot file_name s =
     s\<lparr>rr_record_requested := 2, rr_snapshot_name := snapshot, rr_requested_name := file_name\<rparr>"

definition qmp_begin_replay :: "string option \<Rightarrow> rr_state \<Rightarrow> rr_state" where
  "qmp_begin_replay file_name s = s\<lparr>rr_replay_requested := True, rr_requested_name := file_name\<rparr>"

definition qmp_end_record :: "rr_state \<Rightarrow> rr_state" where
  "qmp_end_record s = (emit [Vm_stop] s)\<lparr>rr_end_record_requested := True\<rparr>"

definition qmp_end_replay :: "rr_state \<Rightarrow> rr_state" where
  "qmp_end_replay s = (emit [Vm_stop] s)\<lparr>rr_end_replay_requested := True\<rparr>"

definition panda_end_replay :: "rr_state \<Rightarrow> rr_state" where
  "panda_end_replay s = s\<lparr>rr_end_replay_requested := True\<rparr>"

section \<open>The main loop's part\<close>

definition do_record_request :: "machine \<Rightarrow> rr_state \<Rightarrow> rr_exit + rr_state" where
  "do_record_request M s =
     (if rr_record_requested s \<noteq> 0 then
        bindR (rr_do_begin_record M (rr_requested_name s) s) (\<lambda>(_, s).
        Inr (s\<lparr>rr_record_requested := 0\<rparr>))
      else Inr s)"

definition do_replay_request :: "host \<Rightarrow> machine \<Rightarrow> rr_state \<Rightarrow> rr_exit + rr_state" where
  "do_replay_request H M s =
     (if rr_replay_requested s then
        bindR (rr_do_begin_replay H M (rr_requested_name s) s) (\<lambda>(ret, s).
        Inr (if ret \<noteq> 0 then s else (emit [Quit_timers] s)\<lparr>rr_replay_requested := False\<rparr>))
      else Inr s)"

definition do_end_record_request :: "rr_state \<Rightarrow> rr_exit + rr_state" where
  "do_end_record_request s =
     (if rr_end_record_requested s \<and> rr_in_record s then
        bindR (rr_do_end_record s) (\<lambda>s.
        Inr (emit [Vm_start] ((rr_reset_state s)\<lparr>rr_end_record_requested := False\<rparr>)))
      else Inr s)"

definition do_end_replay_request :: "rr_state \<Rightarrow> rr_exit + rr_state" where
  "do_end_replay_request s =
     (if rr_end_replay_requested s \<and> rr_in_replay s then
        bindR (rr_do_end_replay False (emit [Init_timer_alarm] s)) (\<lambda>s.
        Inr (emit [Vm_stop] (s\<lparr>rr_end_replay_requested := False\<rparr>)))
      else Inr s)"

text \<open>One turn of \<^verbatim>\<open>main_loop\<close>, after \<^verbatim>\<open>main_loop_wait\<close>.\<close>

definition main_loop_requests :: "host \<Rightarrow> machine \<Rightarrow> rr_state \<Rightarrow> rr_exit + rr_state" where
  "main_loop_requests H M s =
     bindR (do_record_request M s) (\<lambda>s.
     bindR (do_replay_request H M s) (\<lambda>s.
     bindR (do_end_record_request s) do_end_replay_request))"

text \<open>What \<^verbatim>\<open>main\<close> does when the main loop is left.\<close>

definition main_exit :: "rr_state \<Rightarrow> rr_exit + rr_state" where
  "main_exit s =
     (let s = emit [Panda_cleanup] s in
      if rr_in_replay s then
        bindR (rr_do_end_replay False (emit [Init_timer_alarm] s)) (\<lambda>s.
        Inr (emit [Vm_stop] (s\<lparr>rr_end_replay_requested := False\<rparr>)))
      else if rr_in_record s then
        bindR (rr_do_end_record s) (\<lambda>s. Inr (s\<lparr>rr_end_record_requested := False\<rparr>))
      else Inr s)"

section \<open>Record or replay, by mode\<close>

definition rr_interrupt_request :: "host \<Rightarrow> u32 \<Rightarrow> rr_state \<Rightarrow> rr_exit + (u32 \<times> rr_state)" where
  "rr_interrupt_request H v s =
     (case rr_mode s of
        RR_RECORD \<Rightarrow> bindR (rr_record_interrupt_request (rr_skipped_callsite_location s) v s) (\<lambda>s. Inr (v, s))
      | RR_REPLAY \<Rightarrow> rr_replay_interrupt_request H (rr_skipped_callsite_location s) s
      | RR_OFF \<Rightarrow> Inr (v, s))"

definition rr_exit_request :: "host \<Rightarrow> u32 \<Rightarrow> rr_state \<Rightarrow> rr_exit + (u32 \<times> rr_state)" where
  "rr_exit_request H v s =
     (case rr_mode s of
        RR_RECORD \<Rightarrow> bindR (rr_record_exit_request (rr_skipped_callsite_location s) v s) (\<lambda>s. Inr (v, s))
      | RR_REPLAY \<Rightarrow> rr_replay_exit_request H (rr_skipped_callsite_location s) s
      | RR_OFF \<Rightarrow> Inr (v, s))"

definition rr_debug :: "rr_state \<Rightarrow> rr_exit + rr_state" where
  "rr_debug s =
     (case rr_mode s of
        RR_RECORD \<Rightarrow> rr_record_debug (rr_skipped_callsite_location s) s
      | RR_REPLAY \<Rightarrow> rr_replay_debug (rr_skipped_callsite_location s) s
      | RR_OFF \<Rightarrow> Inr s)"

definition rr_input_1 :: "host \<Rightarrow> u8 \<Rightarrow> rr_state \<Rightarrow> rr_exit + (u8 \<times> rr_state)" where
  "rr_input_1 H v s =
     (case rr_mode s of
        RR_RECORD \<Rightarrow> bindR (rr_record_input_1 (rr_skipped_callsite_location s) v s) (\<lambda>s. Inr (v, s))
      | RR_REPLAY \<Rightarrow> rr_replay_input_1 H (rr_skipped_callsite_location s) s
      | RR_OFF \<Rightarrow> Inr (v, s))"

definition rr_input_2 :: "host \<Rightarrow> u16 \<Rightarrow> rr_state \<Rightarrow> rr_exit + (u16 \<times> rr_state)" where
  "rr_input_2 H v s =
     (case rr_mode s of
        RR_RECORD \<Rightarrow> bindR (rr_record_input_2 (rr_skipped_callsite_location s) v s) (\<lambda>s. Inr (v, s))
      | RR_REPLAY \<Rightarrow> rr_replay_input_2 H (rr_skipped_callsite_location s) s
      | RR_OFF \<Rightarrow> Inr (v, s))"

definition rr_input_4 :: "host \<Rightarrow> u32 \<Rightarrow> rr_state \<Rightarrow> rr_exit + (u32 \<times> rr_state)" where
  "rr_input_4 H v s =
     (case rr_mode s of
        RR_RECORD \<Rightarrow> bindR (rr_record_input_4 (rr_skipped_callsite_location s) v s) (\<lambda>s. Inr (v, s))
      | RR_REPLAY \<Rightarrow> rr_replay_input_4 H (rr_skipped_callsite_location s) s
      | RR_OFF \<Rightarrow> Inr (v, s))"

definition rr_input_8 :: "host \<Rightarrow> u64 \<Rightarrow> rr_state \<Rightarrow> rr_exit + (u64 \<times> rr_state)" where
  "rr_input_8 H v s =
     (case rr_mode s of
        RR_RECORD \<Rightarrow> bindR (rr_record_input_8 (rr_skipped_callsite_location s) v s) (\<lambda>s. Inr (v, s))
      | RR_REPLAY \<Rightarrow> rr_replay_input_8 H (rr_skipped_callsite_location s) s
      | RR_OFF \<Rightarrow> Inr (v, s))"

text \<open>
  The macro \<^verbatim>\<open>RR_DO_RECORD_OR_REPLAY\<close>; the three pieces of code it is given are functions that
  return a value (the variable they set) with the state.
\<close>

definition RR_DO_RECORD_OR_REPLAY ::
    "host \<Rightarrow> machine \<Rightarrow> (rr_state \<Rightarrow> rr_exit + ('a \<times> rr_state)) \<Rightarrow> ('a \<Rightarrow> rr_state \<Rightarrow> rr_exit + ('a \<times> rr_state))
     \<Rightarrow> (rr_state \<Rightarrow> rr_exit + ('a \<times> rr_state)) \<Rightarrow> RR_callsite_id \<Rightarrow> rr_state \<Rightarrow> rr_exit + ('a \<times> rr_state)" where
  "RR_DO_RECORD_OR_REPLAY H M ACTION RECORD_ACTION REPLAY_ACTION LOCATION s =
     (case rr_mode s of
        RR_RECORD \<Rightarrow>
          if rr_record_in_progress s then ACTION s
          else
            bindR (ACTION (rr_set_program_point
              (s\<lparr>rr_record_in_progress := True, rr_skipped_callsite_location := LOCATION\<rparr>))) (\<lambda>(v, s).
            bindR (RECORD_ACTION v s) (\<lambda>(v, s).
            Inr (v, s\<lparr>rr_record_in_progress := False\<rparr>)))
      | RR_REPLAY \<Rightarrow>
          bindR (rr_replay_skipped_calls H M
            (rr_set_program_point (s\<lparr>rr_skipped_callsite_location := LOCATION\<rparr>))) REPLAY_ACTION
      | RR_OFF \<Rightarrow> ACTION s)"

section \<open>Recording, from beginning to end\<close>

text \<open>The names a session uses.\<close>

definition log_file :: "string option \<Rightarrow> string" where
  "log_file n = rr_get_nondet_log_file_name (basename n) (dirname n) 1024"

definition snapshot_file :: "string option \<Rightarrow> string" where
  "snapshot_file n = rr_get_snapshot_file_name (basename n) (dirname n) 1024"

lemma rr_reset_state_simps [simp]:
  "rr_prog_point (rr_reset_state s) = zero_prog_point"
  "rr_nondet_log (rr_reset_state s) = rr_nondet_log s"
  "rr_queue (rr_reset_state s) = rr_queue s"
  "cbs (rr_reset_state s) = cbs s"
  "disk (rr_reset_state s) = disk s"
  "rr_mode (rr_reset_state s) = rr_mode s"
  "rr_please_flush_tb (rr_reset_state s)"
  "rr_guest_instr_count (env (rr_reset_state s)) = 0"
  "\<not> rr_record_in_progress (rr_reset_state s)"
  "rr_skipped_callsite_location (rr_reset_state s) = 0"
  "effects (rr_reset_state s) = effects s"
  "n_alloc (rr_reset_state s) = n_alloc s"
  by (simp_all add: rr_reset_state_def rr_clear_rr_guest_instr_count_def rr_flush_tb_on_def)

lemma rr_do_begin_record_1:
  assumes "rr_record_requested s = 1" and "can_create M (log_file n)"
  obtains s' where "rr_do_begin_record M n s = Inr (save_vm M (effects s) (snapshot_file n), s')"
    and "recording s' (log_file n) (prog_point_image zero_prog_point) zero_prog_point"
    and "rr_queue s' = rr_queue s" and "cbs s' = cbs s" and "rr_prog_point s' = zero_prog_point"
    and "\<And>f. f \<noteq> log_file n \<Longrightarrow> disk s' f = disk s f"
proof -
  let ?f = "fwrite (prog_point_image zero_prog_point) fopen_w"
  let ?l = "(new_log RECORD (log_file n) fopen_w)\<lparr>log_fp := Some ?f\<rparr>"
  let ?s = "(rr_reset_state ((emit [Do_savevm_rr (snapshot_file n)] s)\<lparr>rr_nondet_log := Some ?l,
     disk := (disk s)(log_file n \<mapsto> [])\<rparr>))\<lparr>rr_mode := RR_RECORD\<rparr>"
  have "log_write (prog_point_image zero_prog_point) (new_log RECORD (log_file n) fopen_w) = Inr ?l"
    by (simp add: log_write_def new_log_def)
  then have "rr_do_begin_record M n s = Inr (save_vm M (effects s) (snapshot_file n), ?s)"
    using assms by (simp add: rr_do_begin_record_def rr_create_record_log_def log_file_def snapshot_file_def
        Let_def emit_def)
  moreover have "recording ?s (log_file n) (prog_point_image zero_prog_point) zero_prog_point"
    by (simp add: recording_def new_log_def) (simp add: fopen_w_def at_end_def fwrite_def)
  ultimately show ?thesis
    by (rule that) simp_all
qed

text \<open>The header is overwritten with the last program point when the log is closed.\<close>

lemma rr_do_end_record_writes:
  assumes "recording s name bs pp" and "24 \<le> length bs"
  obtains s' where "rr_do_end_record s = Inr s'" and "rr_mode s' = RR_OFF" and "rr_nondet_log s' = None"
    and "disk s' = (disk s)(name \<mapsto> prog_point_image (rr_prog_point s) @ drop 24 bs
           @ entry_image \<lparr>prog_point = rr_prog_point s, callsite_loc = RR_CALLSITE_LAST, variant = Last_entry\<rparr>)"
    and "rr_queue s' = rr_queue s" and "cbs s' = cbs s"
proof -
  let ?e = "\<lparr>prog_point = rr_prog_point s, callsite_loc = RR_CALLSITE_LAST, variant = Last_entry\<rparr>"
  from record_item_recording [OF assms(1), of Last_entry RR_CALLSITE_LAST] obtain s1 where
    s1: "record_item Last_entry RR_CALLSITE_LAST s = Inr s1" "same_but_log s s1"
      "recording s1 name (bs @ entry_image ?e) (rr_prog_point s)" by auto
  from s1(3) obtain l f where l: "rr_nondet_log s1 = Some l" "log_type l = RECORD" "log_name l = name"
    "last_prog_point l = rr_prog_point s" "log_fp l = Some f" "f_bytes f = bs @ entry_image ?e"
    by (auto simp: recording_def)
  let ?f = "fwrite (prog_point_image (rr_prog_point s)) (rewind f)"
  have f: "f_bytes ?f = prog_point_image (rr_prog_point s) @ drop 24 bs @ entry_image ?e"
    using assms(2) l(6) by (simp add: fwrite_def rewind_def)
  let ?s = "s1\<lparr>rr_nondet_log := None, disk := (disk s1)(name \<mapsto> f_bytes ?f), rr_mode := RR_OFF\<rparr>"
  have "rr_destroy_log s1 = Inr (s1\<lparr>rr_nondet_log := None, disk := (disk s1)(name \<mapsto> f_bytes ?f)\<rparr>)"
    using l by (simp add: rr_destroy_log_def the_log_def Let_def)
  then have run: "rr_do_end_record s = Inr ?s"
    using s1(1) by (simp add: rr_do_end_record_def rr_record_end_of_log_def)
  from s1(2) obtain lg where sl: "s1 = s\<lparr>rr_nondet_log := lg\<rparr>" by (auto simp: same_but_log_def)
  show ?thesis
    by (rule that [OF run]) (simp_all add: f [symmetric] sl)
qed

section \<open>Beginning a replay\<close>

lemma rr_create_replay_log_holds:
  assumes "disk s name = Some (hdr @ concat (map entry_image es))" and "length hdr = 24"
    and "length (hdr @ concat (map entry_image es)) < 2 ^ 64" and "\<forall>e \<in> set es. replayable e"
  obtains l where "rr_create_replay_log name s = Inr (s\<lparr>rr_nondet_log := Some l\<rparr>)" and "log_holds l es"
    and "last_prog_point l = prog_point_of hdr"
proof -
  let ?bs = "hdr @ concat (map entry_image es)"
  let ?l = "(new_log REPLAY name (fopen_r ?bs))\<lparr>log_size := of_nat (length ?bs)\<rparr>"
  let ?l' = "bump 24 ((log_advance 24 ?l)\<lparr>last_prog_point := prog_point_of hdr\<rparr>)"
  have "log_rest ?l = ?bs" by (simp add: log_rest_def new_log_def fopen_r_def f_rest_def)
  then have rd: "log_read 24 e ?l = Inr (hdr, log_advance 24 ?l)" for e
    using assms(2) by (intro log_read_rest) simp_all
  have "log_rest ?l' = concat (map entry_image es)"
  proof -
    have "log_rest (x\<lparr>last_prog_point := y\<rparr>) = log_rest x" for x y by (simp add: log_rest_def)
    then show ?thesis using \<open>log_rest ?l = ?bs\<close> assms(2) by simp
  qed
  moreover have "log_fp ?l' \<noteq> None" by (simp add: log_advance_def new_log_def)
  moreover have "log_size ?l' - bytes_read ?l' = of_nat (length (concat (map entry_image es)))"
    using assms(2) by (simp add: new_log_def)
  ultimately have "log_holds ?l' es"
    using assms(3,4) by (simp add: log_holds_def) (simp add: new_log_def)
  with that [of ?l'] rd assms(1) show ?thesis by (simp add: rr_create_replay_log_def)
qed

lemma rr_do_begin_replay_holds:
  assumes "disk s (log_file n) = Some (hdr @ concat (map entry_image es))" and "length hdr = 24"
    and "length (hdr @ concat (map entry_image es)) < 2 ^ 64" and "\<forall>e \<in> set es. replayable e"
    and "q_inv (rr_queue s)" and "q_entries (rr_queue s) = []" and "cbs_inv (cbs s)"
  obtains s' qs ls where "rr_do_begin_replay H M n s = Inr (0, s')" and "replaying H s' qs ls"
    and "qs @ ls = es" and "rr_prog_point s' = zero_prog_point" and "cbs s' = cbs s"
    and "effects s' = effects s @ map Before_loadvm (called (cb_view (cbs s) PANDA_CB_BEFORE_REPLAY_LOADVM))
          @ [Load_vmstate_rr (snapshot_file n)]"
    and "rr_num_instr_before_next_interrupt s' =
          fill_distance (batch (Suc RR_MAX_QUEUE_LEN) es) (s\<lparr>rr_prog_point := zero_prog_point\<rparr>)"
proof -
  let ?s1 = "emit (map Before_loadvm (called (cb_view (cbs s) PANDA_CB_BEFORE_REPLAY_LOADVM))) s"
  let ?cpu = "snd (load_vm M (effects ?s1) (snapshot_file n) (env s))"
  let ?s2 = "(emit [Load_vmstate_rr (snapshot_file n)] ?s1)\<lparr>env := ?cpu\<rparr>"
  have "disk ?s2 (log_file n) = Some (hdr @ concat (map entry_image es))" using assms(1) by (simp add: emit_def)
  from rr_create_replay_log_holds [OF this assms(2-4)] obtain l where
    l: "rr_create_replay_log (log_file n) ?s2 = Inr (?s2\<lparr>rr_nondet_log := Some l\<rparr>)" "log_holds l es" .
  let ?s3 = "(rr_reset_state (?s2\<lparr>rr_nondet_log := Some l\<rparr>))\<lparr>rr_mode := RR_REPLAY\<rparr>"
  have "replaying H ?s3 [] es"
    unfolding replaying_def using assms(5,6) l(2) by simp
  from rr_fill_queue_replaying [OF this] obtain s' where
    s': "rr_fill_queue H ?s3 = Inr s'" "fills ?s3 s'"
      "replaying H s' (batch (Suc RR_MAX_QUEUE_LEN) es) (drop (length (batch (Suc RR_MAX_QUEUE_LEN) es)) es)"
      "rr_num_instr_before_next_interrupt s' = fill_distance (batch (Suc RR_MAX_QUEUE_LEN) es) ?s3" .
  have run: "rr_do_begin_replay H M n s = Inr (0, s')"
    using l(1) s'(1) assms(7)
    by (simp add: rr_do_begin_replay_def pcb.run snapshot_file_def log_file_def Let_def case_prod_beta emit_def)
  show ?thesis
  proof (rule that [OF run s'(3)])
    show "batch (Suc RR_MAX_QUEUE_LEN) es @ drop (length (batch (Suc RR_MAX_QUEUE_LEN) es)) es = es"
      by (rule batch_prefix)
    show "rr_num_instr_before_next_interrupt s' =
          fill_distance (batch (Suc RR_MAX_QUEUE_LEN) es) (s\<lparr>rr_prog_point := zero_prog_point\<rparr>)"
      unfolding s'(4) by (simp add: fill_distance_def)
        (simp add: rr_reset_state_def rr_clear_rr_guest_instr_count_def rr_flush_tb_on_def emit_def)
  qed (use s'(2) in \<open>simp_all add: fills_def\<close>)
qed

section \<open>Ending a replay\<close>

lemma queue_single_iff:
  assumes "q_inv q"
  shows "rr_queue_head q = rr_queue_tail q \<and> rr_queue_head q \<noteq> None \<longleftrightarrow> (\<exists>e. q_entries q = [e])"
proof -
  from assms obtain ps rs fs where sh: "q_shape q ps rs fs" by (auto simp: q_inv_def)
  have "q_entries q = map (fst \<circ> the \<circ> q_heap q) ps" by (rule q_entries_shape [OF sh])
  moreover have "rr_queue_head q = first_opt ps" "rr_queue_tail q = (if ps = [] then None else Some (last ps))"
    using sh by (cases ps; simp add: q_shape_def)+
  moreover have "distinct ps" using sh by (simp add: q_shape_def)
  ultimately show ?thesis
    by (cases ps) (auto split: if_splits)
qed

lemma rr_do_end_replay_ok:
  assumes "replay_ok s"
  obtains s' where "rr_do_end_replay False s = Inr s'" and "rr_mode s' = RR_OFF" and "rr_nondet_log s' = None"
    and "q_inv (rr_queue s')" and "q_entries (rr_queue s') = []" and "recycle_list (rr_queue s') = None"
    and "cbs s' = cbs s" and "disk s' = disk s" and "rr_max_num_queue_entries s' = 0"
    and "effects s' = effects s @ [Replay_message
          (if map kind (q_entries (rr_queue s)) = [RR_LAST] then ''Replay completed successfully 2.''
           else ''Replay terminated at user request.'')]"
proof -
  from assms obtain l where l: "rr_nondet_log s = Some l" "log_type l = REPLAY" "q_inv (rr_queue s)"
    by (auto simp: replay_ok_def)
  from free_recycle_list_inv [OF l(3)] obtain q1 where
    q1: "free_recycle_list (rr_queue s) = Inr q1" "q_inv q1" "q_entries q1 = q_entries (rr_queue s)"
      "recycle_list q1 = None" .
  have fin: "(if rr_queue_head q1 = rr_queue_tail q1 \<and> rr_queue_head q1 \<noteq> None
      then bindR (queue_head_entry q1) (\<lambda>e. Inr (kind e = RR_LAST)) else Inr False)
      = Inr (map kind (q_entries (rr_queue s)) = [RR_LAST])"
  proof (cases "\<exists>e. q_entries q1 = [e]")
    case True
    then obtain e where e: "q_entries q1 = [e]" by blast
    from q1(2) obtain ps rs fs where "q_shape q1 ps rs fs" by (auto simp: q_inv_def)
    from queue_head_entry_shape [OF this e] show ?thesis
      using queue_single_iff [OF q1(2)] e q1(3) by auto
  next
    case False
    moreover from False have "map kind (q_entries (rr_queue s)) \<noteq> [RR_LAST]" using q1(3) by auto
    moreover from False have "\<not> (rr_queue_head q1 = rr_queue_tail q1 \<and> rr_queue_head q1 \<noteq> None)"
      using queue_single_iff [OF q1(2)] by blast
    ultimately show ?thesis by (simp only: if_False simp_thms)
  qed
  from free_queue_inv [OF q1(2)] obtain q2 where
    q2: "free_queue q1 = Inr q2" "q_inv q2" "q_entries q2 = []" .
  have q2r: "recycle_list q2 = None" using q2(1) q1(4) by (auto simp: free_queue_def)
  let ?m = "Replay_message (if map kind (q_entries (rr_queue s)) = [RR_LAST]
     then ''Replay completed successfully 2.'' else ''Replay terminated at user request.'')"
  let ?s = "(emit [?m] (s\<lparr>rr_max_num_queue_entries := 0, rr_queue := q2\<rparr>))\<lparr>rr_nondet_log := None, rr_mode := RR_OFF\<rparr>"
  have destroy: "rr_destroy_log (emit [?m] (s\<lparr>rr_max_num_queue_entries := 0, rr_queue := q2\<rparr>))
      = Inr ((emit [?m] (s\<lparr>rr_max_num_queue_entries := 0, rr_queue := q2\<rparr>))\<lparr>rr_nondet_log := None\<rparr>)"
    using l by (simp add: rr_destroy_log_def the_log_def split: option.splits)
  have "rr_do_end_replay False s = Inr ?s"
    unfolding rr_do_end_replay_def q1(1) bindR_simps fin q2(1) if_False destroy by simp
  then show ?thesis
    by (rule that) (simp_all add: q2 q2r emit_def)
qed

section \<open>The state machine of the mode\<close>

text \<open>
  The invariant of the globals. Sessions are begun when the mode is off: the requests are
  honoured by \<^verbatim>\<open>main_loop\<close> without a check (see the last lemma).
\<close>

definition rr_inv :: "rr_state \<Rightarrow> bool" where
  "rr_inv s \<longleftrightarrow> q_inv (rr_queue s) \<and> cbs_inv (cbs s)
     \<and> (case rr_mode s of
          RR_OFF \<Rightarrow> rr_nondet_log s = None \<and> q_entries (rr_queue s) = []
        | RR_RECORD \<Rightarrow> q_entries (rr_queue s) = []
            \<and> (\<exists>name bs pp. recording s name bs pp \<and> 24 \<le> length bs)
        | RR_REPLAY \<Rightarrow> (\<exists>l. rr_nondet_log s = Some l \<and> log_type l = REPLAY))"

lemma rr_inv_REPLAY: "rr_mode s = RR_REPLAY \<Longrightarrow> rr_inv s \<longleftrightarrow> replay_ok s"
  by (auto simp: rr_inv_def replay_ok_def)

inductive rr_step :: "host \<Rightarrow> machine \<Rightarrow> rr_state \<Rightarrow> rr_state \<Rightarrow> bool" for H M where
  begin_record: "rr_mode s = RR_OFF \<Longrightarrow> rr_do_begin_record M n s = Inr (r, s') \<Longrightarrow> rr_step H M s s'"
| begin_replay: "rr_mode s = RR_OFF \<Longrightarrow> rr_do_begin_replay H M n s = Inr (r, s') \<Longrightarrow> rr_step H M s s'"
| end_record: "rr_mode s = RR_RECORD \<Longrightarrow> rr_do_end_record s = Inr s' \<Longrightarrow> rr_step H M s s'"
| end_replay: "rr_mode s = RR_REPLAY \<Longrightarrow> rr_do_end_replay False s = Inr s' \<Longrightarrow> rr_step H M s s'"
| recorded: "rr_mode s = RR_RECORD \<Longrightarrow> writable_variant v \<Longrightarrow> record_item v cs s = Inr s' \<Longrightarrow> rr_step H M s s'"
| input: "rr_mode s = RR_REPLAY \<Longrightarrow> replay_input H kd cs s = Inr (v, s') \<Longrightarrow> rr_step H M s s'"
| interrupt: "rr_mode s = RR_REPLAY \<Longrightarrow> rr_replay_interrupt_request H cs s = Inr (w, s') \<Longrightarrow> rr_step H M s s'"
| exit_req: "rr_mode s = RR_REPLAY \<Longrightarrow> rr_replay_exit_request H cs s = Inr (w, s') \<Longrightarrow> rr_step H M s s'"
| debug: "rr_mode s = RR_REPLAY \<Longrightarrow> rr_replay_debug cs s = Inr s' \<Longrightarrow> rr_step H M s s'"
| skipped: "rr_mode s = RR_REPLAY \<Longrightarrow> rr_replay_skipped_calls_internal H M cs s = Inr s' \<Longrightarrow> rr_step H M s s'"
| point: "rr_step H M s (rr_set_program_point s)"
| request: "s' = qmp_begin_record f s \<or> s' = qmp_begin_record_from t f s \<or> s' = qmp_begin_replay f s
    \<or> s' = qmp_end_record s \<or> s' = qmp_end_replay s \<or> s' = panda_end_replay s \<Longrightarrow> rr_step H M s s'"

inductive_cases rr_stepE: "rr_step H M s s'"

lemma rr_create_record_log_recording:
  assumes "rr_create_record_log M name s = Inr s1"
  shows "recording ((rr_reset_state s1)\<lparr>rr_mode := RR_RECORD\<rparr>) name (prog_point_image zero_prog_point) zero_prog_point"
    and "rr_queue s1 = rr_queue s" and "cbs s1 = cbs s"
proof -
  from assms have s1: "s1 = s\<lparr>rr_nondet_log := Some ((new_log RECORD name fopen_w)\<lparr>log_fp :=
      Some (fwrite (prog_point_image zero_prog_point) fopen_w)\<rparr>), disk := (disk s)(name \<mapsto> [])\<rparr>"
    by (auto simp: rr_create_record_log_def log_write_def new_log_def)
  show "recording ((rr_reset_state s1)\<lparr>rr_mode := RR_RECORD\<rparr>) name (prog_point_image zero_prog_point) zero_prog_point"
    by (simp add: s1 recording_def new_log_def) (simp add: fopen_w_def at_end_def fwrite_def)
  show "rr_queue s1 = rr_queue s" "cbs s1 = cbs s" by (simp_all add: s1)
qed

lemma rr_do_begin_record_inv:
  assumes "rr_inv s" and "rr_mode s = RR_OFF" and "rr_do_begin_record M n s = Inr (r, s')"
  shows "rr_inv s'"
proof -
  from assms(3) obtain s0 s1 where cr: "rr_create_record_log M (log_file n) s0 = Inr s1"
    and q: "rr_queue s0 = rr_queue s" "cbs s0 = cbs s"
    and s': "s' = (rr_reset_state s1)\<lparr>rr_mode := RR_RECORD\<rparr>"
    by (auto simp: rr_do_begin_record_def Let_def log_file_def split: if_splits option.splits prod.splits)
  note c = rr_create_record_log_recording [OF cr]
  have "\<exists>name bs pp. recording s' name bs pp \<and> 24 \<le> length bs"
    using c(1) s' by (intro exI [of _ "log_file n"] exI [of _ "prog_point_image zero_prog_point"]) auto
  with assms(1,2) c(2,3) q show ?thesis by (simp add: rr_inv_def s')
qed

lemma rr_do_begin_replay_inv:
  assumes "rr_inv s" and "rr_mode s = RR_OFF" and "rr_do_begin_replay H M n s = Inr (r, s')"
  shows "rr_inv s'"
proof -
  from assms(3) obtain s0 s1 where cr: "rr_create_replay_log (log_file n) s0 = Inr s1"
    and q: "rr_queue s0 = rr_queue s" "cbs s0 = cbs s"
    and fl: "rr_fill_queue H ((rr_reset_state s1)\<lparr>rr_mode := RR_REPLAY\<rparr>) = Inr s'"
    by (auto simp: rr_do_begin_replay_def Let_def log_file_def split: prod.splits)
  from cr obtain l where s1: "s1 = s0\<lparr>rr_nondet_log := Some l\<rparr>" "log_type l = REPLAY"
    by (auto simp: rr_create_replay_log_def new_log_def log_read_def Let_def split: option.splits prod.splits if_splits)
  have "replay_ok ((rr_reset_state s1)\<lparr>rr_mode := RR_REPLAY\<rparr>)"
    using assms(1,2) q s1 by (simp add: replay_ok_def rr_inv_def)
  from rr_fill_queue_advances(2) [OF this fl] have "replay_ok s'" by (simp add: advances_def)
  then show ?thesis using rr_inv_REPLAY [of s'] by (simp add: replay_ok_def)
qed

lemma rr_step_inv:
  assumes "rr_step H M s s'" and "rr_inv s"
  shows "rr_inv s'"
  using assms
proof cases
  case (begin_record n r)
  with assms(2) rr_do_begin_record_inv show ?thesis by blast
next
  case (begin_replay n r)
  with assms(2) rr_do_begin_replay_inv show ?thesis by blast
next
  case end_record
  with assms(2) obtain name bs pp where "recording s name bs pp" "24 \<le> length bs"
    by (auto simp: rr_inv_def)
  then obtain s1 where "rr_do_end_record s = Inr s1" "rr_mode s1 = RR_OFF" "rr_nondet_log s1 = None"
    "rr_queue s1 = rr_queue s" "cbs s1 = cbs s" by (rule rr_do_end_record_writes)
  with end_record assms(2) show ?thesis by (simp add: rr_inv_def)
next
  case end_replay
  with assms(2) have "replay_ok s" using rr_inv_REPLAY by blast
  then obtain s1 where "rr_do_end_replay False s = Inr s1" "rr_mode s1 = RR_OFF" "rr_nondet_log s1 = None"
    "q_inv (rr_queue s1)" "q_entries (rr_queue s1) = []" "cbs s1 = cbs s" by (rule rr_do_end_replay_ok)
  with end_replay assms(2) show ?thesis by (simp add: rr_inv_def)
next
  case (recorded v cs)
  with assms(2) obtain name bs pp where r: "recording s name bs pp" "24 \<le> length bs"
    by (auto simp: rr_inv_def)
  from record_item_recording [OF r(1) recorded(2), of cs] recorded(3) r(2) have
    "\<exists>bs'. recording s' name bs' (rr_prog_point s) \<and> 24 \<le> length bs'" "same_but_log s s'" by auto
  moreover from this(2) obtain lg where "s' = s\<lparr>rr_nondet_log := lg\<rparr>" by (auto simp: same_but_log_def)
  ultimately show ?thesis using assms(2) recorded(1) by (auto simp: rr_inv_def)
next
  case (input kd cs v)
  then show ?thesis using assms(2) replay_input_ok rr_inv_REPLAY by (metis replay_ok_def)
next
  case (interrupt cs w)
  then show ?thesis using assms(2) rr_replay_interrupt_request_ok rr_inv_REPLAY by (metis replay_ok_def)
next
  case (exit_req cs w)
  then show ?thesis using assms(2) rr_replay_exit_request_ok rr_inv_REPLAY by (metis replay_ok_def)
next
  case (debug cs)
  then show ?thesis using assms(2) rr_replay_debug_ok rr_inv_REPLAY by (metis replay_ok_def)
next
  case (skipped cs)
  then show ?thesis using assms(2) skipped_loop_ok rr_inv_REPLAY
    by (metis replay_ok_def rr_replay_skipped_calls_internal_def)
next
  case point
  with assms(2) show ?thesis by (auto simp: rr_inv_def recording_def split: RR_mode.splits)
next
  case (request f t)
  with assms(2) show ?thesis
    by (auto simp: rr_inv_def recording_def qmp_begin_record_def qmp_begin_record_from_def
        qmp_begin_replay_def qmp_end_record_def qmp_end_replay_def panda_end_replay_def split: RR_mode.splits)
qed

lemma rr_steps_inv: "(rr_step H M)\<^sup>*\<^sup>* s s' \<Longrightarrow> rr_inv s \<Longrightarrow> rr_inv s'"
  by (induction rule: rtranclp_induct) (blast intro: rr_step_inv)+

text \<open>
  A recording begun during a replay leaves the replay's queue behind, and the next replay
  fails the assertion at the start of \<^verbatim>\<open>rr_fill_queue\<close>.
\<close>

lemma begin_record_in_replay:
  assumes "rr_inv s" and "rr_mode s = RR_REPLAY" and "q_entries (rr_queue s) \<noteq> []"
    and "rr_record_requested s = 1" and "can_create M (log_file n)"
  shows "\<exists>s1 s2. rr_do_begin_record M n s = Inr (save_vm M (effects s) (snapshot_file n), s1)
    \<and> rr_do_end_record s1 = Inr s2
    \<and> rr_do_begin_replay H M n s2 = Inl (Assert_fail ''rr_queue_head == NULL && rr_queue_tail == NULL'')"
proof -
  from rr_do_begin_record_1 [OF assms(4,5)] obtain s1 where
    s1: "rr_do_begin_record M n s = Inr (save_vm M (effects s) (snapshot_file n), s1)"
      "recording s1 (log_file n) (prog_point_image zero_prog_point) zero_prog_point"
      "rr_queue s1 = rr_queue s" "cbs s1 = cbs s" .
  have "24 \<le> length (prog_point_image zero_prog_point)" by simp
  from rr_do_end_record_writes [OF s1(2) this] obtain s2 where
    s2: "rr_do_end_record s1 = Inr s2" "rr_queue s2 = rr_queue s1" "cbs s2 = cbs s1"
      and dk: "disk s2 = (disk s1)(log_file n \<mapsto> prog_point_image (rr_prog_point s1)
        @ drop 24 (prog_point_image zero_prog_point)
        @ entry_image \<lparr>prog_point = rr_prog_point s1, callsite_loc = RR_CALLSITE_LAST, variant = Last_entry\<rparr>)" .
  let ?e = "\<lparr>prog_point = rr_prog_point s1, callsite_loc = RR_CALLSITE_LAST, variant = Last_entry\<rparr>"
  let ?s1 = "emit (map Before_loadvm (called (cb_view (cbs s2) PANDA_CB_BEFORE_REPLAY_LOADVM))) s2"
  let ?s2 = "(emit [Load_vmstate_rr (snapshot_file n)] ?s1)\<lparr>env :=
     snd (load_vm M (effects ?s1) (snapshot_file n) (env s2))\<rparr>"
  have "disk ?s2 (log_file n) = Some (prog_point_image (rr_prog_point s1) @ concat (map entry_image [?e]))"
    by (simp add: emit_def dk)
  from rr_create_replay_log_holds [OF this] obtain l where
    l: "rr_create_replay_log (log_file n) ?s2 = Inr (?s2\<lparr>rr_nondet_log := Some l\<rparr>)"
    by (auto simp: entry_image_def)
  have "rr_queue_head (rr_queue s2) \<noteq> None"
    using assms(1,3) s1(3) s2(2) q_inv_head by (simp add: rr_inv_def)
  then have "rr_fill_queue H ((rr_reset_state (?s2\<lparr>rr_nondet_log := Some l\<rparr>))\<lparr>rr_mode := RR_REPLAY\<rparr>)
      = Inl (Assert_fail ''rr_queue_head == NULL && rr_queue_tail == NULL'')"
    by (auto simp: rr_fill_queue_def rr_assert_def)
  moreover have "cbs_inv (cbs s2)" using assms(1) s1(4) s2(3) by (simp add: rr_inv_def)
  ultimately have "rr_do_begin_replay H M n s2
      = Inl (Assert_fail ''rr_queue_head == NULL && rr_queue_tail == NULL'')"
    using l by (simp add: rr_do_begin_replay_def pcb.run snapshot_file_def log_file_def Let_def
        case_prod_beta emit_def)
  with s1(1) s2(1) show ?thesis by blast
qed

section \<open>Properties\<close>


definition a_cpu :: CPUState where
  "a_cpu = \<lparr>eip = 4096, regs_ecx = 0, rr_guest_instr_count = 0\<rparr>"


text \<open>
  C6: The loop that carries out skipped calls ends on every log, whatever bytes the log holds:
  every turn consumes an entry of the queue or of the log, and the number of those left bounds
  the turns.
\<close>

theorem skipped_calls_terminate:
  assumes "rr_inv s" and "rr_mode s = RR_REPLAY"
  shows "rr_replay_skipped_calls_internal H M cs s \<noteq> Inl Endless_loop"
  using skipped_loop_not_endless [of s "Suc (entries_left s)" H M cs] assms rr_inv_REPLAY [of s]
  by (simp add: rr_replay_skipped_calls_internal_def not_endless_def)

text \<open>A log of bytes that no recording wrote.\<close>

theorem skipped_calls_terminate_witness:
  "rr_replay_skipped_calls_internal a_host a_machine 3
     ((init_rr a_cpu Map.empty)\<lparr>rr_mode := RR_REPLAY, rr_nondet_log := Some
        ((new_log REPLAY ''x'' (fopen_r (replicate 100 255)))\<lparr>log_size := 100\<rparr>)\<rparr>) \<noteq> Inl Endless_loop"
  by (rule skipped_calls_terminate)
    (simp_all add: rr_inv_def init_rr_def new_log_def)



text \<open>
  A recording requested during a replay is begun by the main loop without a check: it leaves the
  queue of the replay behind, so that after the recording has ended the next replay of it fails
  the assertion that the queue is empty.
\<close>

theorem record_during_replay_breaks_replay:
  assumes "rr_inv s" and "rr_mode s = RR_REPLAY" and "q_entries (rr_queue s) \<noteq> []"
    and "rr_record_requested s = 1" and "can_create M (log_file n)"
  shows "\<exists>s1 s2. rr_do_begin_record M n s = Inr (save_vm M (effects s) (snapshot_file n), s1)
    \<and> rr_do_end_record s1 = Inr s2
    \<and> rr_do_begin_replay H M n s2 = Inl (Assert_fail ''rr_queue_head == NULL && rr_queue_tail == NULL'')"
  using assms by (rule begin_record_in_replay)

theorem record_during_replay_breaks_replay_witness:
  "\<exists>s s1 s2. rr_fill_queue a_host (opened [an_entry 5 1 Debug_entry]) = Inr s
    \<and> rr_do_begin_record a_machine (Some ''y'') (qmp_begin_record (Some ''y'') s) = Inr (0, s1)
    \<and> rr_do_end_record s1 = Inr s2
    \<and> rr_do_begin_replay a_host a_machine (Some ''y'') s2
        = Inl (Assert_fail ''rr_queue_head == NULL && rr_queue_tail == NULL'')"
proof -
  let ?es = "[an_entry 5 1 Debug_entry]"
  have b: "batch (Suc RR_MAX_QUEUE_LEN) ?es = ?es" by (simp add: is_stop_def batch_Nil_iff)
  have "replaying a_host (opened ?es) [] ?es"
    by (rule opened_replaying) (simp_all add: entry_image_def)
  from rr_fill_queue_replaying [OF this] obtain s where
    s: "rr_fill_queue a_host (opened ?es) = Inr s" "fills (opened ?es) s"
      "replaying a_host s ?es (drop (length ?es) ?es)" unfolding b .
  let ?s = "qmp_begin_record (Some ''y'') s"
  have "rr_mode ?s = RR_REPLAY" "q_entries (rr_queue ?s) \<noteq> []" "rr_inv ?s"
    using s(2,3) by (auto simp: replaying_def qmp_begin_record_def rr_inv_def fills_def log_holds_def)
  from record_during_replay_breaks_replay [OF this(3,1,2), of a_machine "Some ''y''" a_host] s(1) show ?thesis
    by (auto simp: qmp_begin_record_def a_machine_def)
qed

lemma recording_set_program_point [simp]:
  "recording (rr_set_program_point (s\<lparr>rr_record_in_progress := b, rr_skipped_callsite_location := c\<rparr>)) name bs p
     = recording s name bs p"
  "recording (s\<lparr>rr_record_in_progress := b\<rparr>) name bs p = recording s name bs p"
  by (simp_all add: recording_def)

text \<open>
  C12: A recorded action is logged once. While recording, an action wrapped by
  \<^verbatim>\<open>RR_DO_RECORD_OR_REPLAY\<close> that reaches another wrapped action before it gets its value leaves
  exactly one entry in the log, with the outer call site and the program point at the start of
  the action; the nesting flag is clear again afterwards.
\<close>

theorem nested_action_logged_once:
  assumes "recording s name bs p" and "\<not> rr_record_in_progress s"
  shows "\<exists>s'. RR_DO_RECORD_OR_REPLAY H M
        (\<lambda>s. RR_DO_RECORD_OR_REPLAY H M (\<lambda>s. Inr (v, s))
           (\<lambda>v s. bindR (rr_record_input_4 (rr_skipped_callsite_location s) v s) (\<lambda>s. Inr (v, s))) rep inner s)
        (\<lambda>v s. bindR (rr_record_input_4 (rr_skipped_callsite_location s) v s) (\<lambda>s. Inr (v, s))) rep outer s = Inr (v, s')
    \<and> recording s' name (bs @ entry_image \<lparr>prog_point = rr_prog_point (rr_set_program_point s),
         callsite_loc = outer, variant = Input_4 v\<rparr>) (rr_prog_point (rr_set_program_point s))
    \<and> \<not> rr_record_in_progress s'"
proof -
  let ?s = "rr_set_program_point (s\<lparr>rr_record_in_progress := True, rr_skipped_callsite_location := outer\<rparr>)"
  have pp: "rr_prog_point ?s = rr_prog_point (rr_set_program_point s)"
    by (simp add: rr_set_program_point_def rr_set_prog_point_def)
  have m: "rr_mode s = RR_RECORD" "rr_mode ?s = RR_RECORD" using assms(1) by (simp_all add: recording_def)
  have "recording ?s name bs p" using assms(1) by simp
  from record_item_recording [OF this, of "Input_4 v" outer] obtain s1 where
    "record_item (Input_4 v) outer ?s = Inr s1"
    "recording s1 name (bs @ entry_image \<lparr>prog_point = rr_prog_point ?s, callsite_loc = outer, variant = Input_4 v\<rparr>)
      (rr_prog_point ?s)" by auto
  then show ?thesis
    using assms(2) m unfolding pp by (simp add: RR_DO_RECORD_OR_REPLAY_def rr_record_input_4_def)
qed

text \<open>
  C13: During a replay the wrapped action is not run, whatever it would do: if the next entry of the
  log is the recorded result of this call site at this program point, the wrapper returns that
  result and consumes exactly that entry.
\<close>

theorem replayed_action_not_run:
  assumes "replaying H s qs ls" and "qs @ ls = e # es" and "variant e = Input_4 v" and "callsite_loc e = loc"
    and "prog_point e = rr_prog_point (rr_set_program_point s)"
  shows "\<exists>s' qs' ls'. RR_DO_RECORD_OR_REPLAY H M act rec
      (\<lambda>s. rr_replay_input_4 H (rr_skipped_callsite_location s) s) loc s = Inr (v, s')
    \<and> replaying H s' qs' ls' \<and> qs' @ ls' = es"
proof -
  let ?s = "rr_set_program_point (s\<lparr>rr_skipped_callsite_location := loc\<rparr>)"
  have pp: "rr_prog_point ?s = prog_point e"
    using assms(5) by (simp add: rr_set_program_point_def rr_set_prog_point_def)
  have r: "replaying H ?s qs ls" using assms(1) by (simp add: replaying_def)
  have "no_skip RR_SKIPPED_CALL e" "\<not> wanted RR_SKIPPED_CALL loc False e"
    using assms(3) by (simp_all add: no_skip_def wanted_def)
  from get_next_entry_refused [OF r assms(2) this(1) disjI1 [OF this(2)]] obtain s1 qs1 ls1 where
    1: "get_next_entry H RR_SKIPPED_CALL loc False ?s = Inr (None, s1)" "fills ?s s1"
      "replaying H s1 qs1 ls1" "qs1 @ ls1 = e # es" .
  have "at_point s1 e" using 1(2) pp by (simp add: at_point_def point_check_def fills_def)
  moreover have "is_input (kind e)" using assms(3) by (simp add: is_input_def)
  ultimately obtain s2 qs2 ls2 where
    "replay_input H RR_INPUT_4 loc s1 = Inr (Input_4 v, s2)" "replaying H s2 qs2 ls2" "qs2 @ ls2 = es"
    using replay_input_head [OF 1(3,4), of loc] assms(3,4) by (metis variant_kind.simps(3))
  moreover have "rr_mode s = RR_REPLAY" "rr_skipped_callsite_location s1 = loc"
    using assms(1) 1(2) by (simp_all add: replaying_def fills_def)
  ultimately show ?thesis
    using 1(1) by (auto simp: RR_DO_RECORD_OR_REPLAY_def rr_replay_skipped_calls_def
        rr_replay_skipped_calls_internal_def rr_replay_input_4_def)
qed

theorem replayed_action_not_run_witness:
  "\<exists>s'. RR_DO_RECORD_OR_REPLAY a_host a_machine (\<lambda>s. Inl Null_deref) (\<lambda>v s. Inl Null_deref)
      (\<lambda>s. rr_replay_input_4 a_host (rr_skipped_callsite_location s) s) 7
      (opened [(an_entry 5 7 (Input_4 3))\<lparr>prog_point := zero_prog_point\<rparr>]) = Inr (3, s')"
proof -
  let ?e = "(an_entry 5 7 (Input_4 3))\<lparr>prog_point := zero_prog_point\<rparr>"
  have "replaying a_host (opened [?e]) [] [?e]"
    by (rule opened_replaying) (simp_all add: entry_image_def)
  moreover have "rr_prog_point (rr_set_program_point (opened [?e])) = zero_prog_point"
    by (simp add: rr_set_program_point_def opened_def init_rr_def)
  ultimately show ?thesis
    using replayed_action_not_run [of a_host "opened [?e]" "[]" "[?e]" ?e "[]" 3 7 a_machine
        "\<lambda>s. Inl Null_deref" "\<lambda>v s. Inl Null_deref"] by auto
qed

theorem nested_action_logged_once_witness:
  "\<exists>s'. RR_DO_RECORD_OR_REPLAY a_host a_machine
        (\<lambda>s. RR_DO_RECORD_OR_REPLAY a_host a_machine (\<lambda>s. Inr (3, s))
           (\<lambda>v s. bindR (rr_record_input_4 (rr_skipped_callsite_location s) v s) (\<lambda>s. Inr (v, s))) (\<lambda>s. Inr (0, s)) 1 s)
        (\<lambda>v s. bindR (rr_record_input_4 (rr_skipped_callsite_location s) v s) (\<lambda>s. Inr (v, s))) (\<lambda>s. Inr (0, s)) 2
        example_recording = Inr (3, s')"
proof -
  have "recording example_recording ''x'' [] zero_prog_point" "\<not> rr_record_in_progress example_recording"
    by (simp_all add: recording_def example_recording_def example_log_def init_rr_def) (simp add: fopen_w_def)
  from nested_action_logged_once [OF this] show ?thesis by blast
qed

end
