(* ===== verification/Panda_Args.thy ===== *)
theory Panda_Args
  imports RR_Manage "HOL-Library.Sublist"
begin

text \<open>
  The options of plugins: the command line option \<^verbatim>\<open>-panda\<close> (\<^verbatim>\<open>qemu/vl.c\<close>), the table of
  arguments it fills, and the functions with which a plugin reads its own (\<^verbatim>\<open>panda_get_args\<close>,
  \<^verbatim>\<open>panda_parse_*\<close>, \<^verbatim>\<open>str_split\<close> of \<^verbatim>\<open>qemu/panda_plugin.c\<close>). A C string is the list of its
  characters without the terminator; a buffer that code writes into keeps its terminators.
\<close>

section \<open>C strings\<close>

abbreviation (input) NUL :: char where "NUL \<equiv> CHR 0x00"

text \<open>The string that starts at an offset of a buffer.\<close>

definition c_str :: "string \<Rightarrow> nat \<Rightarrow> string" where
  "c_str buf off = takeWhile (\<lambda>c. c \<noteq> NUL) (drop off buf)"

text \<open>
  \<^verbatim>\<open>strchr\<close> followed by writing a terminator at the character found: the string before it, and
  the string after it if it was found.
\<close>

definition cut_at :: "char \<Rightarrow> string \<Rightarrow> string \<times> string option" where
  "cut_at c s = (takeWhile (\<lambda>x. x \<noteq> c) s,
     case dropWhile (\<lambda>x. x \<noteq> c) s of [] \<Rightarrow> None | _ # r \<Rightarrow> Some r)"

lemma cut_at_shorter: "cut_at c s = (a, Some r) \<Longrightarrow> length r < length s"
  using length_dropWhile_le [of "\<lambda>x. x \<noteq> c" s] by (auto simp: cut_at_def split: list.splits)

lemma cut_at_none [simp]: "c \<notin> set s \<Longrightarrow> cut_at c s = (s, None)"
proof -
  assume "c \<notin> set s"
  then have "\<forall>x \<in> set s. x \<noteq> c" by auto
  then have "takeWhile (\<lambda>x. x \<noteq> c) s = s" "dropWhile (\<lambda>x. x \<noteq> c) s = []"
    by (simp_all only: takeWhile_eq_all_conv dropWhile_eq_Nil_conv)
  then show ?thesis unfolding cut_at_def by (simp only: list.case)
qed

lemma cut_at_found [simp]: "c \<notin> set s \<Longrightarrow> cut_at c (s @ c # r) = (s, Some r)"
proof -
  assume "c \<notin> set s"
  then have "\<forall>x \<in> set s. x \<noteq> c" by auto
  then show ?thesis by (simp add: cut_at_def takeWhile_append2 dropWhile_append2)
qed

section \<open>The table of arguments\<close>

definition MAX_PANDA_PLUGINS :: nat where "MAX_PANDA_PLUGINS = 16"
definition MAX_PANDA_PLUGIN_ARGS :: nat where "MAX_PANDA_PLUGIN_ARGS = 32"

text \<open>
  The rows of \<^verbatim>\<open>panda_argv\<close> in use. Every row is written once, on memory that is zero, so the
  255 characters \<^verbatim>\<open>strncpy\<close> copies are terminated.
\<close>

definition panda_add_arg :: "string \<Rightarrow> nat \<Rightarrow> string list \<Rightarrow> rr_exit + (bool \<times> string list)" where
  "panda_add_arg arg arglen panda_argv =
     (if arglen > 255 then Inr (False, panda_argv)
      else if length panda_argv \<ge> MAX_PANDA_PLUGIN_ARGS then Inl Out_of_bounds
      else Inr (True, panda_argv @ [take 255 arg]))"

section \<open>The command line option\<close>

record panda_env =
  PANDA_PLUGIN_DIR :: "string option"
  qemu_file :: string

definition panda_plugin_path :: "panda_env \<Rightarrow> string \<Rightarrow> string" where
  "panda_plugin_path E plugin_name =
     (case PANDA_PLUGIN_DIR E of
        Some plugin_dir \<Rightarrow> take 1023 (plugin_dir @ ''/panda_'' @ plugin_name @ ''.so'')
      | None \<Rightarrow> take 1023 (dirname (Some (qemu_file E)) @ ''/panda_plugins/panda_'' @ plugin_name @ ''.so''))"

text \<open>The inner loop: one argument for every option of a plugin.\<close>

function add_options :: "string \<Rightarrow> string \<Rightarrow> string list \<Rightarrow> rr_exit + string list" where
  "add_options plugin_start opt_start panda_argv =
     (case cut_at CHR '','' opt_start of (opt, opt_end) \<Rightarrow>
      let arg_str = take 254 (plugin_start @ '':'' @ opt) in
      bindR (panda_add_arg arg_str (length arg_str) panda_argv) (\<lambda>(_, panda_argv).
      case opt_end of
        None \<Rightarrow> Inr panda_argv
      | Some opt_start \<Rightarrow> add_options plugin_start opt_start panda_argv))"
  by pat_completeness auto
termination
  by (relation "measure (\<lambda>(_, s, _). length s)") (auto dest!: cut_at_shorter [OF sym])

function panda_option :: "panda_env \<Rightarrow> string \<Rightarrow> string list \<Rightarrow> string list \<Rightarrow> rr_exit + (string list \<times> string list)" where
  "panda_option E plugin_start panda_argv panda_plugin_files =
     (case cut_at CHR '';'' plugin_start of (this_plugin, plugin_end) \<Rightarrow>
      case cut_at CHR '':'' this_plugin of (name, opt_list) \<Rightarrow>
      bindR (case opt_list of None \<Rightarrow> Inr panda_argv | Some os \<Rightarrow> add_options name os panda_argv) (\<lambda>panda_argv.
      if length panda_plugin_files \<ge> MAX_PANDA_PLUGINS then Inl Out_of_bounds
      else
        let panda_plugin_files = panda_plugin_files @ [panda_plugin_path E name] in
        case plugin_end of
          None \<Rightarrow> Inr (panda_argv, panda_plugin_files)
        | Some plugin_start \<Rightarrow> panda_option E plugin_start panda_argv panda_plugin_files))"
  by pat_completeness auto
termination
  by (relation "measure (\<lambda>(_, s, _, _). length s)") (auto dest!: cut_at_shorter [OF sym])

declare add_options.simps [simp del] panda_option.simps [simp del]

section \<open>What a plugin reads\<close>

record panda_arg =
  argptr :: string
  arg_key :: string
  arg_value :: string

text \<open>
  The scan of one argument: every colon is overwritten by a terminator and the key starts
  after it; at the first equals sign the value starts and the scan stops.
\<close>

function scan_arg :: "nat \<Rightarrow> string \<Rightarrow> nat option \<Rightarrow> string \<times> nat option \<times> nat option" where
  "scan_arg j buf k =
     (if j < length buf \<and> j < 256 \<and> buf ! j \<noteq> NUL then
        if buf ! j = CHR '':'' then scan_arg (Suc j) (buf[j := NUL]) (Some (Suc j))
        else if buf ! j = CHR ''='' then (buf[j := NUL], k, Some (Suc j))
        else scan_arg (Suc j) buf k
      else (buf, k, None))"
  by pat_completeness auto
termination
  by (relation "measure (\<lambda>(j, _, _). 256 - j)") auto

declare scan_arg.simps [simp del]

definition split_arg :: "string \<Rightarrow> panda_arg option" where
  "split_arg arg =
     (case scan_arg 0 arg None of
        (buf, None, v) \<Rightarrow> None
      | (buf, Some k, v) \<Rightarrow> Some \<lparr>argptr = buf, arg_key = c_str buf k,
          arg_value = (case v of None \<Rightarrow> '''' | Some v \<Rightarrow> c_str buf v)\<rparr>)"

fun split_args :: "string list \<Rightarrow> panda_arg list option" where
  "split_args [] = Some []"
| "split_args (arg # argv) =
     (case split_arg arg of
        None \<Rightarrow> None
      | Some a \<Rightarrow> map_option (Cons a) (split_args argv))"

text \<open>\<^verbatim>\<open>strncmp(name, arg, strlen(name)) == 0\<close>: the name is a prefix of the argument.\<close>

definition panda_get_args :: "string \<Rightarrow> string list \<Rightarrow> panda_arg list option" where
  "panda_get_args plugin_name panda_argv =
     (let own = filter (prefix plugin_name) panda_argv
      in if own = [] then None else split_args own)"

definition find_arg :: "string \<Rightarrow> panda_arg list \<Rightarrow> string option" where
  "find_arg argname args = map_option arg_value (find (\<lambda>a. arg_key a = argname) args)"

definition panda_parse_string :: "panda_arg list option \<Rightarrow> string \<Rightarrow> string \<Rightarrow> string" where
  "panda_parse_string args argname defval =
     (case args of
        None \<Rightarrow> defval
      | Some args \<Rightarrow> (case find_arg argname args of None \<Rightarrow> defval | Some v \<Rightarrow> v))"

definition panda_parse_bool :: "panda_arg list option \<Rightarrow> string \<Rightarrow> bool" where
  "panda_parse_bool args argname =
     (case args of
        None \<Rightarrow> False
      | Some args \<Rightarrow>
          (case find_arg argname args of
             None \<Rightarrow> False
           | Some val \<Rightarrow> \<not> (val = ''false'' \<or> val = ''no'')))"

section \<open>Numbers\<close>

text \<open>
  \<^verbatim>\<open>strtoull(s, NULL, 0)\<close> of the C library: white space, a sign, the base from the prefix,
  the digits; a value out of range is the largest one, a minus sign negates modulo \<open>2 ^ 64\<close>.
\<close>

definition is_space :: "char \<Rightarrow> bool" where
  "is_space c \<longleftrightarrow> of_char c \<in> {9, 10, 11, 12, 13, 32 :: nat}"

definition digit_value :: "char \<Rightarrow> nat" where
  "digit_value c =
     (let n = of_char c :: nat in
      if 48 \<le> n \<and> n \<le> 57 then n - 48
      else if 97 \<le> n \<and> n \<le> 122 then n - 87
      else if 65 \<le> n \<and> n \<le> 90 then n - 55
      else 36)"

definition number_of_digits :: "nat \<Rightarrow> string \<Rightarrow> nat" where
  "number_of_digits base s =
     foldl (\<lambda>n c. n * base + digit_value c) 0 (takeWhile (\<lambda>c. digit_value c < base) s)"

definition strip_base :: "string \<Rightarrow> nat \<times> string" where
  "strip_base s =
     (if take 1 s \<noteq> ''0'' then (10, s)
      else if take 1 (drop 1 s) \<in> {''x'', ''X''} \<and> drop 2 s \<noteq> [] \<and> digit_value (s ! 2) < 16 then (16, drop 2 s)
      else (8, s))"

definition strtoull :: "string \<Rightarrow> u64" where
  "strtoull s =
     (let s = dropWhile is_space s;
          neg = (take 1 s = ''-'');
          s = (if take 1 s = ''-'' \<or> take 1 s = ''+'' then drop 1 s else s);
          n = (case strip_base s of (base, ds) \<Rightarrow> number_of_digits base ds)
      in if n \<ge> 2 ^ 64 then - 1 else if neg then - of_nat n else of_nat n)"

definition parse_number :: "(u64 \<Rightarrow> 'a) \<Rightarrow> panda_arg list option \<Rightarrow> string \<Rightarrow> 'a \<Rightarrow> 'a" where
  "parse_number conv args argname defval =
     (case args of
        None \<Rightarrow> defval
      | Some args \<Rightarrow> (case find_arg argname args of None \<Rightarrow> defval | Some v \<Rightarrow> conv (strtoull v)))"

definition panda_parse_ulong :: "panda_arg list option \<Rightarrow> string \<Rightarrow> u64 \<Rightarrow> u64" where
  "panda_parse_ulong = parse_number (\<lambda>n. n)"

definition panda_parse_uint32 :: "panda_arg list option \<Rightarrow> string \<Rightarrow> u32 \<Rightarrow> u32" where
  "panda_parse_uint32 = parse_number ucast"

definition panda_parse_uint64 :: "panda_arg list option \<Rightarrow> string \<Rightarrow> u64 \<Rightarrow> u64" where
  "panda_parse_uint64 = parse_number (\<lambda>n. n)"

section \<open>Splitting a value\<close>

text \<open>\<^verbatim>\<open>strtok\<close>, called until it returns NULL: the maximal runs without the delimiter.\<close>

function strtok_all :: "char \<Rightarrow> string \<Rightarrow> string list" where
  "strtok_all d s =
     (case dropWhile (\<lambda>c. c = d) s of
        [] \<Rightarrow> []
      | c # r \<Rightarrow> (c # takeWhile (\<lambda>x. x \<noteq> d) r) # strtok_all d (dropWhile (\<lambda>x. x \<noteq> d) r))"
  by pat_completeness auto
termination
proof (relation "measure (\<lambda>(d, s). length s)")
  fix d s c r
  assume "dropWhile (\<lambda>c. c = d) s = c # r"
  then have "Suc (length r) \<le> length s" by (metis length_Cons length_dropWhile_le)
  then have "length (dropWhile (\<lambda>x. x \<noteq> d) r) < length s"
    using length_dropWhile_le [of "\<lambda>x. x \<noteq> d" r] by linarith
  then show "((d, dropWhile (\<lambda>x. x \<noteq> d) r), d, s) \<in> measure (\<lambda>(d, s). length s)" by simp
qed simp

declare strtok_all.simps [simp del]

text \<open>
  The size of the array: one place for each delimiter, one for a trailing token (there is none
  if the string ends with the delimiter; without any delimiter the comparison is with NULL and
  holds), one for the end.
\<close>

definition split_count :: "string \<Rightarrow> char \<Rightarrow> nat" where
  "split_count a_str a_delim =
     length (filter (\<lambda>c. c = a_delim) a_str)
     + (if a_delim \<in> set a_str \<and> last a_str = a_delim then 0 else 1) + 1"

definition str_split :: "string \<Rightarrow> char \<Rightarrow> rr_exit + string list" where
  "str_split a_str a_delim =
     (let count = split_count a_str a_delim;
          tokens = strtok_all a_delim a_str
      in bindR (rr_assert (length tokens \<le> count) ''idx < count'') (\<lambda>_.
         bindR (rr_assert (length tokens = count - 1) ''idx == count - 1'') (\<lambda>_.
         Inr tokens)))"


section \<open>The scan of an argument, without pointers\<close>

definition after_last :: "char \<Rightarrow> string \<Rightarrow> string" where
  "after_last c s = rev (takeWhile (\<lambda>x. x \<noteq> c) (rev s))"

lemma after_last_Cons: "after_last c (x # s) = (if c \<in> set s then after_last c s else if x = c then s else x # s)"
proof (cases "c \<in> set s")
  case True
  then have "c \<in> set (rev s)" by simp
  then show ?thesis using True by (simp add: after_last_def takeWhile_append1)
next
  case False
  then have "\<forall>y \<in> set (rev s). y \<noteq> c" by auto
  then have "takeWhile (\<lambda>y. y \<noteq> c) (rev s @ [x]) = rev s @ takeWhile (\<lambda>y. y \<noteq> c) [x]"
    by (intro takeWhile_append2) auto
  then show ?thesis using False by (simp add: after_last_def)
qed

lemma after_last_notin: "c \<notin> set s \<Longrightarrow> after_last c s = s"
  by (induction s) (auto simp: after_last_Cons after_last_def)

lemma after_last_notin_set: "c \<notin> set (after_last c s)"
  unfolding after_last_def by (metis set_rev set_takeWhileD)

lemma after_last_suffix: "\<exists>a. s = a @ after_last c s \<and> (c \<in> set s \<longrightarrow> a \<noteq> [])"
proof (induction s)
  case Nil
  then show ?case by (simp add: after_last_def)
next
  case (Cons x s)
  then obtain a where "s = a @ after_last c s" "c \<in> set s \<longrightarrow> a \<noteq> []" by blast
  then show ?case
    by (cases "c \<in> set s") (auto simp: after_last_Cons intro: exI [of _ "x # a"] exI [of _ "[x]"])
qed

lemma length_after_last: "length (after_last c s) \<le> length s"
  using after_last_suffix [of s c] by (metis le_add2 length_append)

definition wiped :: "string \<Rightarrow> string" where
  "wiped s = map (\<lambda>c. if c = CHR '':'' then NUL else c) s"

definition key_part :: "string \<Rightarrow> string" where
  "key_part s = takeWhile (\<lambda>c. c \<noteq> CHR ''='') s"

definition value_part :: "string \<Rightarrow> string" where
  "value_part s = dropWhile (\<lambda>c. c \<noteq> CHR ''='') s"

lemma part_Cons [simp]:
  "key_part (c # s) = (if c = CHR ''='' then [] else c # key_part s)"
  "value_part (c # s) = (if c = CHR ''='' then c # s else value_part s)"
  by (simp_all add: key_part_def value_part_def)

lemma part_Nil [simp]: "key_part [] = []" "value_part [] = []"
  by (simp_all add: key_part_def value_part_def)

lemma key_value_parts: "key_part s @ value_part s = s"
  by (simp add: key_part_def value_part_def)

lemma scan_arg_parts:
  assumes "NUL \<notin> set b" and "length a + length b \<le> 256"
  shows "scan_arg (length a) (a @ b) k =
    (a @ wiped (key_part b) @ (case value_part b of [] \<Rightarrow> [] | _ # r \<Rightarrow> NUL # r),
     if CHR '':'' \<in> set (key_part b)
       then Some (length a + length (key_part b) - length (after_last CHR '':'' (key_part b))) else k,
     if value_part b = [] then None else Some (Suc (length a + length (key_part b))))"
  using assms
proof (induction b arbitrary: a k)
  case Nil
  then show ?case by (simp add: scan_arg.simps [of "length a"] wiped_def)
next
  case (Cons c b)
  have b: "NUL \<notin> set b" "c \<noteq> NUL" "length a < 256" using Cons.prems by auto
  have at: "(a @ c # b) ! length a = c" "length a < length (a @ c # b)" by simp_all
  note step = scan_arg.simps [of "length a" "a @ c # b" k, unfolded at(1)]
  have len: "length (a @ [d]) + length b \<le> 256" for d :: char using Cons.prems(2) by simp
  note IH = Cons.IH [OF b(1) len]
  consider "c = CHR '':''" | "c = CHR ''=''" | "c \<noteq> CHR '':''" "c \<noteq> CHR ''=''" by blast
  then show ?case
  proof cases
    case 1
    have "scan_arg (length a) (a @ c # b) k = scan_arg (length (a @ [NUL])) ((a @ [NUL]) @ b) (Some (Suc (length a)))"
      using step b 1 at by (simp add: list_update_append)
    also note IH
    finally show ?thesis
      using 1 length_after_last [of "CHR '':''" "key_part b"]
      by (simp add: wiped_def after_last_Cons after_last_notin split: list.splits)
  next
    case 2
    then show ?thesis using step b at by (simp add: list_update_append wiped_def)
  next
    case 3
    have "scan_arg (length a) (a @ c # b) k = scan_arg (length (a @ [c])) ((a @ [c]) @ b) k"
      using step b 3 at by simp
    also note IH
    finally show ?thesis
      using 3 length_after_last [of "CHR '':''" "key_part b"]
      by (simp add: wiped_def after_last_Cons after_last_notin Suc_diff_le split: list.splits)
  qed
qed

lemma wiped_id: "CHR '':'' \<notin> set s \<Longrightarrow> wiped s = s"
  by (auto simp: wiped_def intro: map_idI)

lemma c_str_at: "NUL \<notin> set s \<Longrightarrow> r = [] \<or> hd r = NUL \<Longrightarrow> c_str (a @ s @ r) (length a) = s"
  by (cases r) (auto simp: c_str_def takeWhile_append)

text \<open>Key and value of an argument: after the last colon before the first equals sign, and after that.\<close>

definition arg_spec :: "string \<Rightarrow> (string \<times> string) option" where
  "arg_spec s =
     (if CHR '':'' \<in> set (key_part s) then Some (after_last CHR '':'' (key_part s), tl (value_part s)) else None)"

lemma split_arg_spec:
  assumes "NUL \<notin> set s" and "length s \<le> 256"
  shows "map_option (\<lambda>a. (arg_key a, arg_value a)) (split_arg s) = arg_spec s"
proof (cases "CHR '':'' \<in> set (key_part s)")
  case False
  then show ?thesis using scan_arg_parts [of s "[]" None] assms by (simp add: split_arg_def arg_spec_def)
next
  case True
  let ?k = "after_last CHR '':'' (key_part s)" and ?v = "case value_part s of [] \<Rightarrow> [] | _ # r \<Rightarrow> NUL # r"
  obtain p where p: "key_part s = p @ ?k" using after_last_suffix by blast
  have n: "NUL \<notin> set (key_part s)" "NUL \<notin> set (value_part s)"
    using assms(1) key_value_parts [of s] by (metis Un_iff set_append)+
  have "wiped (key_part s) = wiped p @ ?k"
    using arg_cong [OF p, of wiped] wiped_id [OF after_last_notin_set, of "key_part s"] by (simp add: wiped_def)
  then have sc: "scan_arg 0 s None = (wiped p @ ?k @ ?v, Some (length (wiped p)),
      if value_part s = [] then None else Some (Suc (length (wiped p @ ?k))))"
    using scan_arg_parts [of s "[]" None] assms True arg_cong [OF p, of length] by (simp add: wiped_def)
  have "NUL \<notin> set ?k" using n(1) arg_cong [OF p, of set] by auto
  then have key: "c_str (wiped p @ ?k @ ?v) (length (wiped p)) = ?k"
    by (rule c_str_at) (simp split: list.splits)
  have val: "c_str (wiped p @ ?k @ ?v) (Suc (length (wiped p @ ?k))) = tl (value_part s)" if "value_part s \<noteq> []"
  proof -
    obtain c r where r: "value_part s = c # r" using \<open>value_part s \<noteq> []\<close> by (cases "value_part s") auto
    then have "NUL \<notin> set r" using n(2) by simp
    from c_str_at [OF this, of "[]" "wiped p @ ?k @ [NUL]"] r show ?thesis by simp
  qed
  have "split_arg s = Some \<lparr>argptr = wiped p @ ?k @ ?v, arg_key = ?k, arg_value = tl (value_part s)\<rparr>"
    unfolding split_arg_def sc using key val by auto
  then show ?thesis using True by (simp add: arg_spec_def)
qed


section \<open>Splitting and joining\<close>

primrec pieces :: "char \<Rightarrow> string \<Rightarrow> string list" where
  "pieces d [] = [[]]"
| "pieces d (c # s) = (if c = d then [] # pieces d s else (c # hd (pieces d s)) # tl (pieces d s))"

fun join :: "char \<Rightarrow> string list \<Rightarrow> string" where
  "join d [] = []"
| "join d [t] = t"
| "join d (t # ts) = t @ d # join d ts"

lemma pieces_not_Nil [simp]: "pieces d s \<noteq> []"
  by (cases s) auto

lemma join_Cons: "ts \<noteq> [] \<Longrightarrow> join d (t # ts) = t @ d # join d ts"
  by (cases ts) auto

lemma join_snoc: "ts \<noteq> [] \<Longrightarrow> join d (ts @ [t]) = join d ts @ d # t"
  by (induction ts rule: join.induct [of _ d]) (auto simp: join_Cons)

lemma join_pieces [simp]: "join d (pieces d s) = s"
proof (induction s)
  case (Cons c s)
  obtain t ts where f: "pieces d s = t # ts" by (cases "pieces d s") auto
  with Cons show ?case by (cases ts) auto
qed simp

lemma pieces_clean: "t \<in> set (pieces d s) \<Longrightarrow> d \<notin> set t"
proof (induction s arbitrary: t)
  case (Cons c s)
  obtain u ts where "pieces d s = u # ts" by (cases "pieces d s") auto
  with Cons show ?case by (auto split: if_splits)
qed simp

lemma length_pieces: "length (pieces d s) = Suc (length (filter (\<lambda>c. c = d) s))"
proof (induction s)
  case (Cons c s)
  obtain u ts where "pieces d s = u # ts" by (cases "pieces d s") auto
  with Cons show ?case by auto
qed simp

lemma pieces_cut:
  "pieces d s = takeWhile (\<lambda>x. x \<noteq> d) s
     # (case dropWhile (\<lambda>x. x \<noteq> d) s of [] \<Rightarrow> [] | _ # r \<Rightarrow> pieces d r)"
  by (induction s) auto

lemma strtok_all_pieces: "strtok_all d s = filter (\<lambda>t. t \<noteq> []) (pieces d s)"
proof (induction d s rule: strtok_all.induct)
  case (1 d s)
  have skip: "filter (\<lambda>t. t \<noteq> []) (pieces d s) = filter (\<lambda>t. t \<noteq> []) (pieces d (dropWhile (\<lambda>c. c = d) s))" for s
    by (induction s) auto
  show ?case
  proof (cases "dropWhile (\<lambda>c. c = d) s")
    case Nil
    then show ?thesis unfolding skip [of s] strtok_all.simps [of d s] by (simp only: list.case pieces.simps) simp
  next
    case (Cons c r)
    have "c \<noteq> d" using Cons hd_dropWhile [of "\<lambda>c. c = d" s] by simp
    let ?r = "dropWhile (\<lambda>x. x \<noteq> d) r"
    have "filter (\<lambda>t. t \<noteq> []) (pieces d ?r) = filter (\<lambda>t. t \<noteq> []) (case ?r of [] \<Rightarrow> [] | _ # r \<Rightarrow> pieces d r)"
    proof (cases ?r)
      case (Cons x q)
      then have "x = d" using hd_dropWhile [of "\<lambda>x. x \<noteq> d" r] by simp
      with Cons show ?thesis by simp
    next
      case Nil
      then show ?thesis by (simp only: list.case pieces.simps) simp
    qed
    then have "strtok_all d ?r = filter (\<lambda>t. t \<noteq> []) (case ?r of [] \<Rightarrow> [] | _ # r \<Rightarrow> pieces d r)"
      using 1 [OF Cons] by (simp only:)
    moreover have "pieces d (c # r) = (c # takeWhile (\<lambda>x. x \<noteq> d) r) # (case ?r of [] \<Rightarrow> [] | _ # r \<Rightarrow> pieces d r)"
      using pieces_cut [of d "c # r"] \<open>c \<noteq> d\<close> by (simp del: pieces.simps)
    ultimately show ?thesis
      unfolding skip [of s] strtok_all.simps [of d s] Cons by (simp only: list.case filter.simps) simp
  qed
qed

lemma pieces_join:
  assumes "ts \<noteq> []" and "list_all (\<lambda>t. d \<notin> set t) ts"
  shows "pieces d (join d ts) = ts"
  using assms
proof (induction d ts rule: join.induct)
  case (2 d t)
  then have "\<forall>x \<in> set t. x \<noteq> d" by auto
  then have "takeWhile (\<lambda>x. x \<noteq> d) t = t" "dropWhile (\<lambda>x. x \<noteq> d) t = []"
    by (simp_all only: takeWhile_eq_all_conv dropWhile_eq_Nil_conv)
  then show ?case unfolding join.simps by (subst pieces_cut) (simp only: list.case)
next
  case (3 d t u ts)
  then have "\<forall>x \<in> set t. x \<noteq> d" by auto
  then have "takeWhile (\<lambda>x. x \<noteq> d) (t @ d # join d (u # ts)) = t"
    "dropWhile (\<lambda>x. x \<noteq> d) (t @ d # join d (u # ts)) = d # join d (u # ts)"
    by (simp_all add: takeWhile_append2 dropWhile_append2)
  moreover have "pieces d (join d (u # ts)) = u # ts" using 3 by simp
  ultimately show ?case unfolding join.simps by (subst pieces_cut) (simp only: list.case)
qed simp

lemma last_pieces: "d \<in> set s \<and> last s = d \<longleftrightarrow> length (pieces d s) \<noteq> 1 \<and> last (pieces d s) = []"
proof (induction s)
  case (Cons c s)
  obtain u ts where f: "pieces d s = u # ts" by (cases "pieces d s") auto
  show ?case
  proof (cases "s = []")
    case False
    have "s \<noteq> [] \<Longrightarrow> ts = [] \<Longrightarrow> d \<notin> set s" using length_pieces [of d s] f by (auto simp: filter_empty_conv)
    moreover have "d \<in> set s \<Longrightarrow> ts \<noteq> []" using length_pieces [of d s] f by (auto simp: filter_empty_conv)
    moreover have "ts = [] \<Longrightarrow> u = s" using join_pieces [of d s] f by simp
    ultimately show ?thesis using Cons f False by (auto simp: last_ConsR)
  qed simp
qed simp

lemma filter_eq_length: "length (filter P xs) = length xs \<longleftrightarrow> list_all P xs"
proof -
  have "length (filter P xs) = length xs \<longleftrightarrow> filter (\<lambda>x. \<not> P x) xs = []"
    using sum_length_filter_compl [of P xs] by (metis add_cancel_left_right length_0_conv)
  then show ?thesis by (simp add: filter_empty_conv list_all_iff)
qed

lemma str_split_pieces:
  "str_split s d =
     (let fs = pieces d s;
          gs = (if length fs \<noteq> 1 \<and> last fs = [] then butlast fs else fs)
      in if list_all (\<lambda>t. t \<noteq> []) gs then Inr gs else Inl (Assert_fail ''idx == count - 1''))"
proof -
  let ?fs = "pieces d s"
  let ?gs = "if length ?fs \<noteq> 1 \<and> last ?fs = [] then butlast ?fs else ?fs"
  have tok: "strtok_all d s = filter (\<lambda>t. t \<noteq> []) ?gs"
  proof (cases "length ?fs \<noteq> 1 \<and> last ?fs = []")
    case True
    then have "?fs = butlast ?fs @ [[]]" by (metis append_butlast_last_id pieces_not_Nil)
    then have "filter (\<lambda>t. t \<noteq> []) ?fs = filter (\<lambda>t. t \<noteq> []) (butlast ?fs)"
      using filter_append [of "\<lambda>t. t \<noteq> []" "butlast ?fs" "[[]]"] by (simp del: filter_append)
    then show ?thesis using True by (simp add: strtok_all_pieces)
  next
    case False
    then show ?thesis by (simp only: strtok_all_pieces if_False)
  qed
  have cnt: "split_count s d = Suc (length ?gs)"
    unfolding split_count_def last_pieces by (simp add: length_pieces)
  have "length (strtok_all d s) \<le> split_count s d"
    unfolding tok cnt by (simp add: le_SucI)
  moreover have "length (strtok_all d s) = split_count s d - 1 \<longleftrightarrow> list_all (\<lambda>t. t \<noteq> []) ?gs"
    unfolding tok cnt diff_Suc_1 by (rule filter_eq_length)
  moreover have "list_all (\<lambda>t. t \<noteq> []) ?gs \<Longrightarrow> strtok_all d s = ?gs"
    unfolding tok by (simp only: filter_id_conv list_all_iff)
  ultimately show ?thesis by (simp only: str_split_def Let_def rr_assert_def) auto
qed

lemma str_split_joined:
  "str_split s d = Inr ts \<longleftrightarrow> ts \<noteq> [] \<and> list_all (\<lambda>t. t \<noteq> [] \<and> d \<notin> set t) ts
     \<and> (s = join d ts \<or> s = join d ts @ [d])"
proof
  assume r: "str_split s d = Inr ts"
  have cl: "list_all (\<lambda>t. d \<notin> set t) (pieces d s)" using pieces_clean by (auto simp: list_all_iff)
  show "ts \<noteq> [] \<and> list_all (\<lambda>t. t \<noteq> [] \<and> d \<notin> set t) ts \<and> (s = join d ts \<or> s = join d ts @ [d])"
  proof (cases "length (pieces d s) \<noteq> 1 \<and> last (pieces d s) = []")
    case True
    then have f: "pieces d s = butlast (pieces d s) @ [[]]" "butlast (pieces d s) \<noteq> []"
      by (metis append_butlast_last_id pieces_not_Nil)
        (metis One_nat_def True append_butlast_last_id append_Nil pieces_not_Nil length_Cons list.size(3))
    have ts: "ts = butlast (pieces d s)" "list_all (\<lambda>t. t \<noteq> []) ts"
      using r True by (auto simp: str_split_pieces Let_def split: if_splits)
    have "s = join d ts @ [d]" using join_pieces [of d s] f ts(1) join_snoc [of ts d "[]"] by metis
    moreover have "list_all (\<lambda>t. d \<notin> set t) ts" using cl f ts(1) by (metis list_all_append)
    ultimately show ?thesis using f(2) ts by (auto simp: list_all_iff)
  next
    case False
    then have ts: "ts = pieces d s" "list_all (\<lambda>t. t \<noteq> []) ts"
      using r by (auto simp: str_split_pieces Let_def split: if_splits)
    then show ?thesis using cl by (auto simp: list_all_iff)
  qed
next
  assume a: "ts \<noteq> [] \<and> list_all (\<lambda>t. t \<noteq> [] \<and> d \<notin> set t) ts \<and> (s = join d ts \<or> s = join d ts @ [d])"
  then have c: "list_all (\<lambda>t. d \<notin> set t) ts" "list_all (\<lambda>t. t \<noteq> []) ts" by (auto simp: list_all_iff)
  from a have "s = join d ts \<or> s = join d (ts @ [[]])" by (auto simp: join_snoc)
  then have "pieces d s = ts \<or> pieces d s = ts @ [[]]"
    using pieces_join [of ts d] pieces_join [of "ts @ [[]]" d] a c(1) by auto
  moreover have "last ts \<noteq> []" using a c(2) by (simp add: list_all_iff)
  ultimately show "str_split s d = Inr ts" using a c(2) by (auto simp: str_split_pieces Let_def)
qed


section \<open>From the command line to the plugin\<close>

type_synonym plugin_options = "string \<times> (string \<times> string) list"

definition show_option :: "string \<times> string \<Rightarrow> string" where
  "show_option kv = fst kv @ ''='' @ snd kv"

definition show_plugin :: "plugin_options \<Rightarrow> string" where
  "show_plugin po = fst po @ (if snd po = [] then '''' else '':'' @ join CHR '','' (map show_option (snd po)))"

definition show_options :: "plugin_options list \<Rightarrow> string" where
  "show_options pos = join CHR '';'' (map show_plugin pos)"

text \<open>
  What can be written: no special character where it would be read as one, and every argument
  within the 254 characters the loop copies.
\<close>

definition plain_option :: "string \<Rightarrow> string \<times> string \<Rightarrow> bool" where
  "plain_option p kv \<longleftrightarrow>
     set (fst kv) \<inter> {NUL, CHR '';'', CHR '','', CHR '':'', CHR ''=''} = {}
     \<and> set (snd kv) \<inter> {NUL, CHR '';'', CHR '',''} = {}
     \<and> length p + length (fst kv) + length (snd kv) + 2 \<le> 254"

definition plain_plugin :: "plugin_options \<Rightarrow> bool" where
  "plain_plugin po \<longleftrightarrow> set (fst po) \<inter> {NUL, CHR '';'', CHR '':'', CHR ''=''} = {}
     \<and> list_all (plain_option (fst po)) (snd po)"

definition plugin_args :: "plugin_options \<Rightarrow> string list" where
  "plugin_args po = map (\<lambda>kv. fst po @ '':'' @ show_option kv) (snd po)"

lemma panda_add_arg_fits:
  "length arg \<le> 254 \<Longrightarrow> length argv < MAX_PANDA_PLUGIN_ARGS \<Longrightarrow>
     panda_add_arg arg (length arg) argv = Inr (True, argv @ [arg])"
  by (simp add: panda_add_arg_def)

lemma add_options_join:
  assumes "kvs \<noteq> []" and "list_all (plain_option p) kvs" and "length argv + length kvs \<le> MAX_PANDA_PLUGIN_ARGS"
  shows "add_options p (join CHR '','' (map show_option kvs)) argv = Inr (argv @ plugin_args (p, kvs))"
  using assms
proof (induction kvs arbitrary: argv)
  case (Cons kv kvs)
  have pl: "CHR '','' \<notin> set (show_option kv)" "length (p @ '':'' @ show_option kv) \<le> 254"
    using Cons.prems(2) by (auto simp: plain_option_def show_option_def)
  then have t: "take 254 (p @ '':'' @ show_option kv) = p @ '':'' @ show_option kv" by (intro take_all) simp
  have "length argv < MAX_PANDA_PLUGIN_ARGS" using Cons.prems(3) by simp
  note add = panda_add_arg_fits [OF pl(2) this]
  have step: "add_options p s argv = (case r of None \<Rightarrow> Inr (argv @ [p @ '':'' @ show_option kv])
      | Some os \<Rightarrow> add_options p os (argv @ [p @ '':'' @ show_option kv]))"
    if "cut_at CHR '','' s = (show_option kv, r)" for s r
    unfolding add_options.simps [of p s] that prod.case Let_def t add bindR_simps ..
  show ?case
  proof (cases "kvs = []")
    case True
    then show ?thesis using step [of "show_option kv" None] pl(1) by (simp add: plugin_args_def)
  next
    case False
    then have "map show_option kvs \<noteq> []" by simp
    then have j: "join CHR '','' (map show_option (kv # kvs))
        = show_option kv @ CHR '','' # join CHR '','' (map show_option kvs)" by (simp add: join_Cons)
    have "length (argv @ [p @ '':'' @ show_option kv]) + length kvs \<le> MAX_PANDA_PLUGIN_ARGS"
      using Cons.prems(3) by simp
    from Cons.IH [OF False _ this] Cons.prems(2) show ?thesis
      unfolding j using step [OF cut_at_found [OF pl(1)]] by (simp add: plugin_args_def)
  qed
qed simp

lemma set_join: "set (join d ts) \<subseteq> insert d (\<Union> (set ` set ts))"
  by (induction d ts rule: join.induct) auto

lemma show_plugin_clean:
  assumes "plain_plugin po"
  shows "CHR '';'' \<notin> set (show_plugin po)"
proof -
  have "CHR '';'' \<notin> set (show_option kv)" if "kv \<in> set (snd po)" for kv
    using assms that by (auto simp: plain_plugin_def plain_option_def show_option_def list_all_iff)
  then have "CHR '';'' \<notin> set (join CHR '','' (map show_option (snd po)))"
    using set_join [of "CHR '',''" "map show_option (snd po)"] by auto
  then show ?thesis using assms by (auto simp: show_plugin_def plain_plugin_def)
qed

lemma cut_show_plugin:
  "plain_plugin po \<Longrightarrow> cut_at CHR '':'' (show_plugin po) =
     (fst po, if snd po = [] then None else Some (join CHR '','' (map show_option (snd po))))"
  by (simp add: show_plugin_def plain_plugin_def)

lemma panda_option_show:
  assumes "pos \<noteq> []" and "list_all plain_plugin pos" and "length files + length pos \<le> MAX_PANDA_PLUGINS"
    and "length argv + length (concat (map plugin_args pos)) \<le> MAX_PANDA_PLUGIN_ARGS"
  shows "panda_option E (show_options pos) argv files =
    Inr (argv @ concat (map plugin_args pos), files @ map (panda_plugin_path E \<circ> fst) pos)"
  using assms
proof (induction pos arbitrary: argv files)
  case (Cons po pos)
  obtain p kvs where po: "po = (p, kvs)" by (cases po)
  have pl: "plain_plugin po" using Cons.prems(2) by simp
  note clean = show_plugin_clean [OF pl] and cut = cut_show_plugin [OF pl]
  have args: "(case if kvs = [] then None else Some (join CHR '','' (map show_option kvs)) of
      None \<Rightarrow> Inr argv | Some os \<Rightarrow> add_options p os argv) = Inr (argv @ plugin_args po)"
    using add_options_join [of kvs p argv] pl Cons.prems(4) by (auto simp: po plain_plugin_def plugin_args_def)
  have room: "length files < MAX_PANDA_PLUGINS" using Cons.prems(3) by simp
  have first: "panda_option E s argv files =
      (case r of None \<Rightarrow> Inr (argv @ plugin_args po, files @ [panda_plugin_path E p])
       | Some r \<Rightarrow> panda_option E r (argv @ plugin_args po) (files @ [panda_plugin_path E p]))"
    if "cut_at CHR '';'' s = (show_plugin po, r)" for s r
    unfolding panda_option.simps [of E s] that prod.case cut unfolding po fst_conv snd_conv args [unfolded po]
    using room by (simp add: Let_def)
  show ?case
  proof (cases "pos = []")
    case True
    then show ?thesis using first [of "show_plugin po" None] clean by (simp add: show_options_def po)
  next
    case False
    then have "show_options (po # pos) = show_plugin po @ CHR '';'' # show_options pos"
      by (simp add: show_options_def join_Cons)
    then have "panda_option E (show_options (po # pos)) argv files
        = panda_option E (show_options pos) (argv @ plugin_args po) (files @ [panda_plugin_path E p])"
      using first [of "show_options (po # pos)" "Some (show_options pos)"] clean by simp
    also have "\<dots> = Inr ((argv @ plugin_args po) @ concat (map plugin_args pos),
        (files @ [panda_plugin_path E p]) @ map (panda_plugin_path E \<circ> fst) pos)"
      using Cons.prems False by (intro Cons.IH) simp_all
    finally show ?thesis by (simp add: po)
  qed
qed simp

lemma key_part_append: "CHR ''='' \<notin> set a \<Longrightarrow> key_part (a @ b) = a @ key_part b \<and> value_part (a @ b) = value_part b"
  by (induction a) auto

lemma split_plugin_arg:
  assumes "set p \<inter> {NUL, CHR '';'', CHR '':'', CHR ''=''} = {}" and "plain_option p kv"
  obtains a where "split_arg (p @ '':'' @ show_option kv) = Some a" and "arg_key a = fst kv" and "arg_value a = snd kv"
proof -
  let ?s = "p @ '':'' @ show_option kv" and ?a = "p @ '':'' @ fst kv"
  have s: "?s = ?a @ ''='' @ snd kv" by (simp add: show_option_def)
  have n: "CHR ''='' \<notin> set ?a" "NUL \<notin> set ?s" "length ?s \<le> 256" "CHR '':'' \<notin> set p" "CHR '':'' \<notin> set (fst kv)"
    using assms by (auto simp: plain_option_def show_option_def)
  have "key_part ?s = ?a" "value_part ?s = ''='' @ snd kv"
    using key_part_append [OF n(1)] unfolding s by simp_all
  moreover have "after_last CHR '':'' ?a = fst kv"
    using n(4,5) by (induction p) (auto simp: after_last_Cons)
  ultimately have "arg_spec ?s = Some kv" by (simp add: arg_spec_def)
  then have "map_option (\<lambda>a. (arg_key a, arg_value a)) (split_arg ?s) = Some kv"
    using split_arg_spec [OF n(2,3)] by (simp only:)
  then obtain a where "split_arg ?s = Some a" "(arg_key a, arg_value a) = kv" by (auto simp del: append.simps)
  then show ?thesis by (intro that [of a]) auto
qed

lemma split_plugin_args:
  assumes "plain_plugin (p, kvs)"
  shows "\<exists>as. split_args (plugin_args (p, kvs)) = Some as \<and> map (\<lambda>a. (arg_key a, arg_value a)) as = kvs"
  using assms
proof (induction kvs)
  case (Cons kv kvs)
  then have "set p \<inter> {NUL, CHR '';'', CHR '':'', CHR ''=''} = {}" "plain_option p kv"
    "plain_plugin (p, kvs)" by (simp_all add: plain_plugin_def)
  note own = this
  from split_plugin_arg [OF own(1,2)] obtain a where
    a: "split_arg (p @ '':'' @ show_option kv) = Some a" "arg_key a = fst kv" "arg_value a = snd kv" .
  from Cons.IH [OF own(3)] obtain as where
    "split_args (plugin_args (p, kvs)) = Some as" "map (\<lambda>a. (arg_key a, arg_value a)) as = kvs" by blast
  with a show ?case by (intro exI [of _ "a # as"]) (simp add: plugin_args_def)
qed (simp add: plugin_args_def)

lemma find_arg_map_of: "find_arg k as = map_of (map (\<lambda>a. (arg_key a, arg_value a)) as) k"
  by (induction as) (auto simp: find_arg_def)

lemma prefix_colon:
  assumes "CHR '':'' \<notin> set p" and "prefix p (q @ '':'' @ r)"
  shows "prefix p q"
proof -
  from assms(2) obtain t where "p @ t = q @ '':'' @ r" by (auto simp: prefix_def)
  then obtain us where "p @ us = q \<or> (p = q @ us \<and> us @ t = '':'' @ r)"
    by (auto simp: append_eq_append_conv2)
  then show ?thesis using assms(1) by (cases us) (auto simp: prefix_def)
qed

lemma own_args:
  assumes "distinct (map fst pos)" and "po \<in> set pos" and "CHR '':'' \<notin> set (fst po)"
    and "\<And>q. q \<in> set pos \<Longrightarrow> prefix (fst po) (fst q) \<Longrightarrow> fst po = fst q"
  shows "filter (prefix (fst po)) (concat (map plugin_args pos)) = plugin_args po"
proof -
  have own: "filter (prefix (fst po)) (plugin_args q) = (if q = po then plugin_args po else [])" if "q \<in> set pos" for q
  proof (cases "q = po")
    case True
    then show ?thesis by (auto simp: plugin_args_def filter_id_conv)
  next
    case False
    then have "\<not> prefix (fst po) (fst q)"
      using assms(1,2,4) that by (metis (no_types, lifting) distinct_map inj_onD)
    then have "\<not> prefix (fst po) (fst q @ '':'' @ r)" for r using prefix_colon [OF assms(3)] by blast
    then show ?thesis using False by (auto simp: plugin_args_def filter_empty_conv)
  qed
  have "filter (prefix (fst po)) (concat (map plugin_args pos))
      = concat (map (\<lambda>q. if q = po then plugin_args po else []) pos)"
    unfolding filter_concat map_map using own by (intro arg_cong [of _ _ concat] map_cong) auto
  also have "\<dots> = plugin_args po"
  proof -
    have "distinct pos" using assms(1) by (simp add: distinct_map)
    obtain a b where "pos = a @ po # b" "po \<notin> set a" "po \<notin> set b"
      using split_list [OF assms(2)] \<open>distinct pos\<close> by auto
    moreover from this have "concat (map (\<lambda>q. if q = po then plugin_args po else []) a) = []"
      "concat (map (\<lambda>q. if q = po then plugin_args po else []) b) = []" by auto
    ultimately show ?thesis by (simp del: concat_eq_Nil_conv)
  qed
  finally show ?thesis .
qed

lemma plugin_reads_options:
  assumes "distinct (map fst pos)" and "po \<in> set pos" and "plain_plugin po"
    and "\<And>q. q \<in> set pos \<Longrightarrow> prefix (fst po) (fst q) \<Longrightarrow> fst po = fst q"
  shows "panda_parse_string (panda_get_args (fst po) (concat (map plugin_args pos))) k d =
    (case map_of (snd po) k of None \<Rightarrow> d | Some v \<Rightarrow> v)"
proof -
  have "CHR '':'' \<notin> set (fst po)" using assms(3) by (auto simp: plain_plugin_def)
  then have own: "filter (prefix (fst po)) (concat (map plugin_args pos)) = plugin_args po"
    using assms by (intro own_args) auto
  obtain p kvs where po: "po = (p, kvs)" by (cases po)
  from split_plugin_args [of p kvs] assms(3) po obtain as where
    "split_args (plugin_args po) = Some as" "map (\<lambda>a. (arg_key a, arg_value a)) as = snd po" by auto
  then show ?thesis
    unfolding panda_get_args_def own Let_def
    by (cases "plugin_args po = []") (auto simp: plugin_args_def panda_parse_string_def find_arg_map_of)
qed

section \<open>Decimal numbers\<close>

fun decimal :: "nat \<Rightarrow> string" where
  "decimal n = (if n < 10 then [char_of (48 + n)] else decimal (n div 10) @ [char_of (48 + n mod 10)])"

declare decimal.simps [simp del]

lemma digit_char: "n < 10 \<Longrightarrow> digit_value (char_of (48 + n)) = n \<and> \<not> is_space (char_of (48 + n))"
  by (simp add: digit_value_def is_space_def Let_def)

lemma decimal_digits: "list_all (\<lambda>c. digit_value c < 10 \<and> \<not> is_space c) (decimal n)"
proof (induction n rule: decimal.induct)
  case (1 n)
  then show ?case using digit_char [of n] digit_char [of "n mod 10"] by (simp add: decimal.simps [of n])
qed

lemma decimal_fold: "foldl (\<lambda>n c. n * 10 + digit_value c) 0 (decimal n) = n"
proof (induction n rule: decimal.induct)
  case (1 n)
  then show ?case using digit_char [of n] digit_char [of "n mod 10"] by (simp add: decimal.simps [of n])
qed

lemma decimal_hd: "\<exists>c r. decimal n = c # r \<and> digit_value c < 10 \<and> \<not> is_space c \<and> (c = CHR ''0'' \<longrightarrow> n = 0)"
proof (induction n rule: decimal.induct)
  case (1 n)
  show ?case
  proof (cases "n < 10")
    case True
    have "char_of (48 + n) = CHR ''0'' \<Longrightarrow> n = 0"
      using digit_char [OF True] by (simp add: digit_value_def Let_def)
    then show ?thesis using True digit_char [OF True] by (simp add: decimal.simps [of n])
  next
    case False
    from 1 [OF False] obtain c r where "decimal (n div 10) = c # r" "digit_value c < 10" "\<not> is_space c"
      "c = CHR ''0'' \<longrightarrow> n div 10 = 0" by blast
    with False show ?thesis by (auto simp: decimal.simps [of n])
  qed
qed

lemma strtoull_decimal: "strtoull (decimal n) = (if n < 2 ^ 64 then of_nat n else - 1)"
proof -
  obtain c r where c: "decimal n = c # r" "digit_value c < 10" "\<not> is_space c" "c = CHR ''0'' \<longrightarrow> n = 0"
    using decimal_hd by blast
  have s: "c \<noteq> CHR ''-''" "c \<noteq> CHR ''+''" using c(2) by (auto simp: digit_value_def Let_def)
  have "takeWhile (\<lambda>c. digit_value c < 10) (decimal n) = decimal n"
    using decimal_digits [of n] by (auto simp: list_all_iff takeWhile_eq_all_conv)
  then have num: "number_of_digits 10 (decimal n) = n" unfolding number_of_digits_def by (simp only: decimal_fold)
  show ?thesis
  proof (cases "n = 0")
    case True
    have "decimal 0 = [CHR 0x30]" by code_simp
    with True show ?thesis
      by (simp add: strtoull_def strip_base_def number_of_digits_def is_space_def digit_value_def)
  next
    case False
    then have b: "strip_base (decimal n) = (10, decimal n)" using c by (simp add: strip_base_def)
    have "dropWhile is_space (decimal n) = decimal n" using c by simp
    moreover have "take 1 (decimal n) \<noteq> ''-''" "take 1 (decimal n) \<noteq> ''+''" using c(1) s by simp_all
    ultimately show ?thesis by (simp add: strtoull_def Let_def b num not_less)
  qed
qed


section \<open>Properties\<close>

text \<open>
  C22: What is written on the command line is what the plugins read. For any list of plugins with
  options that fit the tables, in which no plugin's name begins with the name of another one,
  the option \<^verbatim>\<open>-panda\<close> is parsed into the paths of the plugins, in order, and each plugin finds
  under every key the value written for it (the first, if there are several), and its default
  under every other key.
\<close>

theorem plugin_options_roundtrip:
  assumes "pos \<noteq> []" and "list_all plain_plugin pos" and "distinct (map fst pos)"
    and "length pos \<le> MAX_PANDA_PLUGINS" and "length (concat (map snd pos)) \<le> MAX_PANDA_PLUGIN_ARGS"
    and "\<forall>p \<in> set pos. \<forall>q \<in> set pos. prefix (fst p) (fst q) \<longrightarrow> fst p = fst q"
  shows "\<exists>argv. panda_option E (show_options pos) [] [] = Inr (argv, map (panda_plugin_path E \<circ> fst) pos)
    \<and> (\<forall>(p, kvs) \<in> set pos. \<forall>k d. panda_parse_string (panda_get_args p argv) k d
          = (case map_of kvs k of None \<Rightarrow> d | Some v \<Rightarrow> v))"
proof -
  have "length (concat (map plugin_args pos)) = length (concat (map snd pos))"
    by (simp add: length_concat plugin_args_def comp_def)
  with panda_option_show [OF assms(1,2), of "[]" "[]" E] assms(4,5) have
    "panda_option E (show_options pos) [] [] = Inr (concat (map plugin_args pos), map (panda_plugin_path E \<circ> fst) pos)"
    by simp
  moreover have "panda_parse_string (panda_get_args (fst po) (concat (map plugin_args pos))) k d
      = (case map_of (snd po) k of None \<Rightarrow> d | Some v \<Rightarrow> v)" if "po \<in> set pos" for po k d
    using assms(2,3,6) that by (intro plugin_reads_options) (auto simp: list_all_iff)
  ultimately show ?thesis by fastforce
qed

theorem plugin_options_roundtrip_witness:
  "\<exists>argv. panda_option \<lparr>PANDA_PLUGIN_DIR = Some ''/p'', qemu_file = ''''\<rparr> ''taint2:word=1,max=a:b;file'' [] []
      = Inr (argv, [''/p/panda_taint2.so'', ''/p/panda_file.so''])
    \<and> panda_parse_string (panda_get_args ''taint2'' argv) ''max'' ''0'' = ''a:b''
    \<and> panda_parse_string (panda_get_args ''file'' argv) ''max'' ''0'' = ''0''"
proof -
  let ?E = "\<lparr>PANDA_PLUGIN_DIR = Some ''/p'', qemu_file = ''''\<rparr>"
  let ?pos = "[(''taint2'', [(''word'', ''1''), (''max'', ''a:b'')]), (''file'', [])]"
  have h: "?pos \<noteq> []" "list_all plain_plugin ?pos" "distinct (map fst ?pos)" "length ?pos \<le> MAX_PANDA_PLUGINS"
    "length (concat (map snd ?pos)) \<le> MAX_PANDA_PLUGIN_ARGS"
    "\<forall>p \<in> set ?pos. \<forall>q \<in> set ?pos. prefix (fst p) (fst q) \<longrightarrow> fst p = fst q"
    by (auto simp: plain_plugin_def plain_option_def MAX_PANDA_PLUGINS_def MAX_PANDA_PLUGIN_ARGS_def)
  have t: "show_options ?pos = ''taint2:word=1,max=a:b;file''"
    by (simp add: show_options_def show_plugin_def show_option_def)
  have f: "map (panda_plugin_path ?E \<circ> fst) ?pos = [''/p/panda_taint2.so'', ''/p/panda_file.so'']"
    by (simp add: panda_plugin_path_def)
  from plugin_options_roundtrip [OF h, of ?E] obtain argv where
    a: "panda_option ?E (show_options ?pos) [] [] = Inr (argv, map (panda_plugin_path ?E \<circ> fst) ?pos)"
    "\<forall>(p, kvs) \<in> set ?pos. \<forall>k d. panda_parse_string (panda_get_args p argv) k d
          = (case map_of kvs k of None \<Rightarrow> d | Some v \<Rightarrow> v)" by blast
  from a(2) have "panda_parse_string (panda_get_args ''taint2'' argv) ''max'' ''0'' = ''a:b''"
    "panda_parse_string (panda_get_args ''file'' argv) ''max'' ''0'' = ''0''" by simp_all
  with a(1) [unfolded t f] show ?thesis by blast
qed

text \<open>
  The function \<^verbatim>\<open>str_split\<close> returns a list of tokens exactly when the string is these tokens, none of them
  empty, joined by the delimiter, with at most one delimiter after the last; on every other
  string, the empty one included, the assertion on the number of tokens fails.
\<close>

theorem str_split_exact:
  "(str_split s d = Inr ts \<longleftrightarrow> ts \<noteq> [] \<and> list_all (\<lambda>t. t \<noteq> [] \<and> d \<notin> set t) ts
      \<and> (s = join d ts \<or> s = join d ts @ [d]))
   \<and> ((\<nexists>us. str_split s d = Inr us) = (str_split s d = Inl (Assert_fail ''idx == count - 1'')))"
proof
  show "(\<nexists>us. str_split s d = Inr us) = (str_split s d = Inl (Assert_fail ''idx == count - 1''))"
    by (auto simp: str_split_pieces Let_def split: if_splits)
qed (rule str_split_joined)

text \<open>
  A number written in decimal as the value of an option is read back: as 64 bits it is the
  number itself, or the largest 64-bit number if it does not fit; as 32 bits it is that result
  modulo \<open>2 ^ 32\<close>, without any sign that it did not fit.
\<close>

theorem number_option_value:
  assumes "find_arg k args = Some (decimal n)"
  shows "panda_parse_uint64 (Some args) k d = (if n < 2 ^ 64 then of_nat n else - 1)
    \<and> panda_parse_uint32 (Some args) k e = (if n < 2 ^ 64 then of_nat n else - 1)"
proof -
  have "ucast (of_nat n :: u64) = (of_nat n :: u32)"
    by (rule bit_word_eqI) (simp add: bit_simps)
  moreover have "ucast (- 1 :: u64) = (- 1 :: u32)" by (rule bit_word_eqI) (simp add: bit_simps)
  ultimately show ?thesis
    using assms by (simp add: panda_parse_uint64_def panda_parse_uint32_def parse_number_def strtoull_decimal)
qed

theorem number_option_value_witness:
  "panda_parse_uint64 (Some [\<lparr>argptr = [], arg_key = ''n'', arg_value = ''4294967297''\<rparr>]) ''n'' 0 = 4294967297
   \<and> panda_parse_uint32 (Some [\<lparr>argptr = [], arg_key = ''n'', arg_value = ''4294967297''\<rparr>]) ''n'' 0 = 1"
proof -
  have "decimal 4294967297 = ''4294967297''" by (simp add: decimal.simps char_of_def bit_0)
  then have "find_arg ''n'' [\<lparr>argptr = [], arg_key = ''n'', arg_value = ''4294967297''\<rparr>] = Some (decimal 4294967297)"
    by (simp add: find_arg_def)
  from number_option_value [OF this, of 0 0] show ?thesis by simp
qed

end
