(* ===== verification/Panda_Plugins.thy ===== *)
theory Panda_Plugins
  imports Panda_Args
begin

text \<open>
  Loading and unloading plugins (\<^verbatim>\<open>qemu/panda_plugin.c\<close>, the start of \<^verbatim>\<open>main\<close> in
  \<^verbatim>\<open>qemu/vl.c\<close>, the unloading in \<^verbatim>\<open>cpu_exec\<close>): the table of loaded plugins, the list of names
  ever loaded, and the flags of plugins to unload. The dynamic loader and the code of the
  plugins are parameters; what is called in them is recorded in order.
\<close>

section \<open>The state\<close>

record panda_plugin =
  plugin_name :: string
  plugin_handle :: plugin

datatype plugin_call =
    Dlopen string
  | Init_plugin plugin
  | Uninit_plugin plugin
  | Dlclose plugin

record plugin_state =
  panda_plugins :: "panda_plugin list"
  nb_panda_plugins :: int
  panda_plugins_to_unload :: "bool list"
  panda_plugin_to_unload :: bool
  panda_plugins_loaded :: "string list"
  panda_please_flush_tb :: bool
  panda_update_pc :: bool
  panda_use_memcb :: bool
  panda_tb_chaining :: bool
  plugin_cbs :: cb_state
  plugin_calls :: "plugin_call list"

definition init_plugins :: plugin_state where
  "init_plugins = \<lparr>panda_plugins = replicate MAX_PANDA_PLUGINS \<lparr>plugin_name = '''', plugin_handle = 0\<rparr>,
     nb_panda_plugins = 0, panda_plugins_to_unload = replicate MAX_PANDA_PLUGINS False,
     panda_plugin_to_unload = False, panda_plugins_loaded = [], panda_please_flush_tb = False,
     panda_update_pc = False, panda_use_memcb = False, panda_tb_chaining = True,
     plugin_cbs = init_cbs, plugin_calls = []\<rparr>"

text \<open>
  The dynamic loader, which may answer differently every time, and the entry points of the
  libraries. They run in the emulator and may call its plugin interface.
\<close>

record plugin_lib =
  dlopen :: "plugin_call list \<Rightarrow> string \<Rightarrow> plugin option"
  dlsym_init :: "plugin \<Rightarrow> (plugin_state \<Rightarrow> rr_exit + (bool \<times> plugin_state)) option"
  dlsym_uninit :: "plugin \<Rightarrow> (plugin_state \<Rightarrow> rr_exit + plugin_state) option"

definition called_in :: "plugin_call \<Rightarrow> plugin_state \<Rightarrow> plugin_state" where
  "called_in c s = s\<lparr>plugin_calls := plugin_calls s @ [c]\<rparr>"

section \<open>Loading\<close>

definition panda_load_plugin :: "plugin_lib \<Rightarrow> string \<Rightarrow> plugin_state \<Rightarrow> rr_exit + (bool \<times> plugin_state)" where
  "panda_load_plugin L filename s =
     (if filename \<in> set (panda_plugins_loaded s) then Inr (True, s)
      else if length (panda_plugins_loaded s) \<ge> MAX_PANDA_PLUGINS then Inl Out_of_bounds
      else
        let s' = called_in (Dlopen filename) (s\<lparr>panda_plugins_loaded := panda_plugins_loaded s @ [filename]\<rparr>) in
        case dlopen L (plugin_calls s) filename of
          None \<Rightarrow> Inr (False, s')
        | Some plugin \<Rightarrow>
            (case dlsym_init L plugin of
               None \<Rightarrow> Inr (False, called_in (Dlclose plugin) s')
             | Some init_fn \<Rightarrow>
                 bindR (init_fn (called_in (Init_plugin plugin) s')) (\<lambda>(ok, s).
                 if ok then
                   if 0 \<le> nb_panda_plugins s \<and> nb_panda_plugins s < int MAX_PANDA_PLUGINS then
                     Inr (True, s\<lparr>panda_plugins := (panda_plugins s)[nat (nb_panda_plugins s) :=
                             \<lparr>plugin_name = take 256 (basename (Some filename)), plugin_handle = plugin\<rparr>],
                           nb_panda_plugins := nb_panda_plugins s + 1\<rparr>)
                   else Inl Out_of_bounds
                 else Inr (False, called_in (Dlclose plugin) s))))"

definition panda_require :: "plugin_lib \<Rightarrow> panda_env \<Rightarrow> string \<Rightarrow> plugin_state \<Rightarrow> rr_exit + plugin_state" where
  "panda_require L E name s =
     bindR (panda_load_plugin L (panda_plugin_path E name) s) (\<lambda>(ok, s).
     bindR (rr_assert ok ''panda_require: FAIL'') (\<lambda>_. Inr s))"

text \<open>The loop of \<^verbatim>\<open>main\<close> over the files given on the command line; it aborts at the first failure.\<close>

fun load_plugins :: "plugin_lib \<Rightarrow> string list \<Rightarrow> plugin_state \<Rightarrow> rr_exit + plugin_state" where
  "load_plugins L [] s = Inr s"
| "load_plugins L (f # fs) s =
     bindR (panda_load_plugin L f s) (\<lambda>(ok, s).
     bindR (rr_assert ok ''FAIL: Unable to load plugin'') (\<lambda>_. load_plugins L fs s))"

definition loaded_plugins :: "plugin_state \<Rightarrow> panda_plugin list" where
  "loaded_plugins s = take (nat (nb_panda_plugins s)) (panda_plugins s)"

definition panda_get_plugin_by_name :: "string \<Rightarrow> plugin_state \<Rightarrow> plugin option" where
  "panda_get_plugin_by_name name s =
     map_option plugin_handle
       (find (\<lambda>p. take 256 (plugin_name p) = take 256 name) (loaded_plugins s))"

section \<open>Unloading\<close>

text \<open>
  \<^verbatim>\<open>memmove\<close> closes the gap; with an index beyond the last plugin the number of bytes is
  negative, an enormous unsigned size. The slot of the last plugin keeps its old contents.
\<close>

definition panda_delete_plugin :: "int \<Rightarrow> plugin_state \<Rightarrow> rr_exit + plugin_state" where
  "panda_delete_plugin i s =
     (let n = nb_panda_plugins s; ps = panda_plugins s in
      bindR
        (if i \<noteq> n - 1 then
           if n - i - 1 < 0 then Inl Undefined_behaviour
           else Inr (take (nat i) ps @ take (nat (n - i - 1)) (drop (nat (i + 1)) ps) @ drop (nat (n - 1)) ps)
         else Inr ps) (\<lambda>ps.
      Inr (s\<lparr>panda_plugins := ps, nb_panda_plugins := n - 1\<rparr>)))"

definition panda_do_unload_plugin :: "plugin_lib \<Rightarrow> int \<Rightarrow> plugin_state \<Rightarrow> rr_exit + plugin_state" where
  "panda_do_unload_plugin L plugin_idx s =
     (if plugin_idx < 0 \<or> plugin_idx \<ge> int MAX_PANDA_PLUGINS then Inl Out_of_bounds
      else
        let plugin = plugin_handle (panda_plugins s ! nat plugin_idx) in
        bindR (case dlsym_uninit L plugin of
                 None \<Rightarrow> Inr s
               | Some uninit_fn \<Rightarrow> uninit_fn (called_in (Uninit_plugin plugin) s)) (\<lambda>s.
        bindR (panda_unregister_callbacks plugin (plugin_cbs s)) (\<lambda>c.
        bindR (panda_delete_plugin plugin_idx (s\<lparr>plugin_cbs := c\<rparr>)) (\<lambda>s.
        Inr (called_in (Dlclose plugin) s)))))"

definition panda_unload_plugin_idx :: "int \<Rightarrow> plugin_state \<Rightarrow> plugin_state" where
  "panda_unload_plugin_idx plugin_idx s =
     (if plugin_idx \<ge> nb_panda_plugins s \<or> plugin_idx < 0 then s
      else s\<lparr>panda_plugin_to_unload := True,
             panda_plugins_to_unload := (panda_plugins_to_unload s)[nat plugin_idx := True]\<rparr>)"

fun find_index :: "('a \<Rightarrow> bool) \<Rightarrow> 'a list \<Rightarrow> nat option" where
  "find_index P [] = None"
| "find_index P (x # xs) = (if P x then Some 0 else map_option Suc (find_index P xs))"

definition panda_unload_plugin :: "plugin \<Rightarrow> plugin_state \<Rightarrow> plugin_state" where
  "panda_unload_plugin plugin s =
     (case find_index (\<lambda>p. plugin_handle p = plugin) (loaded_plugins s) of
        None \<Rightarrow> s
      | Some i \<Rightarrow> panda_unload_plugin_idx (int i) s)"

text \<open>
  The loop of \<^verbatim>\<open>panda_unload_plugins\<close>. A plugin that loads plugins when it is unloaded can keep
  it going forever: \<open>None\<close> is the result of a run that does not end.
\<close>

partial_function (option) panda_unload_plugins ::
    "plugin_lib \<Rightarrow> plugin_state \<Rightarrow> (rr_exit + plugin_state) option" where
  "panda_unload_plugins L s =
     (if nb_panda_plugins s > 0 then
        case panda_do_unload_plugin L (nb_panda_plugins s - 1) s of
          Inl e \<Rightarrow> Some (Inl e)
        | Inr s \<Rightarrow> panda_unload_plugins L s
      else Some (Inr s))"

text \<open>The check in the execution loop: flagged plugins are unloaded, the lowest index first.\<close>

definition unload_flagged :: "plugin_lib \<Rightarrow> plugin_state \<Rightarrow> rr_exit + plugin_state" where
  "unload_flagged L s =
     (if panda_plugin_to_unload s then
        for_types MAX_PANDA_PLUGINS (\<lambda>i s.
          if panda_plugins_to_unload s ! i then
            bindR (panda_do_unload_plugin L (int i) s) (\<lambda>s.
            Inr (s\<lparr>panda_plugins_to_unload := (panda_plugins_to_unload s)[i := False]\<rparr>))
          else Inr s) (s\<lparr>panda_plugin_to_unload := False\<rparr>)
      else Inr s)"

section \<open>The monitor\<close>

definition qmp_load_plugin :: "plugin_lib \<Rightarrow> string option \<Rightarrow> plugin_state \<Rightarrow> rr_exit + plugin_state" where
  "qmp_load_plugin L filename s =
     (case filename of
        None \<Rightarrow> Inl Null_deref
      | Some f \<Rightarrow> bindR (panda_load_plugin L f s) (\<lambda>(_, s). Inr s))"

definition qmp_unload_plugin :: "int \<Rightarrow> plugin_state \<Rightarrow> plugin_state" where
  "qmp_unload_plugin index s =
     (if index \<ge> nb_panda_plugins s \<or> index < 0 then s else panda_unload_plugin_idx index s)"

definition hmp_panda_load_plugin :: "plugin_lib \<Rightarrow> string option \<Rightarrow> plugin_state \<Rightarrow> rr_exit + plugin_state" where
  "hmp_panda_load_plugin L filename s = qmp_load_plugin L filename s"

text \<open>The index of the command is read as 64 bits and stored in an \<^verbatim>\<open>int\<close>.\<close>

definition hmp_panda_unload_plugin :: "64 word option \<Rightarrow> plugin_state \<Rightarrow> plugin_state" where
  "hmp_panda_unload_plugin index s =
     qmp_unload_plugin (case index of None \<Rightarrow> - 1 | Some i \<Rightarrow> sint (ucast i :: 32 word)) s"

definition hmp_panda_list_plugins :: "plugin_state \<Rightarrow> (nat \<times> string \<times> plugin) list" where
  "hmp_panda_list_plugins s =
     map (\<lambda>(i, p). (i, plugin_name p, plugin_handle p)) (enumerate 0 (loaded_plugins s))"

text \<open>The callbacks that get the command.\<close>

definition hmp_panda_plugin_cmd :: "plugin_state \<Rightarrow> rr_exit + panda_cb list" where
  "hmp_panda_plugin_cmd s = run_callbacks PANDA_CB_MONITOR (plugin_cbs s)"

section \<open>Flags\<close>

definition panda_flush_tb :: "plugin_state \<Rightarrow> bool \<times> plugin_state" where
  "panda_flush_tb s =
     (if panda_please_flush_tb s then (True, s\<lparr>panda_please_flush_tb := False\<rparr>) else (False, s))"

definition panda_do_flush_tb :: "plugin_state \<Rightarrow> plugin_state" where
  "panda_do_flush_tb s = s\<lparr>panda_please_flush_tb := True\<rparr>"

definition panda_enable_precise_pc :: "plugin_state \<Rightarrow> plugin_state" where
  "panda_enable_precise_pc s = s\<lparr>panda_update_pc := True\<rparr>"

definition panda_disable_precise_pc :: "plugin_state \<Rightarrow> plugin_state" where
  "panda_disable_precise_pc s = s\<lparr>panda_update_pc := False\<rparr>"

definition panda_enable_memcb :: "plugin_state \<Rightarrow> plugin_state" where
  "panda_enable_memcb s = s\<lparr>panda_use_memcb := True\<rparr>"

definition panda_disable_memcb :: "plugin_state \<Rightarrow> plugin_state" where
  "panda_disable_memcb s = s\<lparr>panda_use_memcb := False\<rparr>"

definition panda_enable_tb_chaining :: "plugin_state \<Rightarrow> plugin_state" where
  "panda_enable_tb_chaining s = s\<lparr>panda_tb_chaining := True\<rparr>"

definition panda_disable_tb_chaining :: "plugin_state \<Rightarrow> plugin_state" where
  "panda_disable_tb_chaining s = s\<lparr>panda_tb_chaining := False\<rparr>"


section \<open>The table of plugins\<close>

definition plugins_inv :: "plugin_state \<Rightarrow> bool" where
  "plugins_inv s \<longleftrightarrow> length (panda_plugins s) = MAX_PANDA_PLUGINS
     \<and> length (panda_plugins_to_unload s) = MAX_PANDA_PLUGINS
     \<and> 0 \<le> nb_panda_plugins s \<and> nb_panda_plugins s \<le> int MAX_PANDA_PLUGINS \<and> cbs_inv (plugin_cbs s)"

lemma called_in_simps [simp]:
  "panda_plugins (called_in c s) = panda_plugins s" "nb_panda_plugins (called_in c s) = nb_panda_plugins s"
  "panda_plugins_to_unload (called_in c s) = panda_plugins_to_unload s"
  "panda_plugin_to_unload (called_in c s) = panda_plugin_to_unload s"
  "panda_plugins_loaded (called_in c s) = panda_plugins_loaded s" "plugin_cbs (called_in c s) = plugin_cbs s"
  "plugin_calls (called_in c s) = plugin_calls s @ [c]" "loaded_plugins (called_in c s) = loaded_plugins s"
  "plugins_inv (called_in c s) = plugins_inv s"
  by (simp_all add: called_in_def loaded_plugins_def plugins_inv_def)

lemma init_plugins_inv [simp]: "plugins_inv init_plugins" "loaded_plugins init_plugins = []"
  by (simp_all add: plugins_inv_def init_plugins_def loaded_plugins_def)

lemma length_loaded: "plugins_inv s \<Longrightarrow> int (length (loaded_plugins s)) = nb_panda_plugins s"
  by (auto simp: plugins_inv_def loaded_plugins_def min_def)

definition delete_at :: "nat \<Rightarrow> 'a list \<Rightarrow> 'a list" where
  "delete_at i xs = take i xs @ drop (Suc i) xs"

lemma take_delete: "i < n \<Longrightarrow> n \<le> length xs \<Longrightarrow>
    take (n - 1) (take i xs @ take (n - i - 1) (drop (i + 1) xs) @ drop (n - 1) xs) = delete_at i (take n xs)"
proof -
  assume a: "i < n" "n \<le> length xs"
  show ?thesis
  proof (cases "n = Suc i")
    case True
    then show ?thesis by (simp add: delete_at_def)
  next
    case False
    with a have "i < n - 1" by simp
    with a show ?thesis by (auto simp: delete_at_def drop_take min_def)
  qed
qed

lemma panda_delete_plugin_table:
  assumes "plugins_inv s" and "i < length (loaded_plugins s)"
  obtains ps where
    "panda_delete_plugin (int i) s = Inr (s\<lparr>panda_plugins := ps, nb_panda_plugins := nb_panda_plugins s - 1\<rparr>)"
    "length ps = MAX_PANDA_PLUGINS" "take (nat (nb_panda_plugins s - 1)) ps = delete_at i (loaded_plugins s)"
    "ps ! (length (loaded_plugins s) - 1) = panda_plugins s ! (length (loaded_plugins s) - 1)"
proof -
  let ?n = "nat (nb_panda_plugins s)" and ?ps = "panda_plugins s"
  let ?qs = "if int i \<noteq> nb_panda_plugins s - 1 then take i ?ps @ take (?n - i - 1) (drop (i + 1) ?ps) @ drop (?n - 1) ?ps else ?ps"
  have n: "int ?n = nb_panda_plugins s" "i < ?n" "?n \<le> length ?ps" "length ?ps = MAX_PANDA_PLUGINS"
    using assms length_loaded [OF assms(1)] by (auto simp: plugins_inv_def loaded_plugins_def)
  have nats: "nat (nb_panda_plugins s - int i - 1) = ?n - i - 1" "nat (nb_panda_plugins s - 1) = ?n - 1"
    "nat (int i + 1) = i + 1" using n by simp_all
  have "\<not> nb_panda_plugins s - int i - 1 < 0" using n by linarith
  then have "panda_delete_plugin (int i) s = Inr (s\<lparr>panda_plugins := ?qs, nb_panda_plugins := nb_panda_plugins s - 1\<rparr>)"
    unfolding panda_delete_plugin_def Let_def nats by simp
  moreover have "length ?qs = MAX_PANDA_PLUGINS" using n by auto
  moreover have "take (nat (nb_panda_plugins s - 1)) ?qs = delete_at i (loaded_plugins s)"
  proof (cases "int i = nb_panda_plugins s - 1")
    case True
    then have "?n = Suc i" using n by linarith
    with True n show ?thesis by (simp add: nats delete_at_def loaded_plugins_def)
  next
    case False
    then show ?thesis unfolding nats using take_delete [OF n(2,3)] by (simp add: loaded_plugins_def)
  qed
  moreover have "?qs ! (length (loaded_plugins s) - 1) = ?ps ! (length (loaded_plugins s) - 1)"
  proof -
    have l: "length (loaded_plugins s) = ?n" "length (take i ?ps @ take (?n - i - 1) (drop (i + 1) ?ps)) = ?n - 1"
      using n by (auto simp: loaded_plugins_def)
    then show ?thesis
      using n nth_append_length_plus [of "take i ?ps @ take (?n - i - 1) (drop (i + 1) ?ps)" "drop (?n - 1) ?ps" 0]
      by simp
  qed
  ultimately show ?thesis by (rule that)
qed

text \<open>A plugin whose exit function, if it has one, leaves the plugin manager alone.\<close>

definition quiet :: "plugin_lib \<Rightarrow> plugin \<Rightarrow> bool" where
  "quiet L p \<longleftrightarrow> dlsym_uninit L p = None \<or> dlsym_uninit L p = Some Inr"

definition exit_calls :: "plugin_lib \<Rightarrow> plugin \<Rightarrow> plugin_call list" where
  "exit_calls L p = (if dlsym_uninit L p = None then [] else [Uninit_plugin p]) @ [Dlclose p]"

definition without :: "plugin \<Rightarrow> (panda_cb \<times> plugin \<times> bool) list \<Rightarrow> (panda_cb \<times> plugin \<times> bool) list" where
  "without p xs = filter (\<lambda>(c, ow, e). ow \<noteq> p) xs"

lemma do_unload_steps:
  assumes "plugins_inv s" and "i < length (loaded_plugins s)" and p: "p = plugin_handle (loaded_plugins s ! i)"
    and "quiet L p"
  shows "\<exists>t. panda_do_unload_plugin L (int i) s =
      bindR (panda_unregister_callbacks p (plugin_cbs s)) (\<lambda>c.
      bindR (panda_delete_plugin (int i) (t\<lparr>plugin_cbs := c\<rparr>)) (\<lambda>s. Inr (called_in (Dlclose p) s)))
    \<and> (t = s \<or> t = called_in (Uninit_plugin p) s) \<and> plugin_calls t @ [Dlclose p] = plugin_calls s @ exit_calls L p"
proof -
  have i: "int i < int MAX_PANDA_PLUGINS" "nat (int i) = i" "panda_plugins s ! i = loaded_plugins s ! i"
    using assms(1,2) length_loaded [OF assms(1)] by (auto simp: plugins_inv_def loaded_plugins_def)
  have rng: "(int i < 0 \<or> int MAX_PANDA_PLUGINS \<le> int i) = False" using i(1) by simp
  show ?thesis
  proof (cases "dlsym_uninit L p = None")
    case True
    then show ?thesis
      by (intro exI [of _ s]) (simp only: panda_do_unload_plugin_def rng if_False i p [symmetric] Let_def exit_calls_def; simp)
  next
    case False
    then have "dlsym_uninit L p = Some Inr" using assms(4) unfolding quiet_def by (simp only: simp_thms)
    then show ?thesis
      by (intro exI [of _ "called_in (Uninit_plugin p) s"])
        (simp only: panda_do_unload_plugin_def rng if_False i p [symmetric] Let_def exit_calls_def; simp)
  qed
qed

lemma do_unload_removes:
  assumes "plugins_inv s" and "i < length (loaded_plugins s)" and "p = plugin_handle (loaded_plugins s ! i)"
    and "quiet L p" and "\<And>j. head_kept p (cb_view (plugin_cbs s) j)"
  obtains s' where "panda_do_unload_plugin L (int i) s = Inr s'" and "plugins_inv s'"
    and "loaded_plugins s' = delete_at i (loaded_plugins s)"
    and "\<forall>j. cb_view (plugin_cbs s') j = without p (cb_view (plugin_cbs s) j)"
    and "plugin_calls s' = plugin_calls s @ exit_calls L p"
    and "panda_plugins_to_unload s' = panda_plugins_to_unload s"
    and "panda_plugins_loaded s' = panda_plugins_loaded s"
    and "panda_plugins s' ! (length (loaded_plugins s) - 1) = panda_plugins s ! (length (loaded_plugins s) - 1)"
proof -
  from do_unload_steps [OF assms(1-4)] obtain t where
    t: "panda_do_unload_plugin L (int i) s =
      bindR (panda_unregister_callbacks p (plugin_cbs s)) (\<lambda>c.
      bindR (panda_delete_plugin (int i) (t\<lparr>plugin_cbs := c\<rparr>)) (\<lambda>s. Inr (called_in (Dlclose p) s)))"
    "t = s \<or> t = called_in (Uninit_plugin p) s" "plugin_calls t @ [Dlclose p] = plugin_calls s @ exit_calls L p" by blast
  have inv: "cbs_inv (plugin_cbs s)" using assms(1) by (simp add: plugins_inv_def)
  from unregister_inv [OF inv assms(5)] obtain c where
    c: "panda_unregister_callbacks p (plugin_cbs s) = Inr c" "cbs_inv c"
      "\<And>j. cb_view c j = without p (cb_view (plugin_cbs s) j)"
    unfolding without_def by blast
  let ?t = "t\<lparr>plugin_cbs := c\<rparr>"
  have tt: "plugins_inv ?t" "loaded_plugins ?t = loaded_plugins s" "nb_panda_plugins ?t = nb_panda_plugins s"
    using t(2) assms(1) c(2) by (auto simp: plugins_inv_def loaded_plugins_def)
  have il: "i < length (loaded_plugins ?t)" using assms(2) tt(2) by simp
  from panda_delete_plugin_table [OF tt(1) il, unfolded tt(2,3)] obtain ps where
    ps: "panda_delete_plugin (int i) ?t = Inr (?t\<lparr>panda_plugins := ps, nb_panda_plugins := nb_panda_plugins s - 1\<rparr>)"
      "length ps = MAX_PANDA_PLUGINS" "take (nat (nb_panda_plugins s - 1)) ps = delete_at i (loaded_plugins s)"
      "ps ! (length (loaded_plugins s) - 1) = panda_plugins ?t ! (length (loaded_plugins s) - 1)" .
  let ?s = "called_in (Dlclose p) (?t\<lparr>panda_plugins := ps, nb_panda_plugins := nb_panda_plugins s - 1\<rparr>)"
  have "panda_do_unload_plugin L (int i) s = Inr ?s" unfolding t(1) c(1) bindR_simps ps(1) ..
  moreover have "1 \<le> nb_panda_plugins s" using assms(2) length_loaded [OF assms(1)] by linarith
  then have "plugins_inv ?s" using tt(1,3) ps(2) by (simp add: plugins_inv_def)
  moreover have "loaded_plugins ?s = delete_at i (loaded_plugins s)" using ps(3) by (simp add: loaded_plugins_def)
  moreover have "panda_plugins_to_unload ?s = panda_plugins_to_unload s" "panda_plugins_loaded ?s = panda_plugins_loaded s"
    using t(2) by auto
  moreover have "plugin_calls ?s = plugin_calls s @ exit_calls L p" using t(3) by simp
  moreover have "panda_plugins ?s ! (length (loaded_plugins s) - 1) = panda_plugins s ! (length (loaded_plugins s) - 1)"
    using ps(4) t(2) by auto
  ultimately show ?thesis using c(3) by (intro that [of ?s]) simp_all
qed


section \<open>Unloading all plugins\<close>

definition one_owner :: "(panda_cb \<times> plugin \<times> bool) list \<Rightarrow> bool" where
  "one_owner xs \<longleftrightarrow> (\<exists>q. \<forall>x \<in> set xs. fst (snd x) = q)"

lemma one_owner_kept: "one_owner xs \<Longrightarrow> head_kept p xs"
  by (cases xs) (auto simp: one_owner_def head_kept_def)

lemma one_owner_without: "one_owner xs \<Longrightarrow> one_owner (without p xs)"
  unfolding one_owner_def without_def by (elim exE, rule exI) auto

lemma unload_plugins_run:
  assumes "loaded_plugins s = ps" and "plugins_inv s" and "\<And>p. p \<in> set ps \<Longrightarrow> quiet L (plugin_handle p)"
    and "\<And>j. one_owner (cb_view (plugin_cbs s) j)"
  shows "\<exists>s'. panda_unload_plugins L s = Some (Inr s') \<and> plugins_inv s' \<and> loaded_plugins s' = []
    \<and> plugin_calls s' = plugin_calls s @ concat (map (exit_calls L \<circ> plugin_handle) (rev ps))
    \<and> (\<forall>j. cb_view (plugin_cbs s') j = filter (\<lambda>(c, ow, e). ow \<notin> plugin_handle ` set ps) (cb_view (plugin_cbs s) j))"
  using assms
proof (induction ps arbitrary: s rule: rev_induct)
  case Nil
  then have "nb_panda_plugins s = 0" using length_loaded [OF Nil.prems(2)] by simp
  with Nil show ?case by (simp add: panda_unload_plugins.simps [of L s])
next
  case (snoc p ps)
  let ?h = "plugin_handle p" and ?i = "length ps"
  have i: "?i < length (loaded_plugins s)" "?h = plugin_handle (loaded_plugins s ! ?i)" using snoc.prems(1) by simp_all
  have nb: "nb_panda_plugins s - 1 = int ?i" "0 < nb_panda_plugins s"
    using length_loaded [OF snoc.prems(2)] snoc.prems(1) by simp_all
  have q: "quiet L ?h" "\<And>j. head_kept ?h (cb_view (plugin_cbs s) j)"
    using snoc.prems(3,4) one_owner_kept by auto
  from do_unload_removes [OF snoc.prems(2) i q] obtain s1 where
    s1: "panda_do_unload_plugin L (int ?i) s = Inr s1" "plugins_inv s1"
      "loaded_plugins s1 = delete_at ?i (loaded_plugins s)"
      "\<forall>j. cb_view (plugin_cbs s1) j = without ?h (cb_view (plugin_cbs s) j)"
      "plugin_calls s1 = plugin_calls s @ exit_calls L ?h" "panda_plugins_to_unload s1 = panda_plugins_to_unload s"
      "panda_plugins_loaded s1 = panda_plugins_loaded s"
      "panda_plugins s1 ! (length (loaded_plugins s) - 1) = panda_plugins s ! (length (loaded_plugins s) - 1)" .
  have l1: "loaded_plugins s1 = ps" using s1(3) snoc.prems(1) by (simp add: delete_at_def)
  have o1: "\<And>j. one_owner (cb_view (plugin_cbs s1) j)" using snoc.prems(4) one_owner_without s1(4) by simp
  have q1: "\<And>p. p \<in> set ps \<Longrightarrow> quiet L (plugin_handle p)" using snoc.prems(3) by simp
  from snoc.IH [OF l1 s1(2) q1 o1] obtain s' where
    s': "panda_unload_plugins L s1 = Some (Inr s')" "plugins_inv s'" "loaded_plugins s' = []"
      "plugin_calls s' = plugin_calls s1 @ concat (map (exit_calls L \<circ> plugin_handle) (rev ps))"
      "\<And>j. cb_view (plugin_cbs s') j = filter (\<lambda>(c, ow, e). ow \<notin> plugin_handle ` set ps) (cb_view (plugin_cbs s1) j)"
    by blast
  have "panda_unload_plugins L s = Some (Inr s')"
    unfolding panda_unload_plugins.simps [of L s] nb(1) s1(1) using nb(2) s'(1) by simp
  moreover have "cb_view (plugin_cbs s') j
      = filter (\<lambda>(c, ow, e). ow \<notin> plugin_handle ` set (ps @ [p])) (cb_view (plugin_cbs s) j)" for j
    unfolding s'(5) s1(4) [rule_format] without_def filter_filter by (intro filter_cong) auto
  ultimately show ?case using s'(2-4) s1(5) by (simp add: comp_def)
qed

section \<open>Unregistering after a head was freed\<close>

lemma for_types_fail:
  assumes "j < n" and "for_types j f s = Inr t" and "f j t = Inl e"
  shows "for_types n f s = Inl e"
  using assms(1)
proof (induction n)
  case (Suc n)
  then show ?case using assms(2,3) by (cases "j = n") auto
qed simp

lemma least_broken:
  assumes "cbs_shape s L" and "\<not> head_kept pl (cb_view s i)"
  obtains j a as where "j < PANDA_CB_LAST" and "L j = a # as" and "owned pl (cb_mem s) a"
    and "kept pl (cb_mem s) (L j) \<noteq> []" and "\<forall>k<j. head_kept pl (cb_view s k)"
proof -
  let ?j = "LEAST j. \<not> head_kept pl (cb_view s j)"
  have j: "\<not> head_kept pl (cb_view s ?j)" using assms(2) by (rule LeastI)
  then obtain a as where a: "L ?j = a # as" "owned pl (cb_mem s) a" "kept pl (cb_mem s) (L ?j) \<noteq> []"
    by (cases "L ?j") (auto simp: head_kept_shape [OF assms(1)])
  have "?j < 31" using assms(1) a(1) by (metis cbs_shape_def leI list.distinct(1))
  with a show ?thesis by (intro that [of ?j]) (use not_less_Least in blast)+
qed

lemma unregister_after_broken:
  assumes "cbs_inv s" and "\<not> head_kept pl (cb_view s i)"
  obtains s' where "panda_unregister_callbacks pl s = Inr s'" and "panda_unregister_callbacks ql s' = Inl Use_after_free"
proof -
  from assms(1) obtain L where sh: "cbs_shape s L" by (auto simp: cbs_inv_def)
  let ?k = "\<lambda>i. kept pl (cb_mem s) (L i)"
  from unregister_shape [OF sh] obtain s' where run: "panda_unregister_callbacks pl s = Inr s'"
    and u: "unregistered pl s L PANDA_CB_LAST s'" by blast
  from least_broken [OF sh assms(2)] obtain j a as where
    j: "j < PANDA_CB_LAST" "L j = a # as" "owned pl (cb_mem s) a" "?k j \<noteq> []"
      "\<forall>k<j. head_kept pl (cb_view s k)" .
  have d: "dll (cb_mem s) None (panda_cbs s i) (L i)" and dst: "distinct (L i)" for i
    using sh by (simp_all add: cbs_shape_def)
  have disj: "x \<in> set (L m) \<Longrightarrow> x \<in> set (L n) \<Longrightarrow> m = n" for x m n
    using sh by (metis IntI cbs_shape_def empty_iff)
  have freed: "panda_cbs s' j = Some a" "cb_mem s' a = None"
    using u j(1-4) d [of j] by (auto simp: unregistered_def kept_def)
  have p: "panda_cbs s' m = first_opt (?k m)" if "m < j" for m
  proof (cases "L m = [] \<or> ?k m = []")
    case True
    then show ?thesis using u d [of m] that j(1) by (auto simp: unregistered_def kept_def)
  next
    case False
    then obtain b bs where "L m = b # bs" by (cases "L m") auto
    moreover from this False j(5) [rule_format, OF that] have "?k m = b # kept pl (cb_mem s) bs"
      by (simp add: head_kept_shape [OF sh] kept_def)
    ultimately show ?thesis using u d [of m] that j(1) by (simp add: unregistered_def)
  qed
  let ?f = "\<lambda>i (s :: cb_state). unregister_loop (cb_fresh s) ql i (panda_cbs s i) s"
  let ?P = "\<lambda>n (t :: cb_state). cb_fresh t = cb_fresh s' \<and> (\<forall>m \<ge> n. panda_cbs t m = panda_cbs s' m)
    \<and> (\<forall>x. (\<forall>m<n. x \<notin> set (L m)) \<longrightarrow> cb_mem t x = cb_mem s' x)"
  have "\<exists>t. for_types j ?f s' = Inr t \<and> ?P j t"
  proof (rule for_types_inv)
    fix m t assume m: "m < j" and P: "?P m t"
    have same: "cb_mem t x = cb_mem s' x" if "x \<in> set (L m)" for x
      using P disj [OF that] by (metis less_irrefl)
    have "dll (cb_mem s') None (panda_cbs s' m) (?k m)"
      using u m j(1) unfolding p [OF m] by (simp add: unregistered_def)
    then have dm: "dll (cb_mem t) None (panda_cbs t m) (?k m)"
      using P same by (subst dll_cong [where h = "cb_mem s'"]) (auto simp: kept_def)
    have fr: "cb_fresh t = cb_fresh s" using P u by (simp add: unregistered_def)
    have "distinct (?k m)" "length (?k m) \<le> cb_fresh t"
      using dst [of m] le_trans [OF length_filter_le cbs_shape_length [OF sh, of m]] by (simp_all add: kept_def fr)
    from unregister_loop_dll [OF dm this _ refl, of ql m] obtain h where
      "?f m t = Inr (t\<lparr>cb_mem := h, panda_cbs := (if ?k m \<noteq> [] \<and> filter (\<lambda>a. \<not> owned ql (cb_mem t) a) (?k m) = []
          then (panda_cbs t)(m := None) else panda_cbs t)\<rparr>)"
      "unlinked (cb_mem t) None (?k m) (filter (\<lambda>a. \<not> owned ql (cb_mem t) a) (?k m)) h" by auto
    moreover from this(2) have "h x = cb_mem t x" if "x \<notin> set (L m)" for x
      using that by (auto simp: unlinked_def kept_def)
    ultimately show "\<exists>t'. ?f m t = Inr t' \<and> ?P (Suc m) t'" using P by (auto simp: less_Suc_eq)
  qed auto
  then obtain t where t: "for_types j ?f s' = Inr t" "?P j t" by blast
  have "cb_mem t a = None" using t(2) freed(2) disj [of a _ j] j(2) by (metis less_irrefl list.set_intros(1))
  moreover have "panda_cbs t j = Some a" using t(2) freed(1) by simp
  moreover have "cb_fresh t = cb_fresh s" using t(2) u by (simp add: unregistered_def)
  then obtain n where "cb_fresh t = Suc n"
    using cbs_shape_length [OF sh, of j] j(2) by (metis Suc_le_D length_Cons)
  ultimately have "?f j t = Inl Use_after_free" by simp
  from for_types_fail [OF j(1) t(1) this] run that show ?thesis by (simp add: panda_unregister_callbacks_def)
qed


section \<open>Unloading flagged plugins\<close>

text \<open>One step of the loop in the execution loop.\<close>

definition flagged_step :: "plugin_lib \<Rightarrow> nat \<Rightarrow> plugin_state \<Rightarrow> rr_exit + plugin_state" where
  "flagged_step L i s =
     (if panda_plugins_to_unload s ! i then
        bindR (panda_do_unload_plugin L (int i) s) (\<lambda>s.
        Inr (s\<lparr>panda_plugins_to_unload := (panda_plugins_to_unload s)[i := False]\<rparr>))
      else Inr s)"

lemma unload_flagged_steps:
  "unload_flagged L s =
     (if panda_plugin_to_unload s
      then for_types MAX_PANDA_PLUGINS (flagged_step L) (s\<lparr>panda_plugin_to_unload := False\<rparr>) else Inr s)"
  unfolding unload_flagged_def flagged_step_def ..

lemma flagged_step_simps:
  "panda_plugins_to_unload s ! i \<Longrightarrow> flagged_step L i s = bindR (panda_do_unload_plugin L (int i) s) (\<lambda>s.
     Inr (s\<lparr>panda_plugins_to_unload := (panda_plugins_to_unload s)[i := False]\<rparr>))"
  "\<not> panda_plugins_to_unload s ! i \<Longrightarrow> flagged_step L i s = Inr s"
  by (simp_all add: flagged_step_def)

lemma flagged_none:
  assumes "\<And>k. k < m \<Longrightarrow> \<not> panda_plugins_to_unload s ! k"
  shows "for_types m (flagged_step L) s = Inr s"
  using assms by (induction m) (simp_all add: flagged_step_simps)

lemma flagged_one:
  assumes "i < m" and "\<And>k. k < m \<Longrightarrow> panda_plugins_to_unload s ! k \<longleftrightarrow> k = i"
    and "m \<le> length (panda_plugins_to_unload s)"
    and "panda_do_unload_plugin L (int i) s = Inr s1" and "panda_plugins_to_unload s1 = panda_plugins_to_unload s"
  shows "for_types m (flagged_step L) s =
    Inr (s1\<lparr>panda_plugins_to_unload := (panda_plugins_to_unload s)[i := False]\<rparr>)"
  using assms(1-3)
proof (induction m)
  case (Suc m)
  show ?case
  proof (cases "i = m")
    case True
    have "for_types m (flagged_step L) s = Inr s" using Suc.prems(2) True by (intro flagged_none) auto
    with True assms(4,5) Suc.prems(2) [of m] show ?thesis by (simp add: flagged_step_simps)
  next
    case False
    then have m: "i < m" "\<not> panda_plugins_to_unload s ! m" using Suc.prems(1) Suc.prems(2) [of m] by auto
    then have "for_types m (flagged_step L) s = Inr (s1\<lparr>panda_plugins_to_unload := (panda_plugins_to_unload s)[i := False]\<rparr>)"
      using Suc.prems(2,3) by (intro Suc.IH) auto
    with m show ?thesis by (simp add: flagged_step_simps)
  qed
qed simp

lemma flagged_two:
  assumes inv: "plugins_inv s" and i: "i < n" and n: "Suc n = length (loaded_plugins s)"
    and flags: "\<And>k. k < Suc n \<Longrightarrow> panda_plugins_to_unload s ! k \<longleftrightarrow> k = i \<or> k = n"
    and quiet: "quiet L (plugin_handle (loaded_plugins s ! i))" "quiet L (plugin_handle (loaded_plugins s ! n))"
    and one: "\<And>j. one_owner (cb_view (plugin_cbs s) j)"
  shows "for_types MAX_PANDA_PLUGINS (flagged_step L) s = Inl Undefined_behaviour"
proof -
  let ?p = "plugin_handle (loaded_plugins s ! i)" and ?q = "plugin_handle (loaded_plugins s ! n)"
  have il: "i < length (loaded_plugins s)" using i n by simp
  have "\<And>j. head_kept ?p (cb_view (plugin_cbs s) j)" using one by (rule one_owner_kept)
  from do_unload_removes [OF inv il refl quiet(1) this] obtain s1 where
    s1: "panda_do_unload_plugin L (int i) s = Inr s1" "plugins_inv s1"
      "loaded_plugins s1 = delete_at i (loaded_plugins s)"
      "\<forall>j. cb_view (plugin_cbs s1) j = without ?p (cb_view (plugin_cbs s) j)"
      "plugin_calls s1 = plugin_calls s @ exit_calls L ?p" "panda_plugins_to_unload s1 = panda_plugins_to_unload s"
      "panda_plugins_loaded s1 = panda_plugins_loaded s"
      "panda_plugins s1 ! (length (loaded_plugins s) - 1) = panda_plugins s ! (length (loaded_plugins s) - 1)" .
  let ?s = "s1\<lparr>panda_plugins_to_unload := (panda_plugins_to_unload s)[i := False]\<rparr>"
  have len: "Suc n \<le> MAX_PANDA_PLUGINS" "length (panda_plugins_to_unload s) = MAX_PANDA_PLUGINS"
    using length_loaded [OF inv] inv n by (simp_all add: plugins_inv_def)
  have first: "for_types n (flagged_step L) s = Inr ?s"
    using i flags len s1(1,6) by (intro flagged_one) auto
  have nb: "nb_panda_plugins ?s = int n"
    using length_loaded [OF s1(2)] s1(3) i n by (simp add: delete_at_def)
  have slot: "plugin_handle (panda_plugins ?s ! n) = ?q"
    using s1(8) n [symmetric] by (simp add: loaded_plugins_def)
  have inv1: "plugins_inv ?s" using s1(2) len(2) by (simp add: plugins_inv_def)
  have hk: "head_kept ?q (cb_view (plugin_cbs ?s) j)" for j
    using one_owner_kept [OF one_owner_without [OF one]] s1(4) by simp
  have "cbs_inv (plugin_cbs ?s)" using inv1 by (simp add: plugins_inv_def)
  from unregister_inv [OF this hk] obtain c where c: "panda_unregister_callbacks ?q (plugin_cbs s1) = Inr c" by auto
  have "panda_do_unload_plugin L (int n) ?s = Inl Undefined_behaviour"
  proof -
    have "(int n < 0 \<or> int MAX_PANDA_PLUGINS \<le> int n) = False" using len(1) by simp
    moreover have "(case dlsym_uninit L ?q of None \<Rightarrow> Inr ?s | Some f \<Rightarrow> f (called_in (Uninit_plugin ?q) ?s))
        \<in> {Inr ?s, Inr (called_in (Uninit_plugin ?q) ?s)}"
      using quiet(2) by (cases "dlsym_uninit L ?q = None") (auto simp: quiet_def)
    ultimately show ?thesis
      using c nb by (auto simp: panda_do_unload_plugin_def slot [simplified] panda_delete_plugin_def Let_def)
  qed
  moreover have "panda_plugins_to_unload ?s ! n" using flags [of n] i by simp
  ultimately have "flagged_step L n ?s = Inl Undefined_behaviour" by (simp add: flagged_step_simps)
  from for_types_fail [OF _ first this] len(1) show ?thesis by simp
qed


lemma flagged_removes:
  assumes "plugins_inv s" and "i < length (loaded_plugins s)" and "quiet L (plugin_handle (loaded_plugins s ! i))"
    and "\<And>j. one_owner (cb_view (plugin_cbs s) j)"
    and "\<And>k. k < MAX_PANDA_PLUGINS \<Longrightarrow> panda_plugins_to_unload s ! k \<longleftrightarrow> k = i"
  shows "\<exists>s'. for_types MAX_PANDA_PLUGINS (flagged_step L) s = Inr s' \<and> plugins_inv s'
    \<and> loaded_plugins s' = delete_at i (loaded_plugins s) \<and> True \<notin> set (panda_plugins_to_unload s')"
proof -
  let ?p = "plugin_handle (loaded_plugins s ! i)"
  have hk: "\<And>j. head_kept ?p (cb_view (plugin_cbs s) j)" using assms(4) by (rule one_owner_kept)
  obtain s1 where s1: "panda_do_unload_plugin L (int i) s = Inr s1" "plugins_inv s1"
      "loaded_plugins s1 = delete_at i (loaded_plugins s)" "panda_plugins_to_unload s1 = panda_plugins_to_unload s"
    by (rule do_unload_removes [OF assms(1,2) refl assms(3) hk]) (rule that)
  let ?t = "s1\<lparr>panda_plugins_to_unload := (panda_plugins_to_unload s)[i := False]\<rparr>"
  have len: "length (panda_plugins_to_unload s) = MAX_PANDA_PLUGINS" "i < MAX_PANDA_PLUGINS"
    using assms(1,2) length_loaded [OF assms(1)] by (auto simp: plugins_inv_def)
  have "for_types MAX_PANDA_PLUGINS (flagged_step L) s = Inr ?t"
    using len assms(5) s1(1,4) by (intro flagged_one) auto
  moreover have "plugins_inv ?t" "loaded_plugins ?t = delete_at i (loaded_plugins s)"
    using s1(2,3) len(1) by (simp_all add: plugins_inv_def loaded_plugins_def)
  moreover have "True \<notin> set (panda_plugins_to_unload ?t)"
  proof
    assume "True \<in> set (panda_plugins_to_unload ?t)"
    then obtain k where "k < MAX_PANDA_PLUGINS" "(panda_plugins_to_unload s)[i := False] ! k"
      using len(1) by (auto simp: in_set_conv_nth)
    then show False using assms(5) [of k] len by (cases "k = i") simp_all
  qed
  ultimately show ?thesis by blast
qed

section \<open>Loading\<close>

text \<open>A plugin whose initialisation succeeds and changes nothing but the callbacks.\<close>

definition registers_only :: "(plugin_state \<Rightarrow> rr_exit + (bool \<times> plugin_state)) \<Rightarrow> bool" where
  "registers_only init_fn \<longleftrightarrow>
     (\<forall>s. plugins_inv s \<longrightarrow> (\<exists>c. init_fn s = Inr (True, s\<lparr>plugin_cbs := c\<rparr>) \<and> cbs_inv c))"

definition loadable :: "plugin_lib \<Rightarrow> string \<Rightarrow> plugin \<Rightarrow> plugin_state \<Rightarrow> bool" where
  "loadable L filename h s \<longleftrightarrow> filename \<notin> set (panda_plugins_loaded s)
     \<and> length (panda_plugins_loaded s) < MAX_PANDA_PLUGINS \<and> nb_panda_plugins s < int MAX_PANDA_PLUGINS
     \<and> dlopen L (plugin_calls s) filename = Some h
     \<and> (case dlsym_init L h of None \<Rightarrow> False | Some init_fn \<Rightarrow> registers_only init_fn)"

definition initialising :: "string \<Rightarrow> plugin \<Rightarrow> plugin_state \<Rightarrow> plugin_state" where
  "initialising filename h s = called_in (Init_plugin h) (called_in (Dlopen filename)
     (s\<lparr>panda_plugins_loaded := panda_plugins_loaded s @ [filename]\<rparr>))"

lemma initialising_inv [simp]: "plugins_inv (initialising f h s) = plugins_inv s"
  by (simp add: initialising_def) (simp add: plugins_inv_def)

lemma load_adds:
  assumes "plugins_inv s" and "loadable L f h s"
  obtains c s' where "(the (dlsym_init L h)) (initialising f h s) = Inr (True, (initialising f h s)\<lparr>plugin_cbs := c\<rparr>)"
    and "panda_load_plugin L f s = Inr (True, s')" and "plugins_inv s'" and "plugin_cbs s' = c"
    and "loaded_plugins s' = loaded_plugins s @ [\<lparr>plugin_name = take 256 (basename (Some f)), plugin_handle = h\<rparr>]"
    and "panda_plugins_loaded s' = panda_plugins_loaded s @ [f]"
    and "plugin_calls s' = plugin_calls s @ [Dlopen f, Init_plugin h]"
    and "panda_plugins_to_unload s' = panda_plugins_to_unload s"
proof -
  obtain init_fn where i: "dlsym_init L h = Some init_fn" "registers_only init_fn"
    using assms(2) by (auto simp: loadable_def split: option.splits)
  let ?t = "initialising f h s"
  have "plugins_inv ?t" using assms(1) by simp
  with i(2) obtain c where c: "init_fn ?t = Inr (True, ?t\<lparr>plugin_cbs := c\<rparr>)" "cbs_inv c"
    unfolding registers_only_def by blast
  let ?n = "nat (nb_panda_plugins s)"
  let ?s = "?t\<lparr>plugin_cbs := c, panda_plugins := (panda_plugins s)[?n :=
    \<lparr>plugin_name = take 256 (basename (Some f)), plugin_handle = h\<rparr>], nb_panda_plugins := nb_panda_plugins s + 1\<rparr>"
  have n: "0 \<le> nb_panda_plugins s" "nb_panda_plugins s < int MAX_PANDA_PLUGINS" "?n < length (panda_plugins s)"
    "nat (nb_panda_plugins s + 1) = Suc ?n"
    using assms by (auto simp: plugins_inv_def loadable_def)
  have t: "panda_plugins ?t = panda_plugins s" "nb_panda_plugins ?t = nb_panda_plugins s"
    "panda_plugins_to_unload ?t = panda_plugins_to_unload s"
    "panda_plugins_loaded ?t = panda_plugins_loaded s @ [f]" "plugin_calls ?t = plugin_calls s @ [Dlopen f, Init_plugin h]"
    by (simp_all add: initialising_def)
  have "panda_load_plugin L f s = Inr (True, ?s)"
    using assms(2) c(1) n t i(1)
    by (simp add: panda_load_plugin_def loadable_def initialising_def [symmetric] Let_def not_le)
  moreover have "plugins_inv ?s" using assms(1) c(2) n t by (simp add: plugins_inv_def)
  moreover have "loaded_plugins ?s = loaded_plugins s @ [\<lparr>plugin_name = take 256 (basename (Some f)), plugin_handle = h\<rparr>]"
    using n by (simp add: loaded_plugins_def take_Suc_conv_app_nth)
  ultimately show ?thesis using c(1) i(1) t by (intro that [of c ?s]) simp_all
qed

section \<open>Example plugins\<close>

text \<open>Two libraries that register one callback each, of a given type, and have an exit function.\<close>

definition example_init :: "panda_cb_type \<Rightarrow> plugin \<Rightarrow> plugin_state \<Rightarrow> rr_exit + (bool \<times> plugin_state)" where
  "example_init type h s = bindR (panda_register_callback h type h (plugin_cbs s)) (\<lambda>c. Inr (True, s\<lparr>plugin_cbs := c\<rparr>))"

definition example_lib :: "(plugin \<Rightarrow> panda_cb_type) \<Rightarrow> plugin_lib" where
  "example_lib ty = \<lparr>dlopen = \<lambda>_ f. if f = ''a.so'' then Some 1 else if f = ''b.so'' then Some 2 else None,
     dlsym_init = \<lambda>h. Some (example_init (ty h) h), dlsym_uninit = \<lambda>h. Some Inr\<rparr>"

lemma example_quiet [simp]: "quiet (example_lib ty) h" "exit_calls (example_lib ty) h = [Uninit_plugin h, Dlclose h]"
  by (simp_all add: quiet_def exit_calls_def example_lib_def)

lemma example_registers: "type < PANDA_CB_LAST \<Longrightarrow> registers_only (example_init type h)"
  unfolding registers_only_def
proof (intro allI impI)
  fix s assume t: "type < PANDA_CB_LAST" and "plugins_inv s"
  then have "cbs_inv (plugin_cbs s)" by (simp add: plugins_inv_def)
  from register_inv [OF this t, of h h] obtain c where
    "panda_register_callback h type h (plugin_cbs s) = Inr c" "cbs_inv c" by blast
  then show "\<exists>c. example_init type h s = Inr (True, s\<lparr>plugin_cbs := c\<rparr>) \<and> cbs_inv c"
    by (intro exI [of _ c]) (simp add: example_init_def)
qed

lemma example_load:
  assumes "plugins_inv s" and "loadable (example_lib ty) f h s" and "ty h < PANDA_CB_LAST"
  obtains s' where "panda_load_plugin (example_lib ty) f s = Inr (True, s')" and "plugins_inv s'"
    and "cb_view (plugin_cbs s') = (cb_view (plugin_cbs s))(ty h := (h, h, True) # cb_view (plugin_cbs s) (ty h))"
    and "loaded_plugins s' = loaded_plugins s @ [\<lparr>plugin_name = take 256 (basename (Some f)), plugin_handle = h\<rparr>]"
    and "panda_plugins_loaded s' = panda_plugins_loaded s @ [f]"
    and "plugin_calls s' = plugin_calls s @ [Dlopen f, Init_plugin h]"
    and "panda_plugins_to_unload s' = panda_plugins_to_unload s"
proof -
  from load_adds [OF assms(1,2)] obtain c s' where
    a: "(the (dlsym_init (example_lib ty) h)) (initialising f h s) = Inr (True, (initialising f h s)\<lparr>plugin_cbs := c\<rparr>)"
      "panda_load_plugin (example_lib ty) f s = Inr (True, s')" "plugins_inv s'" "plugin_cbs s' = c"
    and b: "loaded_plugins s' = loaded_plugins s @ [\<lparr>plugin_name = take 256 (basename (Some f)), plugin_handle = h\<rparr>]"
      "panda_plugins_loaded s' = panda_plugins_loaded s @ [f]"
      "plugin_calls s' = plugin_calls s @ [Dlopen f, Init_plugin h]"
      "panda_plugins_to_unload s' = panda_plugins_to_unload s" .
  have inv: "cbs_inv (plugin_cbs s)" using assms(1) by (simp add: plugins_inv_def)
  have cb: "plugin_cbs (initialising f h s) = plugin_cbs s" by (simp add: initialising_def)
  from register_inv [OF inv assms(3), of h h] obtain c' where
    r: "panda_register_callback h (ty h) h (plugin_cbs s) = Inr c'"
      "cb_view c' = (cb_view (plugin_cbs s))(ty h := (h, h, True) # cb_view (plugin_cbs s) (ty h))" by blast
  have "(initialising f h s)\<lparr>plugin_cbs := c'\<rparr> = (initialising f h s)\<lparr>plugin_cbs := c\<rparr>"
    using a(1) r(1) cb by (simp add: example_lib_def example_init_def)
  then have "plugin_cbs ((initialising f h s)\<lparr>plugin_cbs := c'\<rparr>) = plugin_cbs ((initialising f h s)\<lparr>plugin_cbs := c\<rparr>)"
    by (simp only:)
  then have "c' = c" by simp
  with a r(2) b show ?thesis by (intro that [of s']) simp_all
qed

lemma example_two_loaded:
  assumes "ty 1 < PANDA_CB_LAST" and "ty 2 < PANDA_CB_LAST"
  obtains s where "load_plugins (example_lib ty) [''a.so'', ''b.so''] init_plugins = Inr s" and "plugins_inv s"
    and "map plugin_handle (loaded_plugins s) = [1, 2]"
    and "cb_view (plugin_cbs s) = (let v = (\<lambda>_. [])(ty 1 := [(1, 1, True)]) in v(ty 2 := (2, 2, True) # v (ty 2)))"
    and "panda_plugins_to_unload s = replicate MAX_PANDA_PLUGINS False"
    and "plugin_calls s = [Dlopen ''a.so'', Init_plugin 1, Dlopen ''b.so'', Init_plugin 2]"
proof -
  have l1: "loadable (example_lib ty) ''a.so'' 1 init_plugins"
    using example_registers [OF assms(1)]
    by (simp add: loadable_def init_plugins_def example_lib_def MAX_PANDA_PLUGINS_def)
  from example_load [OF init_plugins_inv(1) l1 assms(1)] obtain s1 where
    s1: "panda_load_plugin (example_lib ty) ''a.so'' init_plugins = Inr (True, s1)" "plugins_inv s1"
      "cb_view (plugin_cbs s1) = (cb_view (plugin_cbs init_plugins))(ty 1 := (1, 1, True) # cb_view (plugin_cbs init_plugins) (ty 1))"
      "loaded_plugins s1 = loaded_plugins init_plugins @ [\<lparr>plugin_name = take 256 (basename (Some ''a.so'')), plugin_handle = 1\<rparr>]"
      "panda_plugins_loaded s1 = panda_plugins_loaded init_plugins @ [''a.so'']"
      "plugin_calls s1 = plugin_calls init_plugins @ [Dlopen ''a.so'', Init_plugin 1]"
      "panda_plugins_to_unload s1 = panda_plugins_to_unload init_plugins" .
  have v0: "plugin_cbs init_plugins = init_cbs" "panda_plugins_loaded init_plugins = []" "plugin_calls init_plugins = []"
    "panda_plugins_to_unload init_plugins = replicate MAX_PANDA_PLUGINS False" by (simp_all add: init_plugins_def)
  have "nb_panda_plugins s1 = 1" using length_loaded [OF s1(2)] s1(4) by simp
  then have l2: "loadable (example_lib ty) ''b.so'' 2 s1"
    using example_registers [OF assms(2)] s1(5) v0 by (simp add: loadable_def example_lib_def MAX_PANDA_PLUGINS_def)
  from example_load [OF s1(2) l2 assms(2)] obtain s where
    s: "panda_load_plugin (example_lib ty) ''b.so'' s1 = Inr (True, s)" "plugins_inv s"
      "cb_view (plugin_cbs s) = (cb_view (plugin_cbs s1))(ty 2 := (2, 2, True) # cb_view (plugin_cbs s1) (ty 2))"
      "loaded_plugins s = loaded_plugins s1 @ [\<lparr>plugin_name = take 256 (basename (Some ''b.so'')), plugin_handle = 2\<rparr>]"
      "panda_plugins_loaded s = panda_plugins_loaded s1 @ [''b.so'']"
      "plugin_calls s = plugin_calls s1 @ [Dlopen ''b.so'', Init_plugin 2]"
      "panda_plugins_to_unload s = panda_plugins_to_unload s1" .
  have v: "cb_view init_cbs = (\<lambda>_. [])" by (simp add: fun_eq_iff)
  show ?thesis
    by (rule that [of s]) (use s s1 v0 v in \<open>simp_all add: Let_def\<close>)
qed


section \<open>Properties\<close>

text \<open>
  C18: Loading a plugin. If the library opens and its initialisation succeeds and only registers
  callbacks, the plugin is appended to the table, which stays well-formed; it is found by the
  base name of its file, unless an earlier plugin has that name; and loading the same file
  again reports success without opening the library or running any code of it.
\<close>

theorem load_then_find:
  assumes "plugins_inv s" and "loadable L f h s"
  shows "\<exists>s'. panda_load_plugin L f s = Inr (True, s') \<and> plugins_inv s'
    \<and> map plugin_handle (loaded_plugins s') = map plugin_handle (loaded_plugins s) @ [h]
    \<and> panda_load_plugin L' f s' = Inr (True, s')
    \<and> panda_get_plugin_by_name (basename (Some f)) s'
        = (case panda_get_plugin_by_name (basename (Some f)) s of None \<Rightarrow> Some h | Some h' \<Rightarrow> Some h')"
proof -
  obtain s' where
    s': "panda_load_plugin L f s = Inr (True, s')" "plugins_inv s'"
      "loaded_plugins s' = loaded_plugins s @ [\<lparr>plugin_name = take 256 (basename (Some f)), plugin_handle = h\<rparr>]"
      "panda_plugins_loaded s' = panda_plugins_loaded s @ [f]"
    by (rule load_adds [OF assms]) (rule that)
  have "find P (xs @ [x]) = (case find P xs of None \<Rightarrow> if P x then Some x else None | Some y \<Rightarrow> Some y)"
    for P :: "panda_plugin \<Rightarrow> bool" and xs x by (induction xs) auto
  then show ?thesis
    using s' by (intro exI [of _ s'])
      (simp add: panda_load_plugin_def panda_get_plugin_by_name_def option.case_eq_if)
qed

theorem load_then_find_witness:
  "\<exists>s'. panda_load_plugin (example_lib (\<lambda>h. PANDA_CB_MONITOR)) ''a.so'' init_plugins = Inr (True, s')
    \<and> panda_get_plugin_by_name ''a.so'' s' = Some 1"
proof -
  have l: "loadable (example_lib (\<lambda>h. PANDA_CB_MONITOR)) ''a.so'' 1 init_plugins"
    using example_registers [of PANDA_CB_MONITOR 1]
    by (simp add: loadable_def init_plugins_def example_lib_def MAX_PANDA_PLUGINS_def)
  have b: "basename (Some ''a.so'') = ''a.so''" by (simp add: strip_slashes_def)
  have n: "panda_get_plugin_by_name ''a.so'' init_plugins = None" by (simp add: panda_get_plugin_by_name_def)
  from load_then_find [OF init_plugins_inv(1) l, of "example_lib (\<lambda>h. PANDA_CB_MONITOR)"] show ?thesis
    unfolding b n option.case by blast
qed

text \<open>
  A load that fails is remembered as well: the name is stored before the library is opened, so
  the next load of the same file reports success although nothing is loaded.
\<close>

theorem failed_load_remembered:
  assumes "f \<notin> set (panda_plugins_loaded s)" and "length (panda_plugins_loaded s) < MAX_PANDA_PLUGINS"
    and "dlopen L (plugin_calls s) f = None"
  shows "\<exists>s'. panda_load_plugin L f s = Inr (False, s') \<and> loaded_plugins s' = loaded_plugins s
    \<and> panda_load_plugin L' f s' = Inr (True, s')"
  using assms by (auto simp: panda_load_plugin_def Let_def loaded_plugins_def not_le)

text \<open>
  C19: Unloading all plugins ends. If every callback list has callbacks of one plugin only and the
  exit functions leave the plugin manager alone, the loop unloads every plugin, the last loaded
  first, calling its exit function and closing its library; the table is empty, and exactly the
  callbacks of the unloaded plugins are gone from every list.
\<close>

theorem unload_plugins_reverse:
  assumes "plugins_inv s" and "\<forall>p \<in> set (loaded_plugins s). quiet L (plugin_handle p)"
    and "\<forall>j. one_owner (cb_view (plugin_cbs s) j)"
  shows "\<exists>s'. panda_unload_plugins L s = Some (Inr s') \<and> plugins_inv s' \<and> loaded_plugins s' = []
    \<and> plugin_calls s' = plugin_calls s @ concat (map (exit_calls L \<circ> plugin_handle) (rev (loaded_plugins s)))
    \<and> (\<forall>j. cb_view (plugin_cbs s') j
         = filter (\<lambda>(c, ow, e). ow \<notin> plugin_handle ` set (loaded_plugins s)) (cb_view (plugin_cbs s) j))"
  using assms(2,3) by (intro unload_plugins_run [OF refl assms(1)]) auto

theorem unload_plugins_reverse_witness:
  "\<exists>s s'. load_plugins (example_lib (\<lambda>h. h)) [''a.so'', ''b.so''] init_plugins = Inr s
    \<and> panda_unload_plugins (example_lib (\<lambda>h. h)) s = Some (Inr s')
    \<and> plugin_calls s' = [Dlopen ''a.so'', Init_plugin 1, Dlopen ''b.so'', Init_plugin 2,
        Uninit_plugin 2, Dlclose 2, Uninit_plugin 1, Dlclose 1]
    \<and> cb_view (plugin_cbs s') 1 = []"
proof -
  let ?L = "example_lib (\<lambda>h. h)"
  obtain s where s: "load_plugins ?L [''a.so'', ''b.so''] init_plugins = Inr s" "plugins_inv s"
      "map plugin_handle (loaded_plugins s) = [1, 2]"
      "cb_view (plugin_cbs s) = (let v = (\<lambda>_. [])(1 := [(1, 1, True)]) in v(2 := (2, 2, True) # v 2))"
      "panda_plugins_to_unload s = replicate MAX_PANDA_PLUGINS False"
      "plugin_calls s = [Dlopen ''a.so'', Init_plugin 1, Dlopen ''b.so'', Init_plugin 2]"
    by (rule example_two_loaded [of "\<lambda>h. h"]) (simp, simp, rule that)
  have q: "\<forall>p \<in> set (loaded_plugins s). quiet ?L (plugin_handle p)" by simp
  have o: "\<forall>j. one_owner (cb_view (plugin_cbs s) j)" unfolding s(4) by (auto simp: one_owner_def Let_def)
  obtain p q where pq: "loaded_plugins s = [p, q]" "plugin_handle p = 1" "plugin_handle q = 2"
    using s(3) by (auto simp: map_eq_Cons_conv)
  from unload_plugins_reverse [OF s(2) q o] obtain s' where
    "panda_unload_plugins ?L s = Some (Inr s')"
    "plugin_calls s' = plugin_calls s @ concat (map (exit_calls ?L \<circ> plugin_handle) (rev (loaded_plugins s)))"
    "\<forall>j. cb_view (plugin_cbs s') j
         = filter (\<lambda>(c, ow, e). ow \<notin> plugin_handle ` set (loaded_plugins s)) (cb_view (plugin_cbs s) j)" by blast
  with s(1,4,6) pq show ?thesis by (intro exI [of _ s] exI [of _ s']) (simp add: Let_def)
qed

text \<open>
  C21: Without that condition unloading reads freed memory. If the plugin loaded last stands at the
  head of a callback list that another plugin shares (the usual case, since registration puts
  callbacks in front) and a plugin was loaded before it, the loop fails when it unregisters that
  one.
\<close>

theorem unload_shared_list_crashes:
  assumes "plugins_inv s" and "loaded_plugins s = ps @ [p, q]"
    and "quiet L (plugin_handle p)" and "quiet L (plugin_handle q)"
    and "\<not> head_kept (plugin_handle q) (cb_view (plugin_cbs s) j)"
  shows "panda_unload_plugins L s = Some (Inl Use_after_free)"
proof -
  let ?n = "length ps" and ?p = "plugin_handle p" and ?q = "plugin_handle q"
  have nb: "nb_panda_plugins s - 1 = int (Suc ?n)" "0 < nb_panda_plugins s"
    using length_loaded [OF assms(1)] assms(2) by simp_all
  have i: "Suc ?n < length (loaded_plugins s)" "?q = plugin_handle (loaded_plugins s ! Suc ?n)"
    using assms(2) by (simp_all add: nth_append)
  have "cbs_inv (plugin_cbs s)" using assms(1) by (simp add: plugins_inv_def)
  from unregister_after_broken [OF this assms(5), of ?p] obtain c where
    c: "panda_unregister_callbacks ?q (plugin_cbs s) = Inr c" "panda_unregister_callbacks ?p c = Inl Use_after_free" .
  from do_unload_steps [OF assms(1) i assms(4)] obtain t where
    t: "panda_do_unload_plugin L (int (Suc ?n)) s =
      bindR (panda_unregister_callbacks ?q (plugin_cbs s)) (\<lambda>c.
      bindR (panda_delete_plugin (int (Suc ?n)) (t\<lparr>plugin_cbs := c\<rparr>)) (\<lambda>s. Inr (called_in (Dlclose ?q) s)))"
    "t = s \<or> t = called_in (Uninit_plugin ?q) s" by blast
  let ?t = "t\<lparr>plugin_cbs := c, panda_plugins := panda_plugins s, nb_panda_plugins := nb_panda_plugins s - 1\<rparr>"
  have del: "panda_delete_plugin (int (Suc ?n)) (t\<lparr>plugin_cbs := c\<rparr>) = Inr ?t"
    using t(2) nb(1) by (auto simp: panda_delete_plugin_def Let_def)
  have step: "panda_do_unload_plugin L (int (Suc ?n)) s = Inr (called_in (Dlclose ?q) ?t)"
    unfolding t(1) c(1) bindR_simps del ..
  have slot: "plugin_handle (panda_plugins s ! ?n) = ?p"
    using assms(2) length_loaded [OF assms(1)] nth_take [of ?n "nat (nb_panda_plugins s)" "panda_plugins s"]
    by (simp add: loaded_plugins_def nth_append)
  have "int ?n < int MAX_PANDA_PLUGINS" using nb(1) assms(1) by (auto simp: plugins_inv_def)
  then have rng: "(int ?n < 0 \<or> int MAX_PANDA_PLUGINS \<le> int ?n) = False" by simp
  have "dlsym_uninit L ?p = None \<or> dlsym_uninit L ?p = Some Inr" using assms(3) by (simp only: quiet_def)
  then have crash: "panda_do_unload_plugin L (int ?n) (called_in (Dlclose ?q) ?t) = Inl Use_after_free"
    using c(2) by (elim disjE) (simp_all only: panda_do_unload_plugin_def rng if_False Let_def nat_int, simp_all add: slot)
  have nb': "nb_panda_plugins (called_in (Dlclose ?q) ?t) - 1 = int ?n" "0 < nb_panda_plugins (called_in (Dlclose ?q) ?t)"
    using nb(1) by simp_all
  have "panda_unload_plugins L (called_in (Dlclose ?q) ?t) = Some (Inl Use_after_free)"
    unfolding panda_unload_plugins.simps [of L "called_in (Dlclose ?q) ?t"] nb'(1) crash using nb'(2) by simp
  then show ?thesis
    unfolding panda_unload_plugins.simps [of L s] nb(1) step using nb(2) by simp
qed

theorem unload_shared_list_crashes_witness:
  "\<exists>s. load_plugins (example_lib (\<lambda>h. PANDA_CB_MONITOR)) [''a.so'', ''b.so''] init_plugins = Inr s
    \<and> panda_unload_plugins (example_lib (\<lambda>h. PANDA_CB_MONITOR)) s = Some (Inl Use_after_free)"
proof -
  let ?L = "example_lib (\<lambda>h. PANDA_CB_MONITOR)"
  obtain s where s: "load_plugins ?L [''a.so'', ''b.so''] init_plugins = Inr s" "plugins_inv s"
      "map plugin_handle (loaded_plugins s) = [1, 2]"
      "cb_view (plugin_cbs s) = (let v = (\<lambda>_. [])(PANDA_CB_MONITOR := [(1, 1, True)])
         in v(PANDA_CB_MONITOR := (2, 2, True) # v PANDA_CB_MONITOR))"
    by (rule example_two_loaded [of "\<lambda>h. PANDA_CB_MONITOR"]) (simp, simp, rule that)
  obtain p q where pq: "loaded_plugins s = [] @ [p, q]" "plugin_handle p = 1" "plugin_handle q = 2"
    using s(3) by (auto simp: map_eq_Cons_conv)
  have "\<not> head_kept (plugin_handle q) (cb_view (plugin_cbs s) PANDA_CB_MONITOR)"
    unfolding s(4) pq(3) by (simp add: head_kept_def Let_def)
  from unload_shared_list_crashes [OF s(2) pq(1) _ _ this] s(1) show ?thesis by auto
qed

text \<open>
  C20: Unloading on request. When one plugin is flagged, the execution loop removes it from the
  table, the others keeping their order, and clears its flag. When the last plugin and an
  earlier one are flagged, the table has shifted by the time the last one is reached: its old
  slot is unloaded and then a negative number of entries is moved.
\<close>

theorem flagged_unload:
  assumes "plugins_inv s" and "panda_plugin_to_unload s" and "i < length (loaded_plugins s)"
    and "\<forall>p \<in> set (loaded_plugins s). quiet L (plugin_handle p)"
    and "\<forall>j. one_owner (cb_view (plugin_cbs s) j)"
    and "\<forall>k < MAX_PANDA_PLUGINS. panda_plugins_to_unload s ! k \<longleftrightarrow>
           k = i \<or> also_last \<and> Suc k = length (loaded_plugins s)"
  shows "if also_last \<and> Suc i < length (loaded_plugins s) then unload_flagged L s = Inl Undefined_behaviour
    else \<exists>s'. unload_flagged L s = Inr s' \<and> plugins_inv s' \<and> loaded_plugins s' = delete_at i (loaded_plugins s)
         \<and> True \<notin> set (panda_plugins_to_unload s')"
proof -
  let ?s = "s\<lparr>panda_plugin_to_unload := False\<rparr>"
  have l: "loaded_plugins ?s = loaded_plugins s" "plugins_inv ?s"
    using assms(1) by (simp_all add: loaded_plugins_def plugins_inv_def)
  have q: "quiet L (plugin_handle (loaded_plugins s ! k))" if "k < length (loaded_plugins s)" for k
    using assms(4) nth_mem [OF that] by blast
  have run: "unload_flagged L s = for_types MAX_PANDA_PLUGINS (flagged_step L) ?s"
    using assms(2) by (simp add: unload_flagged_steps)
  have len: "length (loaded_plugins s) \<le> MAX_PANDA_PLUGINS"
    using assms(1) length_loaded [OF assms(1)] by (simp add: plugins_inv_def)
  show ?thesis
  proof (cases "also_last \<and> Suc i < length (loaded_plugins s)")
    case True
    then obtain n where n: "Suc n = length (loaded_plugins s)" by (metis Suc_lessE)
    have "unload_flagged L s = Inl Undefined_behaviour"
      unfolding run using True assms(5,6) n q [of i] q [of n] l len by (intro flagged_two [where n = n and i = i]) auto
    with True show ?thesis by simp
  next
    case False
    then have f: "\<And>k. k < MAX_PANDA_PLUGINS \<Longrightarrow> panda_plugins_to_unload ?s ! k \<longleftrightarrow> k = i"
      using assms(3,6) by auto
    have "\<exists>s'. unload_flagged L s = Inr s' \<and> plugins_inv s' \<and> loaded_plugins s' = delete_at i (loaded_plugins s)
         \<and> True \<notin> set (panda_plugins_to_unload s')"
      unfolding run l(1) [symmetric] using assms(3,5) l q [of i] f by (intro flagged_removes) auto
    with False show ?thesis by (simp only: if_False)
  qed
qed

theorem flagged_unload_witness:
  "\<exists>s. load_plugins (example_lib (\<lambda>h. h)) [''a.so'', ''b.so''] init_plugins = Inr s
    \<and> (\<exists>s'. unload_flagged (example_lib (\<lambda>h. h)) (panda_unload_plugin 1 s) = Inr s'
         \<and> map plugin_handle (loaded_plugins s') = [2])
    \<and> unload_flagged (example_lib (\<lambda>h. h)) (panda_unload_plugin 2 (panda_unload_plugin 1 s)) = Inl Undefined_behaviour"
proof -
  let ?L = "example_lib (\<lambda>h. h)"
  obtain s where s: "load_plugins ?L [''a.so'', ''b.so''] init_plugins = Inr s" "plugins_inv s"
      "map plugin_handle (loaded_plugins s) = [1, 2]"
      "cb_view (plugin_cbs s) = (let v = (\<lambda>_. [])(1 := [(1, 1, True)]) in v(2 := (2, 2, True) # v 2))"
      "panda_plugins_to_unload s = replicate MAX_PANDA_PLUGINS False"
    by (rule example_two_loaded [of "\<lambda>h. h"]) (simp, simp, rule that)
  obtain p q where pq: "loaded_plugins s = [p, q]" "plugin_handle p = 1" "plugin_handle q = 2"
    using s(3) by (auto simp: map_eq_Cons_conv)
  have nb: "nb_panda_plugins s = 2" using length_loaded [OF s(2)] pq(1) by simp
  let ?a = "s\<lparr>panda_plugin_to_unload := True, panda_plugins_to_unload := (panda_plugins_to_unload s)[0 := True]\<rparr>"
  let ?b = "?a\<lparr>panda_plugins_to_unload := (panda_plugins_to_unload s)[0 := True, 1 := True]\<rparr>"
  have a: "panda_unload_plugin 1 s = ?a" using pq nb by (simp add: panda_unload_plugin_def panda_unload_plugin_idx_def)
  have la: "loaded_plugins ?a = [p, q]" "loaded_plugins ?b = [p, q]" using pq(1) by (simp_all add: loaded_plugins_def)
  have b: "panda_unload_plugin 2 ?a = ?b"
    using pq nb la by (simp add: panda_unload_plugin_def panda_unload_plugin_idx_def)
  have inv: "plugins_inv ?a" "plugins_inv ?b" using s(2) by (simp_all add: plugins_inv_def)
  have q: "\<forall>p \<in> set (loaded_plugins t). quiet ?L (plugin_handle p)" for t by simp
  have o: "\<forall>j. one_owner (cb_view (plugin_cbs s) j)" unfolding s(4) by (auto simp: one_owner_def Let_def)
  have fa: "\<forall>k < MAX_PANDA_PLUGINS. panda_plugins_to_unload ?a ! k \<longleftrightarrow>
      k = 0 \<or> False \<and> Suc k = length (loaded_plugins ?a)"
    using s(5) by (auto simp: nth_list_update MAX_PANDA_PLUGINS_def)
  have fb: "\<forall>k < MAX_PANDA_PLUGINS. panda_plugins_to_unload ?b ! k \<longleftrightarrow>
      k = 0 \<or> True \<and> Suc k = length (loaded_plugins ?b)"
    using s(5) la by (auto simp: nth_list_update MAX_PANDA_PLUGINS_def)
  have one: "\<exists>s'. unload_flagged ?L ?a = Inr s' \<and> loaded_plugins s' = delete_at 0 (loaded_plugins ?a)"
    using flagged_unload [OF inv(1) _ _ q _ fa] la o by auto
  have two: "unload_flagged ?L ?b = Inl Undefined_behaviour"
    using flagged_unload [OF inv(2) _ _ q _ fb] la o by auto
  have "\<exists>s'. unload_flagged ?L (panda_unload_plugin 1 s) = Inr s' \<and> map plugin_handle (loaded_plugins s') = [2]"
    unfolding a using one la pq by (auto simp: delete_at_def)
  moreover have "unload_flagged ?L (panda_unload_plugin 2 (panda_unload_plugin 1 s)) = Inl Undefined_behaviour"
    unfolding a b by (rule two)
  ultimately show ?thesis using s(1) by - (rule exI [of _ s], intro conjI)
qed

end
