(* ===== verification/RR_Session.thy ===== *)
theory RR_Session
  imports RR_Manage
begin

text \<open>
  A session seen from the emulator: at each point it asks for a nondeterministic value with
  the same function whether it records or replays (\<^verbatim>\<open>rr_input_1\<close> and so on). The
  two session lemmas at the end give the main result: whatever values the machine offers during
  the replay, it gets those of the recording.
\<close>

section \<open>What the emulator asks for\<close>

datatype guest_input =
    In_1 u8
  | In_2 u16
  | In_4 u32
  | In_8 u64
  | Interrupt u32
  | Exit u32

text \<open>The program point, the call site, and the value the machine offers.\<close>

type_synonym rr_event = "RR_prog_point \<times> RR_callsite_id \<times> guest_input"

definition at_event :: "RR_prog_point \<Rightarrow> RR_callsite_id \<Rightarrow> rr_state \<Rightarrow> rr_state" where
  "at_event pp cs s = s\<lparr>rr_prog_point := pp, rr_skipped_callsite_location := cs\<rparr>"

fun ask :: "host \<Rightarrow> guest_input \<Rightarrow> rr_state \<Rightarrow> rr_exit + (guest_input \<times> rr_state)" where
  "ask H (In_1 v) s = bindR (rr_input_1 H v s) (\<lambda>(v, s). Inr (In_1 v, s))"
| "ask H (In_2 v) s = bindR (rr_input_2 H v s) (\<lambda>(v, s). Inr (In_2 v, s))"
| "ask H (In_4 v) s = bindR (rr_input_4 H v s) (\<lambda>(v, s). Inr (In_4 v, s))"
| "ask H (In_8 v) s = bindR (rr_input_8 H v s) (\<lambda>(v, s). Inr (In_8 v, s))"
| "ask H (Interrupt v) s = bindR (rr_interrupt_request H v s) (\<lambda>(v, s). Inr (Interrupt v, s))"
| "ask H (Exit v) s = bindR (rr_exit_request H v s) (\<lambda>(v, s). Inr (Exit v, s))"

definition run_event :: "host \<Rightarrow> rr_event \<Rightarrow> rr_state \<Rightarrow> rr_exit + (guest_input \<times> rr_state)" where
  "run_event H ev s = (case ev of (pp, cs, v) \<Rightarrow> ask H v (at_event pp cs s))"

primrec run_events :: "host \<Rightarrow> rr_event list \<Rightarrow> rr_state \<Rightarrow> rr_exit + (guest_input list \<times> rr_state)" where
  "run_events H [] s = Inr ([], s)"
| "run_events H (ev # evs) s =
     bindR (run_event H ev s) (\<lambda>(v, s).
     bindR (run_events H evs s) (\<lambda>(vs, s). Inr (v # vs, s)))"

section \<open>What a recording leaves in the log\<close>

fun logged_variant :: "guest_input \<Rightarrow> RR_variant option" where
  "logged_variant (In_1 v) = Some (Input_1 v)"
| "logged_variant (In_2 v) = Some (Input_2 v)"
| "logged_variant (In_4 v) = Some (Input_4 v)"
| "logged_variant (In_8 v) = Some (Input_8 v)"
| "logged_variant (Interrupt v) = (if v = 0 then None else Some (Interrupt_request (ucast v)))"
| "logged_variant (Exit v) = (if v = 0 then None else Some (Exit_request (ucast v)))"

fun logged :: "rr_event list \<Rightarrow> RR_log_entry list" where
  "logged [] = []"
| "logged ((pp, cs, v) # evs) =
     (case logged_variant v of
        None \<Rightarrow> logged evs
      | Some w \<Rightarrow> \<lparr>prog_point = pp, callsite_loc = cs, variant = w\<rparr> # logged evs)"

definition last_entry :: "RR_prog_point \<Rightarrow> RR_log_entry" where
  "last_entry pp = \<lparr>prog_point = pp, callsite_loc = RR_CALLSITE_LAST, variant = Last_entry\<rparr>"

text \<open>The program point at the end of the events.\<close>

definition final_point :: "RR_prog_point \<Rightarrow> rr_event list \<Rightarrow> RR_prog_point" where
  "final_point pp evs = (if evs = [] then pp else fst (last evs))"

lemma recording_at_event [simp]:
  "recording (at_event pp cs s) name bs p = recording s name bs p"
  by (simp add: recording_def at_event_def)

lemma ask_record:
  assumes "recording s name bs p"
  shows "\<exists>s' p'. ask H v (at_event pp cs s) = Inr (v, s') \<and> rr_prog_point s' = pp
    \<and> recording s' name (bs @ concat (map entry_image (logged [(pp, cs, v)]))) p'
    \<and> rr_queue s' = rr_queue s \<and> cbs s' = cbs s \<and> disk s' = disk s"
proof -
  let ?s = "at_event pp cs s"
  have m: "rr_mode ?s = RR_RECORD" "rr_skipped_callsite_location ?s = cs" "rr_prog_point ?s = pp"
    using assms by (simp_all add: recording_def at_event_def)
  have rec: "\<exists>s'. record_item w cs ?s = Inr s' \<and> same_but_log ?s s'
      \<and> recording s' name (bs @ entry_image \<lparr>prog_point = pp, callsite_loc = cs, variant = w\<rparr>) pp"
    if "writable_variant w" for w
    using record_item_recording [of ?s name bs p w cs] assms that m(3) by simp
  have frame: "rr_prog_point s' = pp \<and> rr_queue s' = rr_queue s \<and> cbs s' = cbs s \<and> disk s' = disk s"
    if "same_but_log ?s s'" for s'
  proof -
    from that obtain lg where "s' = ?s\<lparr>rr_nondet_log := lg\<rparr>" by (auto simp: same_but_log_def)
    then show ?thesis by (simp add: at_event_def)
  qed
  show ?thesis
  proof (cases "logged_variant v")
    case None
    then have "ask H v ?s = Inr (v, ?s)"
      using m by (cases v) (auto simp: rr_interrupt_request_def rr_exit_request_def
          rr_record_interrupt_request_def rr_record_exit_request_def split: if_splits)
    with None assms show ?thesis
      by (intro exI [of _ ?s] exI [of _ p]) (auto simp: at_event_def recording_def)
  next
    case (Some w)
    then have w: "writable_variant w" by (cases v) (auto split: if_splits)
    from rec [OF w] obtain s' where s': "record_item w cs ?s = Inr s'" "same_but_log ?s s'"
      "recording s' name (bs @ entry_image \<lparr>prog_point = pp, callsite_loc = cs, variant = w\<rparr>) pp" by blast
    have "ask H v ?s = Inr (v, s')"
      using Some s'(1) m by (cases v) (auto simp: rr_input_1_def rr_input_2_def rr_input_4_def rr_input_8_def
          rr_interrupt_request_def rr_exit_request_def rr_record_input_1_def rr_record_input_2_def
          rr_record_input_4_def rr_record_input_8_def rr_record_interrupt_request_def
          rr_record_exit_request_def split: if_splits)
    with Some s'(3) frame [OF s'(2)] show ?thesis by auto
  qed
qed

lemma logged_append: "logged (a @ b) = logged a @ logged b"
  by (induction a rule: logged.induct) (auto split: option.splits)

lemma run_events_record:
  assumes "recording s name bs p"
  shows "\<exists>s' p'. run_events H evs s = Inr (map (\<lambda>(_, _, v). v) evs, s')
    \<and> rr_prog_point s' = final_point (rr_prog_point s) evs
    \<and> recording s' name (bs @ concat (map entry_image (logged evs))) p'
    \<and> rr_queue s' = rr_queue s \<and> cbs s' = cbs s \<and> disk s' = disk s"
  using assms
proof (induction evs arbitrary: s bs p)
  case Nil
  then show ?case by (auto simp: final_point_def)
next
  case (Cons ev evs)
  obtain pp cs v where ev: "ev = (pp, cs, v)" by (cases ev)
  from ask_record [OF Cons.prems, of H v pp cs] obtain s1 p1 where
    1: "run_event H ev s = Inr (v, s1)" "rr_prog_point s1 = pp"
      "recording s1 name (bs @ concat (map entry_image (logged [ev]))) p1"
      "rr_queue s1 = rr_queue s" "cbs s1 = cbs s" "disk s1 = disk s"
    by (auto simp: run_event_def ev)
  from Cons.IH [OF 1(3)] obtain s2 p2 where
    2: "run_events H evs s1 = Inr (map (\<lambda>(_, _, v). v) evs, s2)"
      "rr_prog_point s2 = final_point pp evs"
      "recording s2 name (bs @ concat (map entry_image (logged [ev])) @ concat (map entry_image (logged evs))) p2"
      "rr_queue s2 = rr_queue s1" "cbs s2 = cbs s1" "disk s2 = disk s1"
    unfolding 1(2) by auto
  have "logged (ev # evs) = logged [ev] @ logged evs" using logged_append [of "[ev]" evs] by simp
  with 1 2 ev show ?case
    by (intro exI [of _ s2] exI [of _ p2]) (auto simp: final_point_def)
qed

section \<open>What a replay returns\<close>

text \<open>The same questions at the same points, whatever the values.\<close>

fun same_question :: "guest_input \<Rightarrow> guest_input \<Rightarrow> bool" where
  "same_question (In_1 v) (In_1 w) = True"
| "same_question (In_2 v) (In_2 w) = True"
| "same_question (In_4 v) (In_4 w) = True"
| "same_question (In_8 v) (In_8 w) = True"
| "same_question (Interrupt v) (Interrupt w) = True"
| "same_question (Exit v) (Exit w) = True"
| "same_question _ _ = False"

definition same_event :: "rr_event \<Rightarrow> rr_event \<Rightarrow> bool" where
  "same_event a b \<longleftrightarrow> fst a = fst b \<and> fst (snd a) = fst (snd b) \<and> same_question (snd (snd a)) (snd (snd b))"

text \<open>
  Requests fit the 16 bits the log has for them; and a request that was zero, which is not
  in the log, is not followed by an entry that answers the question at that point.
\<close>

fun faithful_value :: "guest_input \<Rightarrow> bool" where
  "faithful_value (Interrupt v) \<longleftrightarrow> v < 65536"
| "faithful_value (Exit v) \<longleftrightarrow> v < 65536"
| "faithful_value v \<longleftrightarrow> True"

definition answers :: "RR_prog_point \<Rightarrow> RR_callsite_id \<Rightarrow> guest_input \<Rightarrow> RR_log_entry \<Rightarrow> bool" where
  "answers pp cs v e \<longleftrightarrow>
     (case v of
        Interrupt _ \<Rightarrow> wanted RR_INTERRUPT_REQUEST cs True e \<and> point_check pp e \<noteq> Inr (-1)
      | Exit _ \<Rightarrow> wanted RR_EXIT_REQUEST cs False e \<and> point_check pp e \<noteq> Inr (-1)
      | _ \<Rightarrow> False)"

fun unambiguous :: "rr_event list \<Rightarrow> bool" where
  "unambiguous [] \<longleftrightarrow> True"
| "unambiguous ((pp, cs, v) # evs) \<longleftrightarrow> faithful_value v
     \<and> (logged_variant v = None \<longrightarrow> (case logged evs of [] \<Rightarrow> True | e # _ \<Rightarrow> \<not> answers pp cs v e))
     \<and> unambiguous evs"

lemma replaying_at_event [simp]:
  "replaying H (at_event pp cs s) qs ls = replaying H s qs ls"
  by (simp add: replaying_def at_event_def)

lemma at_event_simps [simp]:
  "rr_mode (at_event pp cs s) = rr_mode s" "rr_skipped_callsite_location (at_event pp cs s) = cs"
  "rr_prog_point (at_event pp cs s) = pp"
  by (simp_all add: at_event_def)

lemma at_point_at_event [simp]: "prog_point e = pp \<Longrightarrow> at_point (at_event pp cs s) e"
  by (auto simp: at_point_def point_check_def)

lemma ucast_u16_u32:
  assumes "v < 65536"
  shows "ucast (ucast v :: u16) = (v :: u32)"
proof -
  have "uint (take_bit 16 v) = uint v"
    using assms by (simp add: unsigned_take_bit_eq take_bit_int_eq_self word_less_def)
  then have "take_bit 16 v = v" by (simp only: word_uint_eq_iff)
  then show ?thesis by (simp add: word_eq_iff_unsigned unsigned_ucast_eq)
qed

lemma rr_replay_exit_request_none:
  assumes "replaying H s qs ls" and "qs @ ls = e # es" and "kind e \<noteq> RR_DEBUG"
    and "\<not> wanted RR_EXIT_REQUEST cs False e \<or> point_check (rr_prog_point s) e = Inr (-1)"
  obtains s' qs' ls' where "rr_replay_exit_request H cs s = Inr (0, s')" and "fills s s'"
    and "replaying H s' qs' ls'" and "qs' @ ls' = e # es"
proof -
  have "no_skip RR_EXIT_REQUEST e" using assms(3) by (simp add: no_skip_def)
  from get_next_entry_refused [OF assms(1,2) this assms(4)] obtain s1 qs' ls' where
    "get_next_entry H RR_EXIT_REQUEST cs False s = Inr (None, s1)" "fills s s1"
    "replaying H s1 qs' ls'" "qs' @ ls' = e # es" .
  with that show ?thesis by (simp add: rr_replay_exit_request_def)
qed

lemma ask_replay_input:
  assumes "replaying H s qs ls" and "qs @ ls = e # es" and "is_input (kind e)"
    and "e = \<lparr>prog_point = pp, callsite_loc = cs, variant = w\<rparr>"
  obtains s' qs' ls' where "replay_input H (variant_kind w) cs (at_event pp cs s) = Inr (w, s')"
    and "replaying H s' qs' ls'" and "qs' @ ls' = es"
proof -
  have "replaying H (at_event pp cs s) qs ls" "callsite_loc e = cs" "at_point (at_event pp cs s) e"
    using assms(1,4) by simp_all
  from replay_input_head [OF this(1) assms(2,3) this(2,3)] assms(4) that show ?thesis by auto
qed

lemma ask_replay:
  assumes r: "replaying H s qs ls" and eq: "qs @ ls = logged [(pp, cs, v)] @ e # es"
    and f: "faithful_value v" and d: "kind e \<noteq> RR_DEBUG" and sq: "same_question v v'"
    and none: "logged_variant v = None \<Longrightarrow> \<not> answers pp cs v e"
  shows "\<exists>s' qs' ls'. ask H v' (at_event pp cs s) = Inr (v, s') \<and> replaying H s' qs' ls' \<and> qs' @ ls' = e # es"
proof -
  let ?s = "at_event pp cs s"
  have m: "rr_mode ?s = RR_REPLAY" using r by (simp add: replaying_def)
  have r': "replaying H ?s qs ls" using r by simp
  have inp: "\<exists>s' qs' ls'. replay_input H (variant_kind w) cs ?s = Inr (w, s') \<and> replaying H s' qs' ls'
      \<and> qs' @ ls' = e # es" if "logged_variant v = Some w" "is_input (variant_kind w)" for w
    using ask_replay_input [OF r, of "\<lparr>prog_point = pp, callsite_loc = cs, variant = w\<rparr>" "e # es" pp cs w]
      eq that by fastforce
  show ?thesis
  proof (cases v)
    case (In_1 d)
    with sq inp [of "Input_1 d"] m show ?thesis
      by (cases v') (fastforce simp: rr_input_1_def rr_replay_input_1_def is_input_def)+
  next
    case (In_2 d)
    with sq inp [of "Input_2 d"] m show ?thesis
      by (cases v') (fastforce simp: rr_input_2_def rr_replay_input_2_def is_input_def)+
  next
    case (In_4 d)
    with sq inp [of "Input_4 d"] m show ?thesis
      by (cases v') (fastforce simp: rr_input_4_def rr_replay_input_4_def is_input_def)+
  next
    case (In_8 d)
    with sq inp [of "Input_8 d"] m show ?thesis
      by (cases v') (fastforce simp: rr_input_8_def rr_replay_input_8_def is_input_def)+
  next
    case (Interrupt d)
    then obtain d' where v': "v' = Interrupt d'" using sq by (cases v') auto
    have "\<exists>s' qs' ls'. rr_replay_interrupt_request H cs ?s = Inr (d, s') \<and> replaying H s' qs' ls' \<and> qs' @ ls' = e # es"
    proof (cases "d = 0")
      case True
      then have "\<not> wanted RR_INTERRUPT_REQUEST cs True e \<or> point_check (rr_prog_point ?s) e = Inr (-1)"
        "qs @ ls = e # es"
        using none Interrupt eq by (auto simp: answers_def)
      from rr_replay_interrupt_request_none [OF r' this(2,1)] True show ?thesis by blast
    next
      case False
      let ?e = "\<lparr>prog_point = pp, callsite_loc = cs, variant = Interrupt_request (ucast d)\<rparr>"
      have "qs @ ls = ?e # e # es" using eq Interrupt False by simp
      moreover have "variant ?e = Interrupt_request (ucast d)" "callsite_loc ?e = cs" "at_point ?s ?e" by simp_all
      ultimately obtain s' qs' ls' where
        "rr_replay_interrupt_request H cs ?s = Inr (ucast (ucast d :: u16), s')" "replaying H s' qs' ls'"
        "qs' @ ls' = e # es" using rr_replay_interrupt_request_taken [OF r'] by metis
      with f Interrupt show ?thesis by (auto simp: ucast_u16_u32)
    qed
    then obtain s' qs' ls' where "rr_replay_interrupt_request H cs ?s = Inr (d, s')" "replaying H s' qs' ls'"
      "qs' @ ls' = e # es" by blast
    with Interrupt v' m show ?thesis
      by (intro exI [of _ s'] exI [of _ qs'] exI [of _ ls']) (simp add: rr_interrupt_request_def)
  next
    case (Exit d)
    then obtain d' where v': "v' = Exit d'" using sq by (cases v') auto
    have "\<exists>s' qs' ls'. rr_replay_exit_request H cs ?s = Inr (d, s') \<and> replaying H s' qs' ls' \<and> qs' @ ls' = e # es"
    proof (cases "d = 0")
      case True
      then have "\<not> wanted RR_EXIT_REQUEST cs False e \<or> point_check (rr_prog_point ?s) e = Inr (-1)"
        "qs @ ls = e # es"
        using none Exit eq by (auto simp: answers_def)
      from rr_replay_exit_request_none [OF r' this(2) \<open>kind e \<noteq> RR_DEBUG\<close> this(1)] True show ?thesis by blast
    next
      case False
      let ?e = "\<lparr>prog_point = pp, callsite_loc = cs, variant = Exit_request (ucast d)\<rparr>"
      have "qs @ ls = ?e # e # es" using eq Exit False by simp
      moreover have "variant ?e = Exit_request (ucast d)" "callsite_loc ?e = cs" "at_point ?s ?e" by simp_all
      ultimately obtain s' qs' ls' where
        "rr_replay_exit_request H cs ?s = Inr (ucast (ucast d :: u16), s')" "replaying H s' qs' ls'"
        "qs' @ ls' = e # es" using rr_replay_exit_request_taken [OF r'] by metis
      with f Exit show ?thesis by (auto simp: ucast_u16_u32)
    qed
    then obtain s' qs' ls' where "rr_replay_exit_request H cs ?s = Inr (d, s')" "replaying H s' qs' ls'"
      "qs' @ ls' = e # es" by blast
    with Exit v' m show ?thesis
      by (intro exI [of _ s'] exI [of _ qs'] exI [of _ ls']) (simp add: rr_exit_request_def)
  qed
qed

lemma logged_kinds: "e \<in> set (logged evs) \<Longrightarrow> kind e \<noteq> RR_DEBUG \<and> replayable e"
proof (induction evs rule: logged.induct)
  case (2 pp cs v evs)
  then show ?case by (cases v) (auto split: if_splits)
qed simp

lemma run_events_replay:
  assumes "replaying H s qs ls" and "qs @ ls = logged evs @ [last_entry lp]" and "unambiguous evs"
    and "list_all2 same_event evs evs'"
  shows "\<exists>s' qs' ls'. run_events H evs' s = Inr (map (\<lambda>(_, _, v). v) evs, s') \<and> replaying H s' qs' ls'
    \<and> qs' @ ls' = [last_entry lp]"
  using assms
proof (induction evs arbitrary: s qs ls evs')
  case Nil
  then show ?case by auto
next
  case (Cons ev evs)
  from Cons.prems(4) obtain ev' es' where evs': "evs' = ev' # es'" "same_event ev ev'" "list_all2 same_event evs es'"
    by (auto simp: list_all2_Cons1)
  obtain pp cs v where ev: "ev = (pp, cs, v)" by (cases ev)
  obtain v' where ev': "ev' = (pp, cs, v')" "same_question v v'"
    using evs'(2) by (cases ev') (auto simp: same_event_def ev)
  obtain e es where rest: "logged evs @ [last_entry lp] = e # es" by (cases "logged evs") auto
  have e: "kind e \<noteq> RR_DEBUG" "logged_variant v = None \<Longrightarrow> \<not> answers pp cs v e"
  proof -
    show "kind e \<noteq> RR_DEBUG"
      using rest logged_kinds [of e evs] by (cases "logged evs") (auto simp: last_entry_def)
    assume "logged_variant v = None"
    with Cons.prems(3) ev rest show "\<not> answers pp cs v e"
      by (cases "logged evs") (auto simp: last_entry_def answers_def wanted_def split: guest_input.splits)
  qed
  have "logged (ev # evs) = logged [ev] @ logged evs" using logged_append [of "[ev]" evs] by simp
  then have eq: "qs @ ls = logged [(pp, cs, v)] @ e # es" using Cons.prems(2) rest ev by simp
  have fv: "faithful_value v" using Cons.prems(3) ev by simp
  from ask_replay [OF Cons.prems(1) eq fv e(1) ev'(2) e(2)] obtain s1 qs1 ls1 where
    1: "run_event H ev' s = Inr (v, s1)" "replaying H s1 qs1 ls1" "qs1 @ ls1 = logged evs @ [last_entry lp]"
    using rest by (auto simp: run_event_def ev'(1))
  have "unambiguous evs" using Cons.prems(3) ev by simp
  from Cons.IH [OF 1(2,3) this evs'(3)] obtain s2 qs2 ls2 where
    "run_events H es' s1 = Inr (map (\<lambda>(_, _, v). v) evs, s2)" "replaying H s2 qs2 ls2"
    "qs2 @ ls2 = [last_entry lp]" by blast
  with 1(1) show ?case
    by (intro exI [of _ s2] exI [of _ qs2] exI [of _ ls2]) (simp add: evs'(1) ev)
qed

section \<open>Sessions\<close>

definition record_session ::
    "host \<Rightarrow> machine \<Rightarrow> string option \<Rightarrow> rr_event list \<Rightarrow> rr_state \<Rightarrow> rr_exit + (guest_input list \<times> rr_state)" where
  "record_session H M n evs s =
     bindR (rr_do_begin_record M n s) (\<lambda>(_, s).
     bindR (run_events H evs s) (\<lambda>(vs, s).
     bindR (rr_do_end_record s) (\<lambda>s. Inr (vs, s))))"

definition replay_session ::
    "host \<Rightarrow> machine \<Rightarrow> string option \<Rightarrow> rr_event list \<Rightarrow> rr_state \<Rightarrow> rr_exit + (guest_input list \<times> rr_state)" where
  "replay_session H M n evs s = bindR (rr_do_begin_replay H M n s) (\<lambda>(_, s). run_events H evs s)"

text \<open>The file a recording leaves: the header with the last program point, the entries, the end.\<close>

definition session_log :: "rr_event list \<Rightarrow> u8 list" where
  "session_log evs =
     (let pp = final_point zero_prog_point evs
      in prog_point_image pp @ concat (map entry_image (logged evs @ [last_entry pp])))"

lemma record_session_log:
  assumes "rr_record_requested s = 1" and "can_create M (log_file n)" and "rr_inv s" and "rr_mode s = RR_OFF"
  shows "\<exists>s'. record_session H M n evs s = Inr (map (\<lambda>(_, _, v). v) evs, s') \<and> rr_inv s' \<and> rr_mode s' = RR_OFF
    \<and> disk s' (log_file n) = Some (session_log evs)"
proof -
  from rr_do_begin_record_1 [OF assms(1,2)] obtain s1 where
    1: "rr_do_begin_record M n s = Inr (save_vm M (effects s) (snapshot_file n), s1)"
      "recording s1 (log_file n) (prog_point_image zero_prog_point) zero_prog_point"
      "rr_queue s1 = rr_queue s" "cbs s1 = cbs s" "rr_prog_point s1 = zero_prog_point" .
  from run_events_record [OF 1(2), of H evs] obtain s2 p2 where
    2: "run_events H evs s1 = Inr (map (\<lambda>(_, _, v). v) evs, s2)"
      "rr_prog_point s2 = final_point zero_prog_point evs"
      "recording s2 (log_file n) (prog_point_image zero_prog_point @ concat (map entry_image (logged evs))) p2"
      "rr_queue s2 = rr_queue s1" "cbs s2 = cbs s1"
    unfolding 1(5) by blast
  have "24 \<le> length (prog_point_image zero_prog_point @ concat (map entry_image (logged evs)))" by simp
  from rr_do_end_record_writes [OF 2(3) this] obtain s3 where
    3: "rr_do_end_record s2 = Inr s3" "rr_mode s3 = RR_OFF" "rr_nondet_log s3 = None"
      "disk s3 = (disk s2)(log_file n \<mapsto> prog_point_image (rr_prog_point s2)
         @ drop 24 (prog_point_image zero_prog_point @ concat (map entry_image (logged evs)))
         @ entry_image \<lparr>prog_point = rr_prog_point s2, callsite_loc = RR_CALLSITE_LAST, variant = Last_entry\<rparr>)"
      "rr_queue s3 = rr_queue s2" "cbs s3 = cbs s2" .
  have "rr_inv s3" using assms(3,4) 1(3,4) 2(4,5) 3 by (simp add: rr_inv_def)
  moreover have "disk s3 (log_file n) = Some (session_log evs)"
    unfolding 3(4) 2(2) by (simp add: session_log_def last_entry_def Let_def)
  ultimately show ?thesis
    using 1(1) 2(1) 3(1,2) by (simp add: record_session_def)
qed

lemma replay_session_log:
  assumes "rr_inv t" and "rr_mode t = RR_OFF" and "disk t (log_file n) = Some (session_log evs)"
    and "unambiguous evs" and "length (session_log evs) < 2 ^ 64" and "list_all2 same_event evs evs'"
  shows "\<exists>t' qs ls. replay_session H M n evs' t = Inr (map (\<lambda>(_, _, v). v) evs, t')
    \<and> replaying H t' qs ls \<and> qs @ ls = [last_entry (final_point zero_prog_point evs)]"
proof -
  let ?pp = "final_point zero_prog_point evs"
  let ?es = "logged evs @ [last_entry ?pp]"
  have lg: "session_log evs = prog_point_image ?pp @ concat (map entry_image ?es)"
    by (simp add: session_log_def Let_def)
  have rp: "\<forall>e \<in> set ?es. replayable e" using logged_kinds by (auto simp: last_entry_def)
  have "q_inv (rr_queue t)" "q_entries (rr_queue t) = []" "cbs_inv (cbs t)"
    using assms(1,2) by (simp_all add: rr_inv_def)
  from rr_do_begin_replay_holds [OF assms(3) [unfolded lg] _ assms(5) [unfolded lg] rp this] obtain t1 qs ls where
    1: "rr_do_begin_replay H M n t = Inr (0, t1)" "replaying H t1 qs ls" "qs @ ls = ?es"
    by (metis length_images(1))
  from run_events_replay [OF 1(2,3) assms(4,6)] 1(1) show ?thesis
    by (simp add: replay_session_def)
qed

lemma rr_inv_init [simp]: "rr_inv (init_rr cpu files)" "rr_mode (init_rr cpu files) = RR_OFF"
  by (simp_all add: rr_inv_def init_rr_def)

section \<open>Properties\<close>

text \<open>
  C7: What a recording leaves on disk: the header with the last program point, one entry for every
  input and every request that is not zero, in order, and the entry that ends the log. The
  session ends with recording off, from any consistent state in which it was off.
\<close>

theorem recording_contents:
  assumes "rr_record_requested s = 1" and "can_create M (log_file n)" and "rr_inv s" and "rr_mode s = RR_OFF"
  shows "\<exists>s'. record_session H M n evs s = Inr (map (\<lambda>(_, _, v). v) evs, s') \<and> rr_inv s' \<and> rr_mode s' = RR_OFF
    \<and> disk s' (log_file n) = Some (prog_point_image (final_point zero_prog_point evs)
        @ concat (map entry_image (logged evs @ [last_entry (final_point zero_prog_point evs)])))"
  using record_session_log [OF assms, of H evs] by (simp add: session_log_def Let_def)

theorem recording_contents_witness:
  "\<exists>s'. record_session a_host a_machine (Some ''x'') [(zero_prog_point, 1, Exit 0)]
      (qmp_begin_record (Some ''x'') (init_rr a_cpu Map.empty)) = Inr ([Exit 0], s')
    \<and> disk s' (log_file (Some ''x'')) = Some (prog_point_image zero_prog_point @ entry_image (last_entry zero_prog_point))"
proof -
  let ?s = "qmp_begin_record (Some ''x'') (init_rr a_cpu Map.empty)"
  have h: "rr_record_requested ?s = 1" "can_create a_machine (log_file (Some ''x''))" "rr_mode ?s = RR_OFF"
    by (simp_all add: qmp_begin_record_def a_machine_def init_rr_def)
  have i: "rr_inv ?s" by (simp add: rr_inv_def qmp_begin_record_def init_rr_def)
  from recording_contents [OF h(1,2) i h(3), of a_host "[(zero_prog_point, 1, Exit 0)]"] show ?thesis
    by (auto simp: final_point_def)
qed

end
