(* ===== verification/RR_Cpu_Loop.thy ===== *)
theory RR_Cpu_Loop
  imports Panda_Plugins RR_Session
begin

text \<open>
  The execution loop \<^verbatim>\<open>cpu_exec\<close> of \<^verbatim>\<open>qemu/cpu-exec.c\<close> for an x86 system emulator: where the
  program point is set, where skipped calls and interrupt requests are recorded or replayed,
  where plugins are unloaded and called, when a replay is over, and the watchdog that aborts a
  replay that is stuck. The translator, the translated code, the interrupt handlers of the CPU
  and the other threads are parameters.
\<close>

section \<open>The state of the loop\<close>

record translation_block =
  tb_pc :: u64
  num_guest_insns :: u16
  page_addr_1 :: u64

text \<open>
  The fields of the CPU that the loop looks at, its local variables, the record/replay and
  plugin globals, and the rest of the machine.
\<close>

record 'm cpu_run =
  run_rr :: rr_state
  run_plugins :: plugin_state
  exception_index :: int
  env_interrupt_request :: u32
  env_exit_request :: bool
  global_exit_request :: bool
  halted :: bool
  singlestep_enabled :: u32
  hflags :: u32
  hflags2 :: u32
  eflags :: u64
  icount_extra :: int
  icount_decr :: u32
  next_tb :: u64
  tb_invalidated_flag :: bool
  bb_invalidate_done :: bool
  saved_prog_point :: RR_prog_point
  rr_loop_tries :: int
  guest :: 'm

text \<open>
  Code that may leave by \<^verbatim>\<open>longjmp\<close> to the top of the outer loop returns \<open>None\<close> for its value.
\<close>

type_synonym ('a, 'm) jump = "rr_exit + ('a option \<times> 'm cpu_run)"

definition bindJ :: "('a, 'm) jump \<Rightarrow> ('a \<Rightarrow> 'm cpu_run \<Rightarrow> ('b, 'm) jump) \<Rightarrow> ('b, 'm) jump" where
  "bindJ m f = bindR m (\<lambda>(v, s). case v of None \<Rightarrow> Inr (None, s) | Some x \<Rightarrow> f x s)"

definition cpu_loop_exit :: "'m cpu_run \<Rightarrow> ('a, 'm) jump" where
  "cpu_loop_exit s = Inr (None, s)"

text \<open>What the loop calls; the other threads may change the requests before every turn.\<close>

record 'm cpu_code =
  other_threads :: "'m cpu_run \<Rightarrow> 'm cpu_run"
  load_cc :: "'m cpu_run \<Rightarrow> 'm cpu_run"
  store_cc :: "'m cpu_run \<Rightarrow> 'm cpu_run"
  do_interrupt :: "'m cpu_run \<Rightarrow> (unit, 'm) jump"
  cpu_handle_debug_exception :: "'m cpu_run \<Rightarrow> 'm cpu_run"
  svm_check_intercept :: "u32 \<Rightarrow> 'm cpu_run \<Rightarrow> (unit, 'm) jump"
  do_cpu_init :: "'m cpu_run \<Rightarrow> (unit, 'm) jump"
  do_cpu_sipi :: "'m cpu_run \<Rightarrow> (unit, 'm) jump"
  do_smm_enter :: "'m cpu_run \<Rightarrow> (unit, 'm) jump"
  do_interrupt_x86_hardirq :: "u32 \<Rightarrow> bool \<Rightarrow> 'm cpu_run \<Rightarrow> (unit, 'm) jump"
  cpu_get_pic_interrupt :: "'m \<Rightarrow> rr_state \<Rightarrow> rr_exit + ((u32 \<times> 'm) \<times> rr_state)"
  vmcb_int_vector :: "'m cpu_run \<Rightarrow> u32"
  tb_find_fast :: "'m cpu_run \<Rightarrow> (translation_block, 'm) jump"
  invalidate_single_tb :: "u64 \<Rightarrow> 'm cpu_run \<Rightarrow> 'm cpu_run"
  tb_flush :: "'m cpu_run \<Rightarrow> 'm cpu_run"
  tb_add_jump :: "translation_block \<Rightarrow> 'm cpu_run \<Rightarrow> 'm cpu_run"
  callback_code :: "panda_cb_type \<Rightarrow> panda_cb \<Rightarrow> translation_block \<Rightarrow> 'm cpu_run \<Rightarrow> rr_exit + (bool \<times> 'm cpu_run)"
  tcg_qemu_tb_exec :: "translation_block \<Rightarrow> 'm cpu_run \<Rightarrow> (u64, 'm) jump"
  cpu_pc_from_tb :: "u64 \<Rightarrow> 'm cpu_run \<Rightarrow> 'm cpu_run"
  cpu_exec_nocache :: "int \<Rightarrow> u64 \<Rightarrow> 'm cpu_run \<Rightarrow> (unit, 'm) jump"
  plugin_code :: plugin_lib

abbreviation (input) PANDA_CB_BEFORE_BLOCK_EXEC_INVALIDATE_OPT :: panda_cb_type where
  "PANDA_CB_BEFORE_BLOCK_EXEC_INVALIDATE_OPT \<equiv> 2"
abbreviation (input) PANDA_CB_BEFORE_BLOCK_EXEC :: panda_cb_type where "PANDA_CB_BEFORE_BLOCK_EXEC \<equiv> 3"
abbreviation (input) PANDA_CB_AFTER_BLOCK_EXEC :: panda_cb_type where "PANDA_CB_AFTER_BLOCK_EXEC \<equiv> 4"

abbreviation (input) CPU_INTERRUPT_HARD :: u32 where "CPU_INTERRUPT_HARD \<equiv> 0x0002"
abbreviation (input) CPU_INTERRUPT_EXITTB :: u32 where "CPU_INTERRUPT_EXITTB \<equiv> 0x0004"
abbreviation (input) CPU_INTERRUPT_DEBUG :: u32 where "CPU_INTERRUPT_DEBUG \<equiv> 0x0080"
abbreviation (input) CPU_INTERRUPT_SMI :: u32 where "CPU_INTERRUPT_SMI \<equiv> 0x0040"
abbreviation (input) CPU_INTERRUPT_NMI :: u32 where "CPU_INTERRUPT_NMI \<equiv> 0x0200"
abbreviation (input) CPU_INTERRUPT_MCE :: u32 where "CPU_INTERRUPT_MCE \<equiv> 0x1000"
abbreviation (input) CPU_INTERRUPT_VIRQ :: u32 where "CPU_INTERRUPT_VIRQ \<equiv> 0x0100"
abbreviation (input) CPU_INTERRUPT_INIT :: u32 where "CPU_INTERRUPT_INIT \<equiv> 0x0400"
abbreviation (input) CPU_INTERRUPT_SIPI :: u32 where "CPU_INTERRUPT_SIPI \<equiv> 0x0800"
abbreviation (input) EXCP_INTERRUPT :: int where "EXCP_INTERRUPT \<equiv> 0x10000"
abbreviation (input) EXCP_DEBUG :: int where "EXCP_DEBUG \<equiv> 0x10002"
abbreviation (input) EXCP_HALTED :: int where "EXCP_HALTED \<equiv> 0x10003"

definition CPU_INTERRUPT_SSTEP_MASK :: u32 where
  "CPU_INTERRUPT_SSTEP_MASK = CPU_INTERRUPT_HARD OR 0x0008 OR 0x0010 OR 0x0040 OR 0x0200 OR 0x1000"

definition any :: "'a::len word \<Rightarrow> 'a word \<Rightarrow> bool" where
  "any w m \<longleftrightarrow> w AND m \<noteq> 0"

definition cpu_has_work :: "'m cpu_run \<Rightarrow> bool" where
  "cpu_has_work s \<longleftrightarrow>
     any (env_interrupt_request s) CPU_INTERRUPT_HARD \<and> any (eflags s) 0x200
     \<or> any (env_interrupt_request s) (CPU_INTERRUPT_NMI OR CPU_INTERRUPT_INIT OR CPU_INTERRUPT_SIPI OR CPU_INTERRUPT_MCE)"

section \<open>Interrupts\<close>

definition at_rr :: "(rr_state \<Rightarrow> rr_exit + rr_state) \<Rightarrow> 'm cpu_run \<Rightarrow> rr_exit + 'm cpu_run" where
  "at_rr f s = bindR (f (run_rr s)) (\<lambda>r. Inr (s\<lparr>run_rr := r\<rparr>))"

text \<open>The skipped calls of the I/O thread, replayed at the top of every turn.\<close>

definition replay_io_thread :: "host \<Rightarrow> machine \<Rightarrow> 'm cpu_run \<Rightarrow> rr_exit + 'm cpu_run" where
  "replay_io_thread H M s =
     (if rr_in_replay (run_rr s) then
        at_rr (\<lambda>r. rr_replay_skipped_calls H M
          (rr_set_program_point (r\<lparr>rr_skipped_callsite_location := RR_CALLSITE_MAIN_LOOP_WAIT\<rparr>))) s
      else Inr s)"

definition cache_interrupt_request :: "host \<Rightarrow> 'm cpu_run \<Rightarrow> rr_exit + (u32 \<times> 'm cpu_run)" where
  "cache_interrupt_request H s =
     bindR (rr_interrupt_request H (env_interrupt_request s)
       ((rr_set_program_point (run_rr s))\<lparr>rr_skipped_callsite_location := RR_CALLSITE_CPU_EXEC_1\<rparr>)) (\<lambda>(v, r).
     Inr (v, s\<lparr>run_rr := r, env_interrupt_request := (if rr_in_replay r then v else env_interrupt_request s)\<rparr>))"

text \<open>The number of the hardware interrupt, recorded or replayed.\<close>

definition hard_intno :: "'m cpu_code \<Rightarrow> host \<Rightarrow> machine \<Rightarrow> 'm cpu_run \<Rightarrow> rr_exit + (u32 \<times> 'm cpu_run)" where
  "hard_intno C H M s =
     bindR (RR_DO_RECORD_OR_REPLAY H M (cpu_get_pic_interrupt C (guest s))
       (\<lambda>(intno, m) r. bindR (rr_input_4 H intno r) (\<lambda>(v, r). Inr ((v, m), r)))
       (\<lambda>r. bindR (rr_input_4 H 0 r) (\<lambda>(v, r). Inr ((v, guest s), r)))
       RR_CALLSITE_CPU_EXEC_2 (run_rr s)) (\<lambda>((intno, m), r).
     Inr (intno, s\<lparr>run_rr := r, guest := m\<rparr>))"

definition clear_request :: "u32 \<Rightarrow> 'm cpu_run \<Rightarrow> 'm cpu_run" where
  "clear_request bits s = s\<lparr>env_interrupt_request := env_interrupt_request s AND NOT bits\<rparr>"

definition new_flow :: "'m cpu_run \<Rightarrow> (unit, 'm) jump" where
  "new_flow s = Inr (Some (), s\<lparr>next_tb := 0\<rparr>)"

definition irqs_on :: "'m cpu_run \<Rightarrow> bool" where
  "irqs_on s \<longleftrightarrow> any (eflags s) 0x200 \<and> \<not> any (hflags s) 8"

definition x86_interrupt :: "'m cpu_code \<Rightarrow> host \<Rightarrow> machine \<Rightarrow> u32 \<Rightarrow> 'm cpu_run \<Rightarrow> (unit, 'm) jump" where
  "x86_interrupt C H M ireq s =
     (if any ireq CPU_INTERRUPT_INIT then
        bindJ (svm_check_intercept C 0x063 s) (\<lambda>_ s.
        bindJ (do_cpu_init C s) (\<lambda>_ s. cpu_loop_exit (s\<lparr>exception_index := EXCP_HALTED\<rparr>)))
      else if any ireq CPU_INTERRUPT_SIPI then do_cpu_sipi C s
      else if any (hflags2 s) 1 then
        if any ireq CPU_INTERRUPT_SMI \<and> \<not> any (hflags s) 0x80000 then
          bindJ (svm_check_intercept C 0x062 s) (\<lambda>_ s.
          bindJ (do_smm_enter C (clear_request CPU_INTERRUPT_SMI s)) (\<lambda>_ s. new_flow s))
        else if any ireq CPU_INTERRUPT_NMI \<and> \<not> any (hflags2 s) 4 then
          let s = clear_request CPU_INTERRUPT_NMI s in
          bindJ (do_interrupt_x86_hardirq C 2 True (s\<lparr>hflags2 := hflags2 s OR 4\<rparr>)) (\<lambda>_ s. new_flow s)
        else if any ireq CPU_INTERRUPT_MCE then
          bindJ (do_interrupt_x86_hardirq C 18 False (clear_request CPU_INTERRUPT_MCE s)) (\<lambda>_ s. new_flow s)
        else if any ireq CPU_INTERRUPT_HARD
                \<and> (any (hflags2 s) 8 \<and> any (hflags2 s) 2 \<or> \<not> any (hflags2 s) 8 \<and> irqs_on s) then
          bindJ (svm_check_intercept C 0x060 s) (\<lambda>_ s.
          bindR (hard_intno C H M (clear_request (CPU_INTERRUPT_HARD OR CPU_INTERRUPT_VIRQ) s)) (\<lambda>(intno, s).
          bindJ (do_interrupt_x86_hardirq C intno True s) (\<lambda>_ s. new_flow s)))
        else if any ireq CPU_INTERRUPT_VIRQ \<and> irqs_on s then
          bindJ (svm_check_intercept C 0x064 s) (\<lambda>_ s.
          bindJ (do_interrupt_x86_hardirq C (vmcb_int_vector C s) True s) (\<lambda>_ s.
          new_flow (clear_request CPU_INTERRUPT_VIRQ s)))
        else Inr (Some (), s)
      else Inr (Some (), s))"

text \<open>After an interrupt the request is recorded or replayed once more.\<close>

definition after_interrupts :: "host \<Rightarrow> 'm cpu_run \<Rightarrow> (unit, 'm) jump" where
  "after_interrupts H s =
     bindR (rr_interrupt_request H (env_interrupt_request s)
       ((rr_set_program_point (run_rr s))\<lparr>rr_skipped_callsite_location := RR_CALLSITE_CPU_EXEC_4\<rparr>)) (\<lambda>(v, r).
     let s = s\<lparr>run_rr := r, env_interrupt_request := v\<rparr> in
     if any v CPU_INTERRUPT_EXITTB then new_flow (clear_request CPU_INTERRUPT_EXITTB s)
     else Inr (Some (), s))"

definition service_interrupts :: "'m cpu_code \<Rightarrow> host \<Rightarrow> machine \<Rightarrow> u32 \<Rightarrow> 'm cpu_run \<Rightarrow> (unit, 'm) jump" where
  "service_interrupts C H M ireq s =
     (if ireq = 0 then Inr (Some (), s)
      else
        let ireq = (if any (singlestep_enabled s) 2 then ireq AND NOT CPU_INTERRUPT_SSTEP_MASK else ireq) in
        if any ireq CPU_INTERRUPT_DEBUG then
          cpu_loop_exit ((clear_request CPU_INTERRUPT_DEBUG s)\<lparr>exception_index := EXCP_DEBUG\<rparr>)
        else bindJ (x86_interrupt C H M ireq s) (\<lambda>_ s. after_interrupts H s))"

section \<open>Blocks\<close>

text \<open>Unloading of flagged plugins and the flush a plugin asked for.\<close>

definition serve_plugins :: "'m cpu_code \<Rightarrow> 'm cpu_run \<Rightarrow> rr_exit + 'm cpu_run" where
  "serve_plugins C s =
     bindR (unload_flagged (plugin_code C) ((run_plugins s)\<lparr>plugin_cbs := cbs (run_rr s)\<rparr>)) (\<lambda>p.
     case panda_flush_tb p of (flush, p) \<Rightarrow>
     let s = s\<lparr>run_plugins := p, run_rr := (run_rr s)\<lparr>cbs := plugin_cbs p\<rparr>\<rparr> in
     Inr (if flush then (tb_flush C s)\<lparr>tb_invalidated_flag := True\<rparr> else s))"

text \<open>The callbacks of a type, one after the other; the result is the disjunction of theirs.\<close>

fun call_all :: "'m cpu_code \<Rightarrow> panda_cb_type \<Rightarrow> translation_block \<Rightarrow> panda_cb list \<Rightarrow> bool \<Rightarrow> 'm cpu_run
    \<Rightarrow> rr_exit + (bool \<times> 'm cpu_run)" where
  "call_all C type tb [] b s = Inr (b, s)"
| "call_all C type tb (c # cs) b s =
     bindR (callback_code C type c tb s) (\<lambda>(r, s). call_all C type tb cs (b \<or> r) s)"

definition callbacks_of :: "'m cpu_code \<Rightarrow> panda_cb_type \<Rightarrow> translation_block \<Rightarrow> 'm cpu_run \<Rightarrow> rr_exit + (bool \<times> 'm cpu_run)" where
  "callbacks_of C type tb s =
     bindR (run_callbacks type (cbs (run_rr s))) (\<lambda>cs. call_all C type tb cs False s)"

definition find_block :: "'m cpu_code \<Rightarrow> 'm cpu_run \<Rightarrow> (translation_block, 'm) jump" where
  "find_block C s =
     bindJ (tb_find_fast C s) (\<lambda>tb s.
     bindR (if \<not> bb_invalidate_done s
            then bindR (callbacks_of C PANDA_CB_BEFORE_BLOCK_EXEC_INVALIDATE_OPT tb s) (\<lambda>(b, s).
                 Inr (b, s\<lparr>bb_invalidate_done := True\<rparr>))
            else Inr (False, s)) (\<lambda>(panda_invalidate_tb, s).
     let left = rr_num_instr_before_next_interrupt (run_rr s) in
     bindJ (if panda_invalidate_tb
               \<or> rr_mode (run_rr s) = RR_REPLAY \<and> left > 0 \<and> unat (num_guest_insns tb) > unat left
            then tb_find_fast C (invalidate_single_tb C (tb_pc tb) s)
            else Inr (Some tb, s)) (\<lambda>tb s.
     let s = (if tb_invalidated_flag s then s\<lparr>next_tb := 0, tb_invalidated_flag := False\<rparr> else s) in
     Inr (Some tb,
       if rr_mode (run_rr s) \<noteq> RR_REPLAY \<and> panda_tb_chaining (run_plugins s) \<and> next_tb s \<noteq> 0
          \<and> page_addr_1 tb = - 1
       then tb_add_jump C tb s else s))))"

text \<open>The watchdog: twenty checks at one program point without progress end the replay with an error.\<close>

definition replay_watchdog :: "'m cpu_run \<Rightarrow> rr_exit + 'm cpu_run" where
  "replay_watchdog s =
     (if rr_mode (run_rr s) = RR_REPLAY then
        let s = (if rr_prog_point (run_rr s) = saved_prog_point s then s\<lparr>rr_loop_tries := rr_loop_tries s - 1\<rparr>
                 else s\<lparr>rr_loop_tries := 20, saved_prog_point := rr_prog_point (run_rr s)\<rparr>)
        in if rr_loop_tries s = 0 then at_rr (rr_do_end_replay True) s else Inr s
      else Inr s)"

text \<open>The instruction counter of \<^verbatim>\<open>-icount\<close> has expired.\<close>

definition icount_expired :: "'m cpu_code \<Rightarrow> 'm cpu_run \<Rightarrow> (unit, 'm) jump" where
  "icount_expired C s =
     (let tb = next_tb s AND NOT 3; s = cpu_pc_from_tb C tb s; insns_left = sint (icount_decr s) in
      if icount_extra s \<noteq> 0 \<and> insns_left \<ge> 0 then
        let extra = icount_extra s + insns_left;
            insns_left = (if extra > 0xffff then 0xffff else extra)
        in Inr (Some (), s\<lparr>icount_extra := extra - insns_left,
             icount_decr := (icount_decr s AND 0xffff0000) OR (word_of_int insns_left AND 0xffff)\<rparr>)
      else
        bindJ (if insns_left > 0 then cpu_exec_nocache C insns_left tb s else Inr (Some (), s)) (\<lambda>_ s.
        cpu_loop_exit (s\<lparr>exception_index := EXCP_INTERRUPT, next_tb := 0\<rparr>)))"

definition run_block :: "'m cpu_code \<Rightarrow> translation_block \<Rightarrow> 'm cpu_run \<Rightarrow> (unit, 'm) jump" where
  "run_block C tb s =
     (if (\<not> rr_in_replay (run_rr s) \<or> rr_num_instr_before_next_interrupt (run_rr s) > 0) \<and> \<not> env_exit_request s then
        bindR (callbacks_of C PANDA_CB_BEFORE_BLOCK_EXEC tb
          (s\<lparr>run_rr := rr_set_program_point (run_rr s), bb_invalidate_done := False\<rparr>)) (\<lambda>(_, s).
        bindJ (tcg_qemu_tb_exec C tb s) (\<lambda>next s.
        bindR (callbacks_of C PANDA_CB_AFTER_BLOCK_EXEC tb (s\<lparr>next_tb := next\<rparr>)) (\<lambda>(_, s).
        if next_tb s AND 3 = 2 then icount_expired C s else Inr (Some (), s))))
      else Inr (Some (), s))"

section \<open>The loops\<close>

datatype turn = Again | Break_inner

definition inner_turn :: "'m cpu_code \<Rightarrow> host \<Rightarrow> machine \<Rightarrow> 'm cpu_run \<Rightarrow> (turn, 'm) jump" where
  "inner_turn C H M s =
     bindR (replay_io_thread H M (other_threads C s)) (\<lambda>s.
     bindR (cache_interrupt_request H s) (\<lambda>(ireq, s).
     bindJ (service_interrupts C H M ireq s) (\<lambda>_ s.
     if env_exit_request s then
       cpu_loop_exit (s\<lparr>env_exit_request := False, exception_index := EXCP_INTERRUPT\<rparr>)
     else
       bindR (serve_plugins C s) (\<lambda>s.
       bindJ (find_block C s) (\<lambda>tb s.
       bindR (if rr_mode (run_rr s) = RR_REPLAY then rr_replay_finished (run_rr s) else Inr False) (\<lambda>finished.
       if finished then
         Inr (Some Break_inner, s\<lparr>run_rr := (run_rr s)\<lparr>rr_end_replay_requested := True\<rparr>\<rparr>)
       else
         bindR (replay_watchdog s) (\<lambda>s.
         bindJ (run_block C tb s) (\<lambda>_ s. Inr (Some Again, s)))))))))"

datatype outer = Return int | Enter

text \<open>The top of the outer loop: a pending exception is returned or delivered.\<close>

definition outer_top :: "'m cpu_code \<Rightarrow> 'm cpu_run \<Rightarrow> (outer, 'm) jump" where
  "outer_top C s =
     (let s = s\<lparr>run_rr := rr_set_program_point (run_rr s)\<rparr> in
      if exception_index s \<ge> EXCP_INTERRUPT then
        let ret = exception_index s in
        Inr (Some (Return ret), if ret = EXCP_DEBUG then cpu_handle_debug_exception C s else s)
      else
        bindJ (if exception_index s \<ge> 0
               then bindJ (do_interrupt C s) (\<lambda>_ s. Inr (Some (), s\<lparr>exception_index := - 1\<rparr>))
               else Inr (Some (), s)) (\<lambda>_ s.
        Inr (Some Enter, s\<lparr>next_tb := 0\<rparr>)))"

text \<open>
  The two nested loops, for at most \<open>n\<close> passes through the top of either; \<open>None\<close> if they are
  still running then. The flag says which loop is at its top.
\<close>

fun cpu_loop :: "'m cpu_code \<Rightarrow> host \<Rightarrow> machine \<Rightarrow> nat \<Rightarrow> bool \<Rightarrow> 'm cpu_run \<Rightarrow> (rr_exit + (int \<times> 'm cpu_run)) option" where
  "cpu_loop C H M 0 t s = None"
| "cpu_loop C H M (Suc n) True s =
     (case outer_top C s of
        Inl e \<Rightarrow> Some (Inl e)
      | Inr (None, s) \<Rightarrow> cpu_loop C H M n True s
      | Inr (Some (Return ret), s) \<Rightarrow> Some (Inr (ret, s))
      | Inr (Some Enter, s) \<Rightarrow> cpu_loop C H M n False s)"
| "cpu_loop C H M (Suc n) False s =
     (case inner_turn C H M s of
        Inl e \<Rightarrow> Some (Inl e)
      | Inr (Some Again, s) \<Rightarrow> cpu_loop C H M n False s
      | Inr (_, s) \<Rightarrow> cpu_loop C H M n True s)"

definition cpu_exec_enter :: "'m cpu_code \<Rightarrow> 'm cpu_run \<Rightarrow> 'm cpu_run" where
  "cpu_exec_enter C s =
     (load_cc C (s\<lparr>halted := False, run_rr := (run_rr s)\<lparr>cpu_single_env_set := True\<rparr>,
        env_exit_request := (env_exit_request s \<or> global_exit_request s)\<rparr>))\<lparr>exception_index := - 1\<rparr>"

definition cpu_exec :: "'m cpu_code \<Rightarrow> host \<Rightarrow> machine \<Rightarrow> nat \<Rightarrow> 'm cpu_run \<Rightarrow> (rr_exit + (int \<times> 'm cpu_run)) option" where
  "cpu_exec C H M n s =
     (let s = s\<lparr>saved_prog_point := rr_prog_point (run_rr s), rr_loop_tries := 20\<rparr>;
          s = (if rr_flush_tb (run_rr s)
               then let s = tb_flush C s in s\<lparr>tb_invalidated_flag := True, run_rr := rr_flush_tb_off (run_rr s)\<rparr>
               else s)
      in if halted s \<and> \<not> rr_in_replay (run_rr s) \<and> \<not> cpu_has_work s then Some (Inr (EXCP_HALTED, s))
         else
           map_option (\<lambda>r. bindR r (\<lambda>(ret, s). let s = store_cc C s in
             Inr (ret, s\<lparr>run_rr := (run_rr s)\<lparr>cpu_single_env_set := False\<rparr>\<rparr>)))
             (cpu_loop C H M n True (cpu_exec_enter C s)))"


section \<open>The end of the log\<close>

text \<open>Only the entry that ends the log is left, and it is in the queue.\<close>

definition log_at_end :: "host \<Rightarrow> RR_prog_point \<Rightarrow> rr_state \<Rightarrow> bool" where
  "log_at_end H lp r \<longleftrightarrow> replaying H r [last_entry lp] []"

lemma at_end_update [simp]:
  "log_at_end H lp (r\<lparr>rr_prog_point := pp\<rparr>) = log_at_end H lp r"
  "log_at_end H lp (r\<lparr>rr_num_instr_before_next_interrupt := d\<rparr>) = log_at_end H lp r"
  "log_at_end H lp (r\<lparr>rr_skipped_callsite_location := c\<rparr>) = log_at_end H lp r"
  "log_at_end H lp (r\<lparr>env := cpu\<rparr>) = log_at_end H lp r"
  "log_at_end H lp (r\<lparr>cpu_single_env_set := b\<rparr>) = log_at_end H lp r"
  "log_at_end H lp (r\<lparr>rr_please_flush_tb := b\<rparr>) = log_at_end H lp r"
  "log_at_end H lp (r\<lparr>rr_end_replay_requested := b\<rparr>) = log_at_end H lp r"
  "log_at_end H lp (rr_set_program_point r) = log_at_end H lp r"
  by (simp_all add: log_at_end_def replaying_def rr_set_program_point_def rr_set_prog_point_def)

lemma at_end_mode: "log_at_end H lp r \<Longrightarrow> rr_mode r = RR_REPLAY"
  by (simp add: log_at_end_def replaying_def)

lemma at_end_head:
  assumes "log_at_end H lp r"
  obtains e where "queue_head_entry (rr_queue r) = Inr e" and "kind e = RR_LAST" and "prog_point e = lp"
    and "rr_queue_head (rr_queue r) \<noteq> None"
proof -
  from assms have r: "replaying H r (last_entry lp # []) []" by (simp add: log_at_end_def)
  obtain k where k: "queue_head_entry (rr_queue r) = Inr (replayed_entry H k (last_entry lp))"
    by (rule replaying_pop [OF r]) (rule that)
  have "rr_queue_head (rr_queue r) \<noteq> None" using replaying_head [OF r] by simp
  with k show ?thesis by (intro that [of "replayed_entry H k (last_entry lp)"]) (simp_all add: last_entry_def)
qed

lemma at_end_no_entry:
  assumes "log_at_end H lp r" and "kd = RR_INTERRUPT_REQUEST \<or> kd = RR_SKIPPED_CALL"
  shows "get_next_entry H kd cs chk r = Inr (None, r)"
proof -
  obtain e where e: "queue_head_entry (rr_queue r) = Inr e" "kind e = RR_LAST" "rr_queue_head (rr_queue r) \<noteq> None"
    by (rule at_end_head [OF assms(1)]) (rule that)
  have "(kd \<noteq> RR_INTERRUPT_REQUEST \<and> kd \<noteq> RR_SKIPPED_CALL) = False" "(kind e \<noteq> kd) = True"
    "(rr_queue_head (rr_queue r) = None) = False" using assms(2) e(2,3) by auto
  moreover have "r\<lparr>rr_queue := rr_queue r\<rparr> = r" by simp
  ultimately show ?thesis unfolding get_next_entry_def Let_def by (simp only: if_False if_True bindR_simps e(1))
qed

lemma at_end_skipped_calls: "log_at_end H lp r \<Longrightarrow> rr_replay_skipped_calls H M r = Inr r"
  by (simp add: rr_replay_skipped_calls_def rr_replay_skipped_calls_internal_def at_end_no_entry)

lemma at_end_interrupt_request: "log_at_end H lp r \<Longrightarrow> rr_interrupt_request H v r = Inr (0, r)"
  by (simp add: rr_interrupt_request_def at_end_mode rr_replay_interrupt_request_def at_end_no_entry)

lemma at_end_finished:
  assumes "log_at_end H lp r"
  shows "rr_replay_finished r = Inr (guest_instr_count lp \<le> guest_instr_count (rr_prog_point r))"
proof -
  obtain e where "queue_head_entry (rr_queue r) = Inr e" "kind e = RR_LAST" "prog_point e = lp"
    by (rule at_end_head [OF assms]) (rule that)
  moreover from assms obtain l where "rr_nondet_log r = Some l" "rr_log_is_empty l"
    by (auto simp: log_at_end_def replaying_def log_holds_def rr_log_is_empty_def)
  ultimately show ?thesis by (simp add: rr_replay_finished_def the_log_def)
qed

text \<open>
  The first question of the loop puts the last entry into the queue, if it is not there yet, and
  sets the number of instructions to it.
\<close>

definition due :: "RR_prog_point \<Rightarrow> rr_state \<Rightarrow> bool" where
  "due lp r \<longleftrightarrow> guest_instr_count (rr_prog_point r) + rr_num_instr_before_next_interrupt r = guest_instr_count lp"

lemma due_set_program_point [simp]: "due lp (rr_set_program_point r) = due lp r"
  by (simp add: due_def rr_set_program_point_def rr_set_prog_point_end)

lemma due_update [simp]:
  "due lp (r\<lparr>rr_skipped_callsite_location := c\<rparr>) = due lp r" "due lp (r\<lparr>env := cpu\<rparr>) = due lp r"
  "due lp (r\<lparr>cpu_single_env_set := b\<rparr>) = due lp r" "due lp (r\<lparr>rr_please_flush_tb := b\<rparr>) = due lp r"
  "due lp (r\<lparr>rr_end_replay_requested := b\<rparr>) = due lp r"
  by (simp_all add: due_def)

lemma first_skipped_calls:
  assumes "replaying H r qs ls" and "qs @ ls = [last_entry lp]" and "qs \<noteq> [] \<longrightarrow> due lp r"
  obtains r' where "rr_replay_skipped_calls H M r = Inr r'" and "log_at_end H lp r'" and "due lp r'" and "fills r r'"
proof (cases "qs = []")
  case False
  then have "log_at_end H lp r" "due lp r" using assms by (auto simp: log_at_end_def append_eq_Cons_conv)
  then show ?thesis by (intro that [of r]) (simp_all add: at_end_skipped_calls fills_def)
next
  case True
  then have r: "replaying H r [] [last_entry lp]" using assms(1,2) by simp
  have b: "batch (Suc RR_MAX_QUEUE_LEN) [last_entry lp] = [last_entry lp]"
    by (simp add: is_stop_def last_entry_def)
  from rr_fill_queue_replaying [OF r] obtain r' where
    r': "rr_fill_queue H r = Inr r'" "fills r r'"
      "replaying H r' (batch (Suc RR_MAX_QUEUE_LEN) [last_entry lp]) (drop (length (batch (Suc RR_MAX_QUEUE_LEN) [last_entry lp])) [last_entry lp])"
      "rr_num_instr_before_next_interrupt r' = fill_distance (batch (Suc RR_MAX_QUEUE_LEN) [last_entry lp]) r" .
  have e: "log_at_end H lp r'" using r'(3) unfolding b by (simp add: log_at_end_def)
  have d: "due lp r'"
    using r'(2,4) unfolding b by (simp add: due_def fills_def fill_distance_def is_stop_def last_entry_def)
  have "rr_queue_head (rr_queue r) = None" using replaying_head [OF r] by simp
  then have "get_next_entry H RR_SKIPPED_CALL cs False r = get_next_entry H RR_SKIPPED_CALL cs False r'" for cs
    using r'(1) at_end_head [OF e] by (simp add: get_next_entry_def) (metis option.distinct(1))
  then have "rr_replay_skipped_calls H M r = Inr r'"
    using at_end_no_entry [OF e]
    by (simp add: rr_replay_skipped_calls_def rr_replay_skipped_calls_internal_def)
  then show ?thesis using e d r'(2) by (rule that)
qed


section \<open>A guest that runs to the end\<close>

text \<open>
  What is relied on of the code outside: the other threads ask the CPU loop to return once the end
  of the replay is requested; looking up and invalidating blocks leaves record/replay alone; a
  block executes at least one instruction and not more than are left before the next entry, as
  the translator ends blocks there, and counts them.
\<close>

definition plain_code :: "'m cpu_code \<Rightarrow> bool" where
  "plain_code C \<longleftrightarrow>
     (\<forall>s. \<exists>g i. other_threads C s = s\<lparr>env_exit_request := (env_exit_request s \<or> rr_end_replay_requested (run_rr s)),
        env_interrupt_request := i, guest := g\<rparr>)
     \<and> (\<forall>s. \<exists>tb g. tb_find_fast C s = Inr (Some tb, s\<lparr>guest := g\<rparr>))
     \<and> (\<forall>a s. \<exists>g. invalidate_single_tb C a s = s\<lparr>guest := g\<rparr>)
     \<and> (\<forall>s. \<exists>g f. load_cc C s = s\<lparr>eflags := f, guest := g\<rparr>)
     \<and> (\<forall>s. \<exists>g f. store_cc C s = s\<lparr>eflags := f, guest := g\<rparr>)
     \<and> (\<forall>s. \<exists>g. tb_flush C s = s\<lparr>guest := g\<rparr>)
     \<and> (\<forall>tb s. rr_num_instr_before_next_interrupt (run_rr s) \<noteq> 0 \<longrightarrow>
          (\<exists>k cpu g nx. k \<noteq> 0 \<and> k \<le> rr_num_instr_before_next_interrupt (run_rr s)
             \<and> rr_guest_instr_count cpu = rr_guest_instr_count (env (run_rr s)) + k \<and> nx AND 3 \<noteq> 2
             \<and> tcg_qemu_tb_exec C tb s = Inr (Some nx, s\<lparr>run_rr := (run_rr s)\<lparr>env := cpu\<rparr>, guest := g\<rparr>)))"

text \<open>No plugin has callbacks on blocks or waits to be unloaded.\<close>

definition undisturbed :: "'m cpu_run \<Rightarrow> bool" where
  "undisturbed s \<longleftrightarrow>
     run_callbacks PANDA_CB_BEFORE_BLOCK_EXEC_INVALIDATE_OPT (cbs (run_rr s)) = Inr []
     \<and> run_callbacks PANDA_CB_BEFORE_BLOCK_EXEC (cbs (run_rr s)) = Inr []
     \<and> run_callbacks PANDA_CB_AFTER_BLOCK_EXEC (cbs (run_rr s)) = Inr []
     \<and> \<not> panda_plugin_to_unload (run_plugins s) \<and> \<not> panda_please_flush_tb (run_plugins s)"

text \<open>
  The record/replay state while nothing is left but the last entry: what does not change, and,
  after the program point is set, where it is.
\<close>

definition ending :: "host \<Rightarrow> RR_prog_point \<Rightarrow> rr_state \<Rightarrow> rr_state \<Rightarrow> bool" where
  "ending H lp r r' \<longleftrightarrow> log_at_end H lp r' \<and> due lp r' \<and> cpu_single_env_set r' \<and> cbs r' = cbs r
     \<and> effects r' = effects r \<and> rr_end_replay_requested r' = rr_end_replay_requested r"

definition synced :: "rr_state \<Rightarrow> bool" where
  "synced r \<longleftrightarrow> guest_instr_count (rr_prog_point r) = rr_guest_instr_count (env r)"

definition instrs_left :: "RR_prog_point \<Rightarrow> rr_state \<Rightarrow> nat" where
  "instrs_left lp r = unat (guest_instr_count lp) - unat (rr_guest_instr_count (env r))"

lemma rr_set_program_point_more [simp]:
  "rr_end_replay_requested (rr_set_program_point r) = rr_end_replay_requested r"
  "cpu_single_env_set r \<Longrightarrow> guest_instr_count (rr_prog_point (rr_set_program_point r)) = rr_guest_instr_count (env r)"
  by (simp_all add: rr_set_program_point_def rr_set_prog_point_def)

lemma ending_set_program_point:
  "ending H lp r r' \<Longrightarrow> ending H lp r (rr_set_program_point r') \<and> synced (rr_set_program_point r')"
  by (simp add: ending_def synced_def)

lemma ending_callsite:
  "ending H lp r (r'\<lparr>rr_skipped_callsite_location := c\<rparr>) = ending H lp r r'"
  "synced (r'\<lparr>rr_skipped_callsite_location := c\<rparr>) = synced r'"
  by (simp_all add: ending_def synced_def)

lemma bindJ_simps [simp]:
  "bindJ (Inl e) f = Inl e" "bindJ (Inr (None, s)) f = Inr (None, s)" "bindJ (Inr (Some x, s)) f = f x s"
  by (simp_all add: bindJ_def)

text \<open>The start of a turn, up to the question whether to return.\<close>

lemma turn_prologue:
  assumes "plain_code C"
    and "\<exists>r1. rr_replay_skipped_calls H M (rr_set_program_point ((run_rr s)\<lparr>rr_skipped_callsite_location := RR_CALLSITE_MAIN_LOOP_WAIT\<rparr>)) = Inr r1
      \<and> ending H lp (run_rr s) r1 \<and> env r1 = env (run_rr s)" and "rr_in_replay (run_rr s)" and "\<not> env_exit_request s"
  obtains r g where "ending H lp (run_rr s) r" and "synced r" and "env r = env (run_rr s)"
    and "\<forall>f :: unit \<Rightarrow> 'm cpu_run \<Rightarrow> ('b, 'm) jump.
      bindR (replay_io_thread H M (other_threads C s)) (\<lambda>s.
      bindR (cache_interrupt_request H s) (\<lambda>(ireq, s). bindJ (service_interrupts C H M ireq s) f))
      = f () (s\<lparr>run_rr := r, env_exit_request := rr_end_replay_requested (run_rr s), env_interrupt_request := 0, guest := g\<rparr>)"
proof -
  from assms(1) obtain g i where o: "other_threads C s =
      s\<lparr>env_exit_request := (env_exit_request s \<or> rr_end_replay_requested (run_rr s)), env_interrupt_request := i, guest := g\<rparr>"
    unfolding plain_code_def by blast
  from assms(2) obtain r1 where r1: "rr_replay_skipped_calls H M
      (rr_set_program_point ((run_rr s)\<lparr>rr_skipped_callsite_location := RR_CALLSITE_MAIN_LOOP_WAIT\<rparr>)) = Inr r1"
    "ending H lp (run_rr s) r1" "env r1 = env (run_rr s)" by blast
  let ?r = "(rr_set_program_point r1)\<lparr>rr_skipped_callsite_location := RR_CALLSITE_CPU_EXEC_1\<rparr>"
  have e: "ending H lp (run_rr s) ?r" "synced ?r"
    using ending_set_program_point [OF r1(2)] by (simp_all add: ending_callsite)
  then have at: "log_at_end H lp ?r" by (simp add: ending_def)
  have io: "replay_io_thread H M (other_threads C s) = Inr (s\<lparr>run_rr := r1,
      env_exit_request := rr_end_replay_requested (run_rr s), env_interrupt_request := i, guest := g\<rparr>)"
    using assms(3,4) r1(1) by (simp add: o replay_io_thread_def at_rr_def)
  have ci: "cache_interrupt_request H (s\<lparr>run_rr := r1, env_exit_request := rr_end_replay_requested (run_rr s),
      env_interrupt_request := i, guest := g\<rparr>) = Inr (0, s\<lparr>run_rr := ?r,
      env_exit_request := rr_end_replay_requested (run_rr s), env_interrupt_request := 0, guest := g\<rparr>)"
    using at_end_interrupt_request [OF at, of i] at_end_mode [OF at]
    by (simp add: cache_interrupt_request_def rr_in_replay_def)
  have "env ?r = env (run_rr s)" using r1(3) by simp
  from e this show ?thesis
    by (rule that [where g = g]) (simp add: io ci service_interrupts_def)
qed

lemma serve_plugins_undisturbed:
  "undisturbed s \<Longrightarrow> serve_plugins C s = Inr (s\<lparr>run_plugins := (run_plugins s)\<lparr>plugin_cbs := cbs (run_rr s)\<rparr>\<rparr>)"
  by (simp add: undisturbed_def serve_plugins_def unload_flagged_def panda_flush_tb_def Let_def)

lemma undisturbed_update [simp]:
  "undisturbed (s\<lparr>run_plugins := (run_plugins s)\<lparr>plugin_cbs := c\<rparr>\<rparr>) = undisturbed s"
  "undisturbed (s\<lparr>env_exit_request := b\<rparr>) = undisturbed s" "undisturbed (s\<lparr>env_interrupt_request := i\<rparr>) = undisturbed s"
  "undisturbed (s\<lparr>guest := g\<rparr>) = undisturbed s" "undisturbed (s\<lparr>bb_invalidate_done := b\<rparr>) = undisturbed s"
  "undisturbed (s\<lparr>tb_invalidated_flag := b\<rparr>) = undisturbed s" "undisturbed (s\<lparr>next_tb := n\<rparr>) = undisturbed s"
  "undisturbed (s\<lparr>saved_prog_point := p\<rparr>) = undisturbed s" "undisturbed (s\<lparr>rr_loop_tries := t\<rparr>) = undisturbed s"
  "undisturbed (s\<lparr>exception_index := e\<rparr>) = undisturbed s" "undisturbed (s\<lparr>halted := b\<rparr>) = undisturbed s"
  "undisturbed (s\<lparr>eflags := f\<rparr>) = undisturbed s"
  by (simp_all add: undisturbed_def)

lemma undisturbed_rr: "cbs r = cbs (run_rr s) \<Longrightarrow> undisturbed (s\<lparr>run_rr := r\<rparr>) = undisturbed s"
  by (simp add: undisturbed_def)

lemma find_block_plain:
  assumes "plain_code C" and "undisturbed s" and "rr_mode (run_rr s) = RR_REPLAY"
  obtains tb b f n g where
    "find_block C s = Inr (Some tb, s\<lparr>bb_invalidate_done := b, tb_invalidated_flag := f, next_tb := n, guest := g\<rparr>)"
proof -
  from assms(1) obtain tb g where 1: "tb_find_fast C s = Inr (Some tb, s\<lparr>guest := g\<rparr>)"
    unfolding plain_code_def by blast
  let ?s1 = "s\<lparr>guest := g, bb_invalidate_done := True\<rparr>"
  have s1: "(if \<not> bb_invalidate_done (s\<lparr>guest := g\<rparr>)
      then bindR (callbacks_of C PANDA_CB_BEFORE_BLOCK_EXEC_INVALIDATE_OPT tb (s\<lparr>guest := g\<rparr>)) (\<lambda>(b, s).
           Inr (b, s\<lparr>bb_invalidate_done := True\<rparr>))
      else Inr (False, s\<lparr>guest := g\<rparr>)) = Inr (False, ?s1)"
    using assms(2) by (simp add: callbacks_of_def undisturbed_def)
  have find: "\<exists>tb' g'. tb_find_fast C (invalidate_single_tb C (tb_pc tb) ?s1) = Inr (Some tb', ?s1\<lparr>guest := g'\<rparr>)"
  proof -
    from assms(1) obtain g1 where "invalidate_single_tb C (tb_pc tb) ?s1 = ?s1\<lparr>guest := g1\<rparr>"
      unfolding plain_code_def by blast
    moreover from assms(1) obtain tb' g2 where "tb_find_fast C (?s1\<lparr>guest := g1\<rparr>) = Inr (Some tb', ?s1\<lparr>guest := g1\<rparr>\<lparr>guest := g2\<rparr>)"
      unfolding plain_code_def by blast
    ultimately show ?thesis by (intro exI [of _ tb'] exI [of _ g2]) simp
  qed
  let ?left = "rr_num_instr_before_next_interrupt (run_rr ?s1)"
  obtain tb' g' where 2: "(if False \<or> rr_mode (run_rr ?s1) = RR_REPLAY \<and> ?left > 0 \<and> unat (num_guest_insns tb) > unat ?left
      then tb_find_fast C (invalidate_single_tb C (tb_pc tb) ?s1) else Inr (Some tb, ?s1)) = Inr (Some tb', ?s1\<lparr>guest := g'\<rparr>)"
  proof (cases "False \<or> rr_mode (run_rr ?s1) = RR_REPLAY \<and> ?left > 0 \<and> unat (num_guest_insns tb) > unat ?left")
    case True
    with find that show ?thesis by (simp only: if_True) blast
  next
    case False
    then show ?thesis by (intro that [of tb g]) (simp only: if_False, simp)
  qed
  let ?t = "if tb_invalidated_flag s then ?s1\<lparr>guest := g', next_tb := 0, tb_invalidated_flag := False\<rparr> else ?s1\<lparr>guest := g'\<rparr>"
  have "find_block C s = Inr (Some tb', ?t)"
    unfolding find_block_def 1 bindJ_simps s1 bindR_simps prod.case Let_def 2 using assms(3) by simp
  moreover have "?t = s\<lparr>bb_invalidate_done := True, tb_invalidated_flag := False,
      next_tb := (if tb_invalidated_flag s then 0 else next_tb s), guest := g'\<rparr>"
    by (cases s) simp
  ultimately have "find_block C s = Inr (Some tb', s\<lparr>bb_invalidate_done := True, tb_invalidated_flag := False,
      next_tb := (if tb_invalidated_flag s then 0 else next_tb s), guest := g'\<rparr>)" by (simp only:)
  then show ?thesis by (rule that)
qed


section \<open>The last turns of a replay\<close>

definition turn_ok :: "host \<Rightarrow> machine \<Rightarrow> RR_prog_point \<Rightarrow> 'm cpu_run \<Rightarrow> bool" where
  "turn_ok H M lp s \<longleftrightarrow> rr_in_replay (run_rr s)
     \<and> (\<exists>r1. rr_replay_skipped_calls H M
          (rr_set_program_point ((run_rr s)\<lparr>rr_skipped_callsite_location := RR_CALLSITE_MAIN_LOOP_WAIT\<rparr>)) = Inr r1
        \<and> ending H lp (run_rr s) r1 \<and> env r1 = env (run_rr s))
     \<and> undisturbed s \<and> exception_index s = - 1 \<and> \<not> env_exit_request s
     \<and> rr_guest_instr_count (env (run_rr s)) \<le> guest_instr_count lp
     \<and> (rr_loop_tries s = 20 \<or> guest_instr_count (saved_prog_point s) \<noteq> rr_guest_instr_count (env (run_rr s)))"

lemma ending_turn:
  assumes "ending H lp r0 r"
  shows "rr_in_replay r" and "\<exists>r1. rr_replay_skipped_calls H M
      (rr_set_program_point (r\<lparr>rr_skipped_callsite_location := RR_CALLSITE_MAIN_LOOP_WAIT\<rparr>)) = Inr r1
    \<and> ending H lp r r1 \<and> env r1 = env r"
proof -
  from assms have at: "log_at_end H lp (rr_set_program_point (r\<lparr>rr_skipped_callsite_location := RR_CALLSITE_MAIN_LOOP_WAIT\<rparr>))"
    "log_at_end H lp r" by (simp_all add: ending_def)
  show "rr_in_replay r" using at_end_mode [OF at(2)] by (simp add: rr_in_replay_def)
  show "\<exists>r1. rr_replay_skipped_calls H M
      (rr_set_program_point (r\<lparr>rr_skipped_callsite_location := RR_CALLSITE_MAIN_LOOP_WAIT\<rparr>)) = Inr r1
    \<and> ending H lp r r1 \<and> env r1 = env r"
    unfolding at_end_skipped_calls [OF at(1)] using assms by (auto simp: ending_def)
qed

lemma turn_okE:
  assumes "turn_ok H M lp s" and "plain_code C"
  obtains r g where "ending H lp (run_rr s) r" and "synced r" and "env r = env (run_rr s)" and "undisturbed s"
    and "exception_index s = - 1" and "rr_guest_instr_count (env (run_rr s)) \<le> guest_instr_count lp"
    and "rr_loop_tries s = 20 \<or> guest_instr_count (saved_prog_point s) \<noteq> rr_guest_instr_count (env (run_rr s))"
    and "\<forall>f :: unit \<Rightarrow> 'm cpu_run \<Rightarrow> ('b, 'm) jump.
      bindR (replay_io_thread H M (other_threads C s)) (\<lambda>s.
      bindR (cache_interrupt_request H s) (\<lambda>(ireq, s). bindJ (service_interrupts C H M ireq s) f))
      = f () (s\<lparr>run_rr := r, env_exit_request := rr_end_replay_requested (run_rr s), env_interrupt_request := 0, guest := g\<rparr>)"
proof -
  from assms(1) have a: "\<exists>r1. rr_replay_skipped_calls H M
      (rr_set_program_point ((run_rr s)\<lparr>rr_skipped_callsite_location := RR_CALLSITE_MAIN_LOOP_WAIT\<rparr>)) = Inr r1
        \<and> ending H lp (run_rr s) r1 \<and> env r1 = env (run_rr s)" "rr_in_replay (run_rr s)" "\<not> env_exit_request s"
    unfolding turn_ok_def by blast+
  show ?thesis
    by (rule turn_prologue [OF assms(2) a], rule that, assumption, assumption, assumption)
      (use assms(1) in \<open>simp_all only: turn_ok_def\<close>)
qed

text \<open>Once the end is requested, the next turn leaves the loops.\<close>

lemma turn_requested:
  assumes "plain_code C" and "turn_ok H M lp s" and "rr_end_replay_requested (run_rr s)"
  obtains s' where "inner_turn C H M s = Inr (None, s')" and "exception_index s' = EXCP_INTERRUPT"
    and "ending H lp (run_rr s) (run_rr s')"
proof -
  obtain r g where r: "ending H lp (run_rr s) r"
    "\<forall>f :: unit \<Rightarrow> 'a cpu_run \<Rightarrow> (turn, 'a) jump.
      bindR (replay_io_thread H M (other_threads C s)) (\<lambda>s.
      bindR (cache_interrupt_request H s) (\<lambda>(ireq, s). bindJ (service_interrupts C H M ireq s) f))
      = f () (s\<lparr>run_rr := r, env_exit_request := rr_end_replay_requested (run_rr s), env_interrupt_request := 0, guest := g\<rparr>)"
    by (rule turn_okE [OF assms(2,1)]) (rule that)
  let ?s' = "s\<lparr>run_rr := r, env_exit_request := False, env_interrupt_request := 0, guest := g, exception_index := EXCP_INTERRUPT\<rparr>"
  have "inner_turn C H M s = Inr (None, ?s')"
    unfolding inner_turn_def r(2) [rule_format] using assms(3) by (simp add: cpu_loop_exit_def)
  then show ?thesis by (rule that) (use r(1) in simp_all)
qed

text \<open>Before that, a turn reaches the block to be executed.\<close>

lemma turn_to_block:
  assumes "plain_code C" and "turn_ok H M lp s" and "\<not> rr_end_replay_requested (run_rr s)"
  obtains r tb t where "ending H lp (run_rr s) r" and "synced r" and "env r = env (run_rr s)"
    and "run_rr t = r" and "undisturbed t" and "exception_index t = - 1" and "env_exit_request t = False"
    and "rr_loop_tries t = rr_loop_tries s" and "saved_prog_point t = saved_prog_point s"
    and "inner_turn C H M s =
      (if guest_instr_count lp \<le> rr_guest_instr_count (env r)
       then Inr (Some Break_inner, t\<lparr>run_rr := r\<lparr>rr_end_replay_requested := True\<rparr>\<rparr>)
       else bindR (replay_watchdog t) (\<lambda>s. bindJ (run_block C tb s) (\<lambda>_ s. Inr (Some Again, s))))"
proof -
  obtain r g where r: "ending H lp (run_rr s) r" "synced r" "env r = env (run_rr s)" "undisturbed s" "exception_index s = - 1"
    "\<forall>f :: unit \<Rightarrow> 'a cpu_run \<Rightarrow> (turn, 'a) jump.
      bindR (replay_io_thread H M (other_threads C s)) (\<lambda>s.
      bindR (cache_interrupt_request H s) (\<lambda>(ireq, s). bindJ (service_interrupts C H M ireq s) f))
      = f () (s\<lparr>run_rr := r, env_exit_request := rr_end_replay_requested (run_rr s), env_interrupt_request := 0, guest := g\<rparr>)"
    by (rule turn_okE [OF assms(2,1)]) (rule that)
  let ?s = "s\<lparr>run_rr := r, env_exit_request := False, env_interrupt_request := 0, guest := g\<rparr>"
  have cb: "cbs r = cbs (run_rr s)" and at: "log_at_end H lp r" using r(1) by (simp_all add: ending_def)
  have u: "undisturbed ?s" using r(4) cb by (simp add: undisturbed_rr)
  let ?s1 = "?s\<lparr>run_plugins := (run_plugins ?s)\<lparr>plugin_cbs := cbs (run_rr ?s)\<rparr>\<rparr>"
  have u1: "undisturbed ?s1" using u by (simp only: undisturbed_update)
  have m: "rr_mode (run_rr ?s1) = RR_REPLAY" using at_end_mode [OF at] by simp
  obtain tb b f n h where
    fb: "find_block C ?s1 = Inr (Some tb, ?s1\<lparr>bb_invalidate_done := b, tb_invalidated_flag := f, next_tb := n, guest := h\<rparr>)"
    by (rule find_block_plain [OF assms(1) u1 m])
  let ?t = "?s1\<lparr>bb_invalidate_done := b, tb_invalidated_flag := f, next_tb := n, guest := h\<rparr>"
  have fin: "(if rr_mode (run_rr ?t) = RR_REPLAY then rr_replay_finished (run_rr ?t) else Inr False)
      = Inr (guest_instr_count lp \<le> rr_guest_instr_count (env r))"
    using m at_end_finished [OF at] r(2) by (simp add: synced_def)
  have ut: "undisturbed ?t" using u1 by (simp only: undisturbed_update)
  have it: "inner_turn C H M s =
      (if guest_instr_count lp \<le> rr_guest_instr_count (env r)
       then Inr (Some Break_inner, ?t\<lparr>run_rr := r\<lparr>rr_end_replay_requested := True\<rparr>\<rparr>)
       else bindR (replay_watchdog ?t) (\<lambda>s. bindJ (run_block C tb s) (\<lambda>_ s. Inr (Some Again, s))))"
  proof -
    have "inner_turn C H M s = (if env_exit_request ?s then
        cpu_loop_exit (?s\<lparr>env_exit_request := False, exception_index := EXCP_INTERRUPT\<rparr>)
      else
       bindR (serve_plugins C ?s) (\<lambda>s.
       bindJ (find_block C s) (\<lambda>tb s.
       bindR (if rr_mode (run_rr s) = RR_REPLAY then rr_replay_finished (run_rr s) else Inr False) (\<lambda>finished.
       if finished then
         Inr (Some Break_inner, s\<lparr>run_rr := (run_rr s)\<lparr>rr_end_replay_requested := True\<rparr>\<rparr>)
       else
         bindR (replay_watchdog s) (\<lambda>s.
         bindJ (run_block C tb s) (\<lambda>_ s. Inr (Some Again, s)))))))"
      unfolding inner_turn_def r(6) [rule_format] using assms(3) by simp
    also have "env_exit_request ?s = False" by simp
    finally show ?thesis
      unfolding if_False serve_plugins_undisturbed [OF u] bindR_simps fb bindJ_simps fin by simp
  qed
  show ?thesis by (rule that [OF r(1-3) _ ut _ _ _ _ it]) (use r(5) in simp_all)
qed


lemma turn_okI:
  assumes "ending H lp r0 (run_rr s)" and "undisturbed s" and "exception_index s = - 1" and "\<not> env_exit_request s"
    and "rr_guest_instr_count (env (run_rr s)) \<le> guest_instr_count lp"
    and "rr_loop_tries s = 20 \<or> guest_instr_count (saved_prog_point s) \<noteq> rr_guest_instr_count (env (run_rr s))"
  shows "turn_ok H M lp s"
  unfolding turn_ok_def using ending_turn(1) [OF assms(1)] ending_turn(2) [OF assms(1), of M] assms(2-6) by (intro conjI)

text \<open>At the recorded end the replay is found to be finished.\<close>

lemma turn_last:
  assumes "plain_code C" and "turn_ok H M lp s" and "\<not> rr_end_replay_requested (run_rr s)"
    and "instrs_left lp (run_rr s) = 0"
  obtains s' where "inner_turn C H M s = Inr (Some Break_inner, s')" and "turn_ok H M lp s'"
    and "rr_end_replay_requested (run_rr s')" and "effects (run_rr s') = effects (run_rr s)"
    and "cbs (run_rr s') = cbs (run_rr s)" and "ending H lp (run_rr s') (run_rr s')"
proof -
  obtain r tb t where t: "ending H lp (run_rr s) r" "synced r" "env r = env (run_rr s)"
    "run_rr t = r" "undisturbed t" "exception_index t = - 1" "env_exit_request t = False"
    "rr_loop_tries t = rr_loop_tries s" "saved_prog_point t = saved_prog_point s"
    "inner_turn C H M s =
      (if guest_instr_count lp \<le> rr_guest_instr_count (env r)
       then Inr (Some Break_inner, t\<lparr>run_rr := r\<lparr>rr_end_replay_requested := True\<rparr>\<rparr>)
       else bindR (replay_watchdog t) (\<lambda>s. bindJ (run_block C tb s) (\<lambda>_ s. Inr (Some Again, s))))"
    by (rule turn_to_block [OF assms(1-3)])
  let ?s = "t\<lparr>run_rr := r\<lparr>rr_end_replay_requested := True\<rparr>\<rparr>"
  have le: "rr_guest_instr_count (env (run_rr s)) \<le> guest_instr_count lp" and
    tr: "rr_loop_tries s = 20 \<or> guest_instr_count (saved_prog_point s) \<noteq> rr_guest_instr_count (env (run_rr s))"
    using assms(2) by (auto simp: turn_ok_def)
  have "guest_instr_count lp \<le> rr_guest_instr_count (env r)"
    using assms(4) t(3) by (simp add: instrs_left_def word_le_nat_alt)
  then have i: "inner_turn C H M s = Inr (Some Break_inner, ?s)" using t(10) by simp
  have e: "ending H lp (r\<lparr>rr_end_replay_requested := True\<rparr>) (run_rr ?s)" using t(1) by (simp add: ending_def)
  have u: "undisturbed ?s" using t(4,5) by (simp add: undisturbed_rr)
  have "turn_ok H M lp ?s" by (rule turn_okI [OF e u]) (use t(3,6-9) le tr in simp_all)
  then show ?thesis using i by (intro that [of ?s]) (use t(1) in \<open>simp_all add: ending_def\<close>)
qed

text \<open>Before it, a block is executed and the end comes nearer.\<close>

lemma watchdog_passes:
  assumes "rr_mode (run_rr t) = RR_REPLAY"
    and "rr_loop_tries t = 20 \<or> guest_instr_count (saved_prog_point t) \<noteq> guest_instr_count (rr_prog_point (run_rr t))"
  shows "\<exists>k. replay_watchdog t = Inr (t\<lparr>rr_loop_tries := k, saved_prog_point := rr_prog_point (run_rr t)\<rparr>)"
proof (cases "rr_prog_point (run_rr t) = saved_prog_point t")
  case True
  then have "rr_loop_tries t = 20" using assms(2) by simp
  moreover have "t\<lparr>rr_loop_tries := 19\<rparr> = t\<lparr>rr_loop_tries := 19, saved_prog_point := saved_prog_point t\<rparr>" by (cases t) simp
  ultimately show ?thesis using True assms(1) by (intro exI [of _ 19]) (simp add: replay_watchdog_def)
next
  case False
  then show ?thesis using assms(1) by (intro exI [of _ 20]) (simp add: replay_watchdog_def)
qed

lemma add_within:
  fixes a k n l :: u64
  assumes "a + n = l" and "a \<le> l" and "k \<le> n" and "k \<noteq> 0"
  shows "a + k \<le> l" and "unat l - unat (a + k) < unat l - unat a" and "a + k \<noteq> a"
proof -
  have n: "n = l - a" using assms(1) by auto
  then have un: "unat n = unat l - unat a" using assms(2) by (simp add: unat_sub)
  have k: "unat k \<le> unat n" "0 < unat k" using assms(3,4) by (simp_all add: word_le_nat_alt unat_gt_0)
  have al: "unat a \<le> unat l" using assms(2) by (simp add: word_le_nat_alt)
  have "unat l < 2 ^ LENGTH(64)" by (rule unsigned_less)
  then have "unat a + unat k < 2 ^ LENGTH(64)" using un k(1) al by linarith
  then have s: "unat (a + k) = unat a + unat k" by (rule iffD1 [OF unat_add_lem])
  show "a + k \<le> l" unfolding word_le_nat_alt s using un k al by linarith
  show "unat l - unat (a + k) < unat l - unat a" unfolding s using un k al by linarith
  show "a + k \<noteq> a" using assms(4) by simp
qed

lemma run_block_plain:
  assumes "plain_code C" and "undisturbed t" and "ending H lp r0 (run_rr t)" and "synced (run_rr t)"
    and "env_exit_request t = False" and "rr_guest_instr_count (env (run_rr t)) < guest_instr_count lp"
  obtains cpu g nx b where
    "run_block C tb t = Inr (Some (), t\<lparr>run_rr := (rr_set_program_point (run_rr t))\<lparr>env := cpu\<rparr>,
       bb_invalidate_done := b, guest := g, next_tb := nx\<rparr>)"
    and "rr_guest_instr_count cpu \<le> guest_instr_count lp"
    and "rr_guest_instr_count cpu \<noteq> rr_guest_instr_count (env (run_rr t))"
    and "unat (guest_instr_count lp) - unat (rr_guest_instr_count cpu) < instrs_left lp (run_rr t)"
proof -
  let ?r = "rr_set_program_point (run_rr t)" and ?c = "rr_guest_instr_count (env (run_rr t))"
  have e: "ending H lp r0 ?r" "synced ?r" using ending_set_program_point [OF assms(3)] by simp_all
  have "guest_instr_count (rr_prog_point ?r) = ?c" using assms(3) by (simp add: ending_def)
  then have sum: "?c + rr_num_instr_before_next_interrupt ?r = guest_instr_count lp"
    "?c + rr_num_instr_before_next_interrupt (run_rr t) = guest_instr_count lp"
    using e(1) assms(3,4) unfolding ending_def due_def synced_def by auto
  then have num: "rr_num_instr_before_next_interrupt ?r \<noteq> 0" "rr_num_instr_before_next_interrupt (run_rr t) > 0"
    using assms(6) by (auto simp: word_gt_0)
  let ?s = "t\<lparr>run_rr := ?r, bb_invalidate_done := False\<rparr>"
  have "rr_num_instr_before_next_interrupt (run_rr ?s) \<noteq> 0" using num(1) by simp
  with assms(1) obtain k cpu g nx where
    k: "k \<noteq> 0" "k \<le> rr_num_instr_before_next_interrupt (run_rr ?s)"
      "rr_guest_instr_count cpu = rr_guest_instr_count (env (run_rr ?s)) + k" "nx AND 3 \<noteq> 2"
      "tcg_qemu_tb_exec C tb ?s = Inr (Some nx, ?s\<lparr>run_rr := (run_rr ?s)\<lparr>env := cpu\<rparr>, guest := g\<rparr>)"
    unfolding plain_code_def by blast
  have cb: "cbs ?r = cbs (run_rr t)" by simp
  have none: "callbacks_of C PANDA_CB_BEFORE_BLOCK_EXEC tb ?s = Inr (False, ?s)"
    "callbacks_of C PANDA_CB_AFTER_BLOCK_EXEC tb (?s\<lparr>run_rr := ?r\<lparr>env := cpu\<rparr>, guest := g, next_tb := nx\<rparr>)
       = Inr (False, ?s\<lparr>run_rr := ?r\<lparr>env := cpu\<rparr>, guest := g, next_tb := nx\<rparr>)"
    using assms(2) by (simp_all add: callbacks_of_def undisturbed_def)
  have "run_block C tb t = Inr (Some (), t\<lparr>run_rr := ?r\<lparr>env := cpu\<rparr>, bb_invalidate_done := False, guest := g, next_tb := nx\<rparr>)"
    using num(2) assms(5) k(4) none by (simp add: run_block_def k(5))
  moreover have "?c \<le> guest_instr_count lp" using assms(6) by simp
  note w = add_within [OF sum(1) this _ k(1)]
  have "k \<le> rr_num_instr_before_next_interrupt ?r" using k(2) by simp
  ultimately show ?thesis
    using w k(3) by (intro that [where cpu = cpu and b = False and g = g and nx = nx]) (simp_all add: instrs_left_def)
qed

lemma turn_again:
  assumes "plain_code C" and "turn_ok H M lp s" and "\<not> rr_end_replay_requested (run_rr s)"
    and "instrs_left lp (run_rr s) \<noteq> 0"
  obtains s' where "inner_turn C H M s = Inr (Some Again, s')" and "turn_ok H M lp s'"
    and "\<not> rr_end_replay_requested (run_rr s')" and "effects (run_rr s') = effects (run_rr s)"
    and "cbs (run_rr s') = cbs (run_rr s)" and "instrs_left lp (run_rr s') < instrs_left lp (run_rr s)"
proof -
  obtain r tb t where t: "ending H lp (run_rr s) r" "synced r" "env r = env (run_rr s)"
    "run_rr t = r" "undisturbed t" "exception_index t = - 1" "env_exit_request t = False"
    "rr_loop_tries t = rr_loop_tries s" "saved_prog_point t = saved_prog_point s"
    "inner_turn C H M s =
      (if guest_instr_count lp \<le> rr_guest_instr_count (env r)
       then Inr (Some Break_inner, t\<lparr>run_rr := r\<lparr>rr_end_replay_requested := True\<rparr>\<rparr>)
       else bindR (replay_watchdog t) (\<lambda>s. bindJ (run_block C tb s) (\<lambda>_ s. Inr (Some Again, s))))"
    by (rule turn_to_block [OF assms(1-3)])
  have lt: "rr_guest_instr_count (env r) < guest_instr_count lp"
    using assms(4) t(3) by (simp add: instrs_left_def word_less_nat_alt)
  have "rr_mode (run_rr t) = RR_REPLAY" using t(1,4) at_end_mode by (auto simp: ending_def)
  moreover have "rr_loop_tries t = 20 \<or> guest_instr_count (saved_prog_point t) \<noteq> guest_instr_count (rr_prog_point (run_rr t))"
    using assms(2) t(2-4,8,9) by (auto simp: turn_ok_def synced_def)
  ultimately obtain k where w: "replay_watchdog t = Inr (t\<lparr>rr_loop_tries := k, saved_prog_point := rr_prog_point (run_rr t)\<rparr>)"
    using watchdog_passes by blast
  let ?t = "t\<lparr>rr_loop_tries := k, saved_prog_point := rr_prog_point (run_rr t)\<rparr>"
  have ut: "undisturbed ?t" "ending H lp (run_rr s) (run_rr ?t)" "synced (run_rr ?t)" "env_exit_request ?t = False"
    "rr_guest_instr_count (env (run_rr ?t)) < guest_instr_count lp" using t lt by simp_all
  obtain cpu g nx b where rb: "run_block C tb ?t = Inr (Some (), ?t\<lparr>run_rr := (rr_set_program_point (run_rr ?t))\<lparr>env := cpu\<rparr>,
       bb_invalidate_done := b, guest := g, next_tb := nx\<rparr>)"
    "rr_guest_instr_count cpu \<le> guest_instr_count lp"
    "rr_guest_instr_count cpu \<noteq> rr_guest_instr_count (env (run_rr ?t))"
    "unat (guest_instr_count lp) - unat (rr_guest_instr_count cpu) < instrs_left lp (run_rr ?t)"
    by (rule run_block_plain [OF assms(1) ut])
  let ?s = "?t\<lparr>run_rr := (rr_set_program_point (run_rr ?t))\<lparr>env := cpu\<rparr>, bb_invalidate_done := b, guest := g, next_tb := nx\<rparr>"
  have i: "inner_turn C H M s = Inr (Some Again, ?s)"
    unfolding t(10) w bindR_simps rb(1) bindJ_simps using lt by simp
  have e: "ending H lp (run_rr s) (run_rr ?s)"
    using ending_set_program_point [OF ut(2)] by (simp add: ending_def)
  have u: "undisturbed ?s" using ut(1) by (simp add: undisturbed_rr)
  have "turn_ok H M lp ?s"
    by (rule turn_okI [OF e u]) (use t(2,4,6,7) rb(2,3) in \<open>simp_all add: synced_def\<close>)
  moreover have "\<not> rr_end_replay_requested (run_rr ?s)" "effects (run_rr ?s) = effects (run_rr s)"
    "cbs (run_rr ?s) = cbs (run_rr s)"
    using e assms(3) by (simp_all add: ending_def)
  moreover have "instrs_left lp (run_rr ?s) < instrs_left lp (run_rr s)"
    using rb(4) t(3,4) by (simp add: instrs_left_def)
  ultimately show ?thesis using i by (intro that [of ?s])
qed


section \<open>The loops end\<close>

lemma outer_enter:
  "exception_index s = - 1 \<Longrightarrow>
     outer_top C s = Inr (Some Enter, s\<lparr>run_rr := rr_set_program_point (run_rr s), next_tb := 0\<rparr>)"
  by (simp add: outer_top_def Let_def)

lemma outer_return:
  "exception_index s = EXCP_INTERRUPT \<Longrightarrow>
     outer_top C s = Inr (Some (Return EXCP_INTERRUPT), s\<lparr>run_rr := rr_set_program_point (run_rr s)\<rparr>)"
  by (simp add: outer_top_def Let_def)

text \<open>After the break: back into the inner loop, where the request of the other thread is seen.\<close>

lemma loop_kicked:
  assumes "plain_code C" and "turn_ok H M lp s" and "rr_end_replay_requested (run_rr s)"
    and "ending H lp (run_rr s) (run_rr s)"
  obtains s' where "\<forall>n. cpu_loop C H M (Suc (Suc (Suc n))) True s = Some (Inr (EXCP_INTERRUPT, s'))"
    and "ending H lp (run_rr s) (run_rr s')"
proof -
  have e: "exception_index s = - 1" "\<not> env_exit_request s" using assms(2) by (simp_all add: turn_ok_def)
  let ?s = "s\<lparr>run_rr := rr_set_program_point (run_rr s), next_tb := 0\<rparr>"
  have es: "ending H lp (run_rr s) (run_rr ?s)" using ending_set_program_point [OF assms(4)] by simp
  have u: "undisturbed ?s" using assms(2) by (simp add: turn_ok_def undisturbed_rr)
  have "turn_ok H M lp ?s"
    by (rule turn_okI [OF es u]) (use assms(2) in \<open>simp_all add: turn_ok_def\<close>)
  moreover have "rr_end_replay_requested (run_rr ?s)" using assms(3) by simp
  ultimately obtain t where t: "inner_turn C H M ?s = Inr (None, t)" "exception_index t = EXCP_INTERRUPT"
    "ending H lp (run_rr ?s) (run_rr t)" by (rule turn_requested [OF assms(1)])
  let ?t = "t\<lparr>run_rr := rr_set_program_point (run_rr t)\<rparr>"
  have "cpu_loop C H M (Suc (Suc (Suc n))) True s = Some (Inr (EXCP_INTERRUPT, ?t))" for n
    unfolding cpu_loop.simps(2) outer_enter [OF e(1)]
    by (simp add: t(1) outer_return [OF t(2)])
  moreover have "ending H lp (run_rr s) (run_rr ?t)"
    using ending_set_program_point [OF t(3)] by (simp add: ending_def)
  ultimately show ?thesis by (intro that [of ?t]) simp_all
qed

lemma loop_ends:
  assumes "plain_code C" and "turn_ok H M lp s" and "\<not> rr_end_replay_requested (run_rr s)"
  shows "\<exists>s'. (\<forall>n \<ge> instrs_left lp (run_rr s) + 4. cpu_loop C H M n False s = Some (Inr (EXCP_INTERRUPT, s')))
    \<and> log_at_end H lp (run_rr s') \<and> rr_end_replay_requested (run_rr s')
    \<and> cbs (run_rr s') = cbs (run_rr s) \<and> effects (run_rr s') = effects (run_rr s)"
  using assms(2,3)
proof (induction "instrs_left lp (run_rr s)" arbitrary: s rule: less_induct)
  case less
  show ?case
  proof (cases "instrs_left lp (run_rr s) = 0")
    case True
    obtain s1 where s1: "inner_turn C H M s = Inr (Some Break_inner, s1)" "turn_ok H M lp s1"
      "rr_end_replay_requested (run_rr s1)" "effects (run_rr s1) = effects (run_rr s)" "cbs (run_rr s1) = cbs (run_rr s)"
      "ending H lp (run_rr s1) (run_rr s1)"
      by (rule turn_last [OF assms(1) less.prems True])
    obtain s' where s': "\<forall>n. cpu_loop C H M (Suc (Suc (Suc n))) True s1 = Some (Inr (EXCP_INTERRUPT, s'))"
      "ending H lp (run_rr s1) (run_rr s')"
      by (rule loop_kicked [OF assms(1) s1(2,3,6)])
    have "cpu_loop C H M n False s = Some (Inr (EXCP_INTERRUPT, s'))" if "instrs_left lp (run_rr s) + 4 \<le> n" for n
    proof -
      have "n = Suc (Suc (Suc (Suc (n - 4))))" using that by simp
      then obtain m where "n = Suc (Suc (Suc (Suc m)))" by blast
      then show ?thesis using s'(1) by (simp add: s1(1))
    qed
    then show ?thesis using s'(2) s1(3-5) by (intro exI [of _ s']) (simp add: ending_def)
  next
    case False
    obtain s1 where s1: "inner_turn C H M s = Inr (Some Again, s1)" "turn_ok H M lp s1"
      "\<not> rr_end_replay_requested (run_rr s1)" "effects (run_rr s1) = effects (run_rr s)" "cbs (run_rr s1) = cbs (run_rr s)"
      "instrs_left lp (run_rr s1) < instrs_left lp (run_rr s)"
      by (rule turn_again [OF assms(1) less.prems False])
    from less.hyps [OF s1(6,2,3)] obtain s' where
      s': "\<forall>n \<ge> instrs_left lp (run_rr s1) + 4. cpu_loop C H M n False s1 = Some (Inr (EXCP_INTERRUPT, s'))"
        "log_at_end H lp (run_rr s')" "rr_end_replay_requested (run_rr s')" "cbs (run_rr s') = cbs (run_rr s1)"
        "effects (run_rr s') = effects (run_rr s1)" by blast
    have "cpu_loop C H M n False s = Some (Inr (EXCP_INTERRUPT, s'))" if "instrs_left lp (run_rr s) + 4 \<le> n" for n
    proof -
      from that obtain m where m: "n = Suc m" by (cases n) auto
      then have "instrs_left lp (run_rr s1) + 4 \<le> m" using that s1(6) by linarith
      then show ?thesis using s'(1) m by (simp add: s1(1))
    qed
    then show ?thesis using s'(2-5) s1(4,5) by (intro exI [of _ s']) simp
  qed
qed

text \<open>Entering the loop with the log used up but for its last entry.\<close>

lemma first_turn_ok:
  assumes "replaying H (run_rr s) qs ls" and "qs @ ls = [last_entry lp]" and "qs \<noteq> [] \<longrightarrow> due lp (run_rr s)"
    and "cpu_single_env_set (run_rr s)" and "undisturbed s" and "exception_index s = - 1" and "\<not> env_exit_request s"
    and "rr_guest_instr_count (env (run_rr s)) \<le> guest_instr_count lp" and "rr_loop_tries s = 20"
  shows "turn_ok H M lp s"
proof -
  let ?r = "rr_set_program_point ((run_rr s)\<lparr>rr_skipped_callsite_location := RR_CALLSITE_MAIN_LOOP_WAIT\<rparr>)"
  have "replaying H ?r qs ls" using assms(1) by (simp add: replaying_def)
  moreover have "qs \<noteq> [] \<longrightarrow> due lp ?r" using assms(3) by simp
  ultimately obtain r where r: "rr_replay_skipped_calls H M ?r = Inr r" "log_at_end H lp r" "due lp r" "fills ?r r"
    by (rule first_skipped_calls [OF _ assms(2)])
  have "ending H lp (run_rr s) r" "env r = env (run_rr s)"
    using r(2-4) assms(4) by (simp_all add: ending_def fills_def)
  moreover have "rr_in_replay (run_rr s)" using assms(1) by (simp add: replaying_def rr_in_replay_def)
  ultimately show ?thesis unfolding turn_ok_def using r(1) assms(5-9) by blast
qed

lemma end_replay_completed:
  assumes "log_at_end H lp r" and "cbs_inv (cbs r)" and "rr_end_replay_requested r"
  obtains r' where "do_end_replay_request r = Inr r'" and "rr_mode r' = RR_OFF"
    and "effects r' = effects r @ [Init_timer_alarm, Replay_message ''Replay completed successfully 2.'', Vm_stop]"
proof -
  let ?r = "emit [Init_timer_alarm] r"
  have ok: "replay_ok ?r"
    using assms(1,2) by (auto simp: replay_ok_def log_at_end_def replaying_def log_holds_def)
  have "map kind (q_entries (rr_queue ?r)) = [RR_LAST]"
    using assms(1) by (auto simp: log_at_end_def replaying_def last_entry_def)
  note last = this
  obtain r1 where r1: "rr_do_end_replay False ?r = Inr r1" "rr_mode r1 = RR_OFF"
    "effects r1 = effects ?r @ [Replay_message ''Replay completed successfully 2.'']"
    by (rule rr_do_end_replay_ok [OF ok]) (rule that, simp_all only: last, simp)
  have "do_end_replay_request r = Inr (emit [Vm_stop] (r1\<lparr>rr_end_replay_requested := False\<rparr>))"
    using assms(3) at_end_mode [OF assms(1)] r1(1) by (simp add: do_end_replay_request_def rr_in_replay_def)
  then show ?thesis by (rule that) (use r1(2,3) in \<open>simp_all\<close>)
qed


text \<open>From the call of \<^verbatim>\<open>cpu_exec\<close> to the top of the inner loop.\<close>

lemma flush_plain:
  assumes "plain_code C"
  obtains b g f where "(if rr_flush_tb (run_rr s)
      then let s = tb_flush C s in s\<lparr>tb_invalidated_flag := True, run_rr := rr_flush_tb_off (run_rr s)\<rparr> else s)
      = s\<lparr>run_rr := (run_rr s)\<lparr>rr_please_flush_tb := b\<rparr>, guest := g, tb_invalidated_flag := f\<rparr>"
proof (cases "rr_flush_tb (run_rr s)")
  case True
  obtain g where "tb_flush C s = s\<lparr>guest := g\<rparr>" using assms unfolding plain_code_def by blast
  with True show ?thesis
    by (intro that [where b = False and g = g and f = True]) (simp add: rr_flush_tb_off_def)
next
  case False
  then show ?thesis
    by (intro that [where b = "rr_please_flush_tb (run_rr s)" and g = "guest s" and f = "tb_invalidated_flag s"]) simp
qed

definition leave :: "'m cpu_code \<Rightarrow> rr_exit + (int \<times> 'm cpu_run) \<Rightarrow> rr_exit + (int \<times> 'm cpu_run)" where
  "leave C r = bindR r (\<lambda>(ret, s). let s = store_cc C s in
     Inr (ret, s\<lparr>run_rr := (run_rr s)\<lparr>cpu_single_env_set := False\<rparr>\<rparr>))"

lemma cpu_exec_enters:
  assumes "plain_code C" and "rr_in_replay (run_rr s)" and "\<not> env_exit_request s" and "\<not> global_exit_request s"
  obtains b t where "run_rr t = rr_set_program_point ((run_rr s)\<lparr>rr_please_flush_tb := b, cpu_single_env_set := True\<rparr>)"
    and "exception_index t = - 1" and "\<not> env_exit_request t" and "rr_loop_tries t = 20"
    and "run_plugins t = run_plugins s"
    and "\<forall>n. cpu_exec C H M (Suc n) s = map_option (leave C) (cpu_loop C H M n False t)"
proof -
  let ?s0 = "s\<lparr>saved_prog_point := rr_prog_point (run_rr s), rr_loop_tries := 20\<rparr>"
  obtain b g f where s1: "(if rr_flush_tb (run_rr ?s0)
      then let s = tb_flush C ?s0 in s\<lparr>tb_invalidated_flag := True, run_rr := rr_flush_tb_off (run_rr s)\<rparr> else ?s0)
      = ?s0\<lparr>run_rr := (run_rr ?s0)\<lparr>rr_please_flush_tb := b\<rparr>, guest := g, tb_invalidated_flag := f\<rparr>" (is "_ = ?s1")
    by (rule flush_plain [OF assms(1)])
  let ?e = "?s1\<lparr>halted := False, run_rr := (run_rr ?s1)\<lparr>cpu_single_env_set := True\<rparr>, env_exit_request := False\<rparr>"
  obtain h k where "load_cc C ?e = ?e\<lparr>eflags := k, guest := h\<rparr>" using assms(1) unfolding plain_code_def by blast
  then have enter: "cpu_exec_enter C ?s1 = ?e\<lparr>eflags := k, guest := h, exception_index := - 1\<rparr>" (is "_ = ?s2")
    using assms(3,4) by (simp add: cpu_exec_enter_def)
  let ?t = "?s2\<lparr>run_rr := rr_set_program_point (run_rr ?s2), next_tb := 0\<rparr>"
  have go: "(halted ?s1 \<and> \<not> rr_in_replay (run_rr ?s1) \<and> \<not> cpu_has_work ?s1) = False"
    using assms(2) by (simp add: rr_in_replay_def)
  have "exception_index ?s2 = - 1" by simp
  then have "cpu_loop C H M (Suc n) True ?s2 = cpu_loop C H M n False ?t" for n
    unfolding cpu_loop.simps(2) by (simp only: outer_enter) simp
  then have "\<forall>n. cpu_exec C H M (Suc n) s = map_option (leave C) (cpu_loop C H M n False ?t)"
    unfolding cpu_exec_def s1 Let_def [of ?s1] Let_def [of ?s0] go if_False enter leave_def by simp
  then show ?thesis by (intro that [of ?t b]) simp_all
qed

section \<open>Properties\<close>


text \<open>A guest that executes one instruction in every block.\<close>

definition example_code :: "unit cpu_code" where
  "example_code = \<lparr>
     other_threads = \<lambda>s. s\<lparr>env_exit_request := (env_exit_request s \<or> rr_end_replay_requested (run_rr s))\<rparr>,
     load_cc = \<lambda>s. s, store_cc = \<lambda>s. s, do_interrupt = \<lambda>s. Inr (Some (), s), cpu_handle_debug_exception = \<lambda>s. s,
     svm_check_intercept = \<lambda>_ s. Inr (Some (), s), do_cpu_init = \<lambda>s. Inr (Some (), s),
     do_cpu_sipi = \<lambda>s. Inr (Some (), s), do_smm_enter = \<lambda>s. Inr (Some (), s),
     do_interrupt_x86_hardirq = \<lambda>_ _ s. Inr (Some (), s), cpu_get_pic_interrupt = \<lambda>m r. Inr ((0, m), r),
     vmcb_int_vector = \<lambda>s. 0,
     tb_find_fast = \<lambda>s. Inr (Some \<lparr>tb_pc = eip (env (run_rr s)), num_guest_insns = 1, page_addr_1 = - 1\<rparr>, s),
     invalidate_single_tb = \<lambda>_ s. s, tb_flush = \<lambda>s. s, tb_add_jump = \<lambda>_ s. s,
     callback_code = \<lambda>_ _ _ s. Inr (False, s),
     tcg_qemu_tb_exec = \<lambda>tb s. Inr (Some 0, s\<lparr>run_rr := (run_rr s)\<lparr>env := (env (run_rr s))
       \<lparr>eip := eip (env (run_rr s)) + 4, rr_guest_instr_count := rr_guest_instr_count (env (run_rr s)) + 1\<rparr>\<rparr>\<rparr>),
     cpu_pc_from_tb = \<lambda>_ s. s, cpu_exec_nocache = \<lambda>_ _ s. Inr (Some (), s), plugin_code = example_lib (\<lambda>h. 0)\<rparr>"

definition example_run :: "rr_state \<Rightarrow> unit cpu_run" where
  "example_run r = \<lparr>run_rr = r, run_plugins = init_plugins, exception_index = 0, env_interrupt_request = 0,
     env_exit_request = False, global_exit_request = False, halted = False, singlestep_enabled = 0, hflags = 0,
     hflags2 = 0, eflags = 0, icount_extra = 0, icount_decr = 0, next_tb = 0, tb_invalidated_flag = False,
     bb_invalidate_done = False, saved_prog_point = zero_prog_point, rr_loop_tries = 0, guest = ()\<rparr>"

lemma same_run: "\<exists>g. s = s\<lparr>guest := g\<rparr>" "\<exists>g f. s = s\<lparr>eflags := f, guest := g\<rparr>"
    "\<exists>g i. s\<lparr>env_exit_request := b\<rparr> = s\<lparr>env_exit_request := b, env_interrupt_request := i, guest := g\<rparr>"
    "\<exists>g. Inr (Some tb, s) = Inr (Some tb, s\<lparr>guest := g\<rparr>)"
  by (cases s, auto)+

lemma example_runs_one:
  assumes "rr_num_instr_before_next_interrupt (run_rr s) \<noteq> 0"
  shows "\<exists>k cpu g nx. k \<noteq> 0 \<and> k \<le> rr_num_instr_before_next_interrupt (run_rr s)
    \<and> rr_guest_instr_count cpu = rr_guest_instr_count (env (run_rr s)) + k \<and> nx AND 3 \<noteq> 2
    \<and> tcg_qemu_tb_exec example_code tb s = Inr (Some nx, s\<lparr>run_rr := (run_rr s)\<lparr>env := cpu\<rparr>, guest := g\<rparr>)"
proof -
  have "1 \<le> rr_num_instr_before_next_interrupt (run_rr s)"
    using assms by (simp add: word_le_nat_alt Suc_le_eq unat_gt_0)
  moreover have "tcg_qemu_tb_exec example_code tb s = Inr (Some 0, s\<lparr>run_rr := (run_rr s)\<lparr>env := (env (run_rr s))
      \<lparr>eip := eip (env (run_rr s)) + 4, rr_guest_instr_count := rr_guest_instr_count (env (run_rr s)) + 1\<rparr>\<rparr>, guest := ()\<rparr>)"
    by (cases s) (simp add: example_code_def)
  ultimately show ?thesis
    by - (rule exI [of _ 1], rule exI [of _ "(env (run_rr s))\<lparr>eip := eip (env (run_rr s)) + 4,
        rr_guest_instr_count := rr_guest_instr_count (env (run_rr s)) + 1\<rparr>"], rule exI [of _ "()"], rule exI [of _ 0],
      intro conjI, simp, assumption, simp, simp, assumption)
qed

lemma example_plain: "plain_code example_code"
proof -
  have sel: "other_threads example_code s
      = s\<lparr>env_exit_request := (env_exit_request s \<or> rr_end_replay_requested (run_rr s))\<rparr>"
    "tb_find_fast example_code s = Inr (Some \<lparr>tb_pc = eip (env (run_rr s)), num_guest_insns = 1, page_addr_1 = - 1\<rparr>, s)"
    "invalidate_single_tb example_code a s = s" "load_cc example_code s = s" "store_cc example_code s = s"
    "tb_flush example_code s = s" for s a
    by (simp_all add: example_code_def)
  show ?thesis
    unfolding plain_code_def sel
    by (intro conjI allI impI example_runs_one same_run) (rule exI, rule same_run)
qed

lemma example_undisturbed: "undisturbed (example_run (opened es))"
  by (simp add: undisturbed_def example_run_def run_callbacks_def init_cbs_def init_plugins_def)


end
