(* ===== verification/RR_Watchdog.thy ===== *)
theory RR_Watchdog
  imports RR_Cpu_Loop
begin

text \<open>
  A replay that makes no progress. The guest has come to the instruction of the next interrupt,
  but an input that was recorded before it has not been asked for; no more blocks are executed,
  and the check in \<^verbatim>\<open>cpu_exec\<close> (\<^verbatim>\<open>qemu/cpu-exec.c\<close>) ends the replay with an error.
\<close>

section \<open>A queue nothing is taken from\<close>

definition stuck :: "host \<Rightarrow> rr_state \<Rightarrow> bool" where
  "stuck H r \<longleftrightarrow> cpu_single_env_set r
     \<and> (\<exists>e qs ls. replaying H r (e # qs) ls \<and> kind e \<notin> {RR_INTERRUPT_REQUEST, RR_SKIPPED_CALL, RR_LAST})
     \<and> rr_num_instr_before_next_interrupt r = rr_guest_instr_count (env r) - guest_instr_count (rr_prog_point r)"

lemma stuck_head:
  assumes "stuck H r"
  obtains e where "queue_head_entry (rr_queue r) = Inr e" and "rr_queue_head (rr_queue r) \<noteq> None"
    and "kind e \<notin> {RR_INTERRUPT_REQUEST, RR_SKIPPED_CALL, RR_LAST}"
proof -
  from assms obtain e qs ls where e: "replaying H r (e # qs) ls" "kind e \<notin> {RR_INTERRUPT_REQUEST, RR_SKIPPED_CALL, RR_LAST}"
    unfolding stuck_def by blast
  obtain k where k: "queue_head_entry (rr_queue r) = Inr (replayed_entry H k e)"
    by (rule replaying_pop [OF e(1)]) (rule that)
  have "rr_queue_head (rr_queue r) \<noteq> None" using replaying_head [OF e(1)] by simp
  with k e(2) show ?thesis by (intro that [of "replayed_entry H k e"]) simp_all
qed

lemma stuck_mode: "stuck H r \<Longrightarrow> rr_mode r = RR_REPLAY"
  by (auto simp: stuck_def replaying_def)

lemma stuck_no_entry:
  assumes "stuck H r" and "kd = RR_INTERRUPT_REQUEST \<or> kd = RR_SKIPPED_CALL"
  shows "get_next_entry H kd cs chk r = Inr (None, r)"
proof -
  obtain e where e: "queue_head_entry (rr_queue r) = Inr e" "rr_queue_head (rr_queue r) \<noteq> None"
    "kind e \<notin> {RR_INTERRUPT_REQUEST, RR_SKIPPED_CALL, RR_LAST}"
    by (rule stuck_head [OF assms(1)])
  have "(kd \<noteq> RR_INTERRUPT_REQUEST \<and> kd \<noteq> RR_SKIPPED_CALL) = False" "(kind e \<noteq> kd) = True"
    "(rr_queue_head (rr_queue r) = None) = False" using assms(2) e(2,3) by auto
  moreover have "r\<lparr>rr_queue := rr_queue r\<rparr> = r" by simp
  ultimately show ?thesis unfolding get_next_entry_def Let_def by (simp only: if_False if_True bindR_simps e(1))
qed

lemma stuck_skipped_calls: "stuck H r \<Longrightarrow> rr_replay_skipped_calls H M r = Inr r"
  by (simp add: rr_replay_skipped_calls_def rr_replay_skipped_calls_internal_def stuck_no_entry)

lemma stuck_interrupt_request: "stuck H r \<Longrightarrow> rr_interrupt_request H v r = Inr (0, r)"
  by (simp add: rr_interrupt_request_def stuck_mode rr_replay_interrupt_request_def stuck_no_entry)

lemma stuck_not_finished:
  assumes "stuck H r"
  shows "rr_replay_finished r = Inr False"
proof -
  obtain e where "queue_head_entry (rr_queue r) = Inr e" "kind e \<noteq> RR_LAST"
    by (rule stuck_head [OF assms]) auto
  moreover from assms obtain l where "rr_nondet_log r = Some l" by (auto simp: stuck_def replaying_def)
  ultimately show ?thesis by (simp add: rr_replay_finished_def the_log_def)
qed

lemma failed_replay_aborts:
  assumes "rr_do_end_replay False s = Inr s'"
  shows "rr_do_end_replay True s = Inl Replay_abort"
  using assms by (auto simp: rr_do_end_replay_def rr_destroy_log_def the_log_def bindR_def
      split: sum.splits option.splits if_splits)

lemma stuck_abort:
  assumes "stuck H r" and "cbs_inv (cbs r)"
  shows "rr_do_end_replay True r = Inl Replay_abort"
proof -
  have "replay_ok r" using assms by (auto simp: replay_ok_def stuck_def replaying_def log_holds_def)
  then obtain r' where "rr_do_end_replay False r = Inr r'" by (rule rr_do_end_replay_ok)
  then show ?thesis by (rule failed_replay_aborts)
qed

lemma stuck_callsite [simp]: "stuck H (r\<lparr>rr_skipped_callsite_location := c\<rparr>) = stuck H r"
  by (simp add: stuck_def)

lemma set_program_point_twice [simp]: "rr_set_program_point (rr_set_program_point r) = rr_set_program_point r"
  by (simp add: rr_set_program_point_def rr_set_prog_point_def)

lemma set_program_point_callsite [simp]:
  "rr_set_program_point (r\<lparr>rr_skipped_callsite_location := c\<rparr>) = (rr_set_program_point r)\<lparr>rr_skipped_callsite_location := c\<rparr>"
  by (simp add: rr_set_program_point_def rr_set_prog_point_def)

lemma stuck_set_program_point: 
  assumes "stuck H r"
  shows "stuck H (rr_set_program_point r)" and "rr_num_instr_before_next_interrupt (rr_set_program_point r) = 0"
  using assms by (auto simp: stuck_def rr_set_program_point_def rr_set_prog_point_def)

section \<open>A turn of the loop\<close>

lemma stuck_turn_prologue:
  assumes "plain_code C" and "stuck H (run_rr s)" and "\<not> env_exit_request s" and "\<not> rr_end_replay_requested (run_rr s)"
  obtains g where "\<forall>f :: unit \<Rightarrow> 'm cpu_run \<Rightarrow> ('b, 'm) jump.
    bindR (replay_io_thread H M (other_threads C s)) (\<lambda>s.
      bindR (cache_interrupt_request H s) (\<lambda>(ireq, s). bindJ (service_interrupts C H M ireq s) f))
    = f () (s\<lparr>run_rr := (rr_set_program_point (run_rr s))\<lparr>rr_skipped_callsite_location := RR_CALLSITE_CPU_EXEC_1\<rparr>,
        env_exit_request := False, env_interrupt_request := 0, guest := g\<rparr>)"
proof -
  from assms(1) obtain g i where o: "other_threads C s =
      s\<lparr>env_exit_request := (env_exit_request s \<or> rr_end_replay_requested (run_rr s)), env_interrupt_request := i, guest := g\<rparr>"
    unfolding plain_code_def by blast
  let ?r = "rr_set_program_point (run_rr s)"
  have st: "stuck H (?r\<lparr>rr_skipped_callsite_location := c\<rparr>)" for c
    using stuck_set_program_point(1) [OF assms(2)] by simp
  have "rr_in_replay (run_rr s)" using stuck_mode [OF assms(2)] by (simp add: rr_in_replay_def)
  then have io: "replay_io_thread H M (other_threads C s)
      = Inr (s\<lparr>run_rr := ?r\<lparr>rr_skipped_callsite_location := RR_CALLSITE_MAIN_LOOP_WAIT\<rparr>,
        env_exit_request := False, env_interrupt_request := i, guest := g\<rparr>)"
    using assms(3,4) stuck_skipped_calls [OF st]
    by (simp add: o replay_io_thread_def at_rr_def)
  have ci: "cache_interrupt_request H (s\<lparr>run_rr := ?r\<lparr>rr_skipped_callsite_location := RR_CALLSITE_MAIN_LOOP_WAIT\<rparr>,
        env_exit_request := False, env_interrupt_request := i, guest := g\<rparr>)
      = Inr (0, s\<lparr>run_rr := ?r\<lparr>rr_skipped_callsite_location := RR_CALLSITE_CPU_EXEC_1\<rparr>,
        env_exit_request := False, env_interrupt_request := 0, guest := g\<rparr>)"
    using stuck_interrupt_request [OF st] stuck_mode [OF st]
    by (simp add: cache_interrupt_request_def rr_in_replay_def)
  show ?thesis by (rule that [where g = g]) (simp add: io ci service_interrupts_def)
qed

definition stuck_run :: "host \<Rightarrow> 'm cpu_run \<Rightarrow> bool" where
  "stuck_run H s \<longleftrightarrow> stuck H (run_rr s) \<and> cbs_inv (cbs (run_rr s)) \<and> undisturbed s \<and> \<not> env_exit_request s
     \<and> \<not> rr_end_replay_requested (run_rr s)"

lemma stuck_run_update [simp]:
  "stuck_run H (s\<lparr>saved_prog_point := p\<rparr>) = stuck_run H s" "stuck_run H (s\<lparr>rr_loop_tries := t\<rparr>) = stuck_run H s"
  by (simp_all add: stuck_run_def)

text \<open>A turn executes nothing and only counts the attempt.\<close>

lemma stuck_turn:
  assumes "plain_code C" and "stuck_run H s"
  obtains t where "stuck_run H t"
    and "run_rr t = (rr_set_program_point (run_rr s))\<lparr>rr_skipped_callsite_location := RR_CALLSITE_CPU_EXEC_1\<rparr>"
    and "rr_loop_tries t = rr_loop_tries s" and "saved_prog_point t = saved_prog_point s"
    and "inner_turn C H M s = bindR (replay_watchdog t) (\<lambda>s. Inr (Some Again, s))"
proof -
  from assms(2) have st: "stuck H (run_rr s)" "cbs_inv (cbs (run_rr s))" "undisturbed s" "\<not> env_exit_request s"
    "\<not> rr_end_replay_requested (run_rr s)" by (simp_all add: stuck_run_def)
  let ?r = "(rr_set_program_point (run_rr s))\<lparr>rr_skipped_callsite_location := RR_CALLSITE_CPU_EXEC_1\<rparr>"
  obtain g where pro: "\<forall>f :: unit \<Rightarrow> 'a cpu_run \<Rightarrow> (turn, 'a) jump.
    bindR (replay_io_thread H M (other_threads C s)) (\<lambda>s.
      bindR (cache_interrupt_request H s) (\<lambda>(ireq, s). bindJ (service_interrupts C H M ireq s) f))
    = f () (s\<lparr>run_rr := ?r, env_exit_request := False, env_interrupt_request := 0, guest := g\<rparr>)"
    by (rule stuck_turn_prologue [OF assms(1) st(1,4,5)])
  let ?s = "s\<lparr>run_rr := ?r, env_exit_request := False, env_interrupt_request := 0, guest := g\<rparr>"
  have sr: "stuck H ?r" "rr_num_instr_before_next_interrupt ?r = 0" using stuck_set_program_point [OF st(1)] by simp_all
  have u: "undisturbed ?s" using st(3) by (simp add: undisturbed_rr)
  let ?s1 = "?s\<lparr>run_plugins := (run_plugins ?s)\<lparr>plugin_cbs := cbs (run_rr ?s)\<rparr>\<rparr>"
  have u1: "undisturbed ?s1" using u by (simp only: undisturbed_update)
  have m: "rr_mode (run_rr ?s1) = RR_REPLAY" using stuck_mode [OF sr(1)] by simp
  obtain tb b f n h where
    fb: "find_block C ?s1 = Inr (Some tb, ?s1\<lparr>bb_invalidate_done := b, tb_invalidated_flag := f, next_tb := n, guest := h\<rparr>)"
    by (rule find_block_plain [OF assms(1) u1 m])
  let ?t = "?s1\<lparr>bb_invalidate_done := b, tb_invalidated_flag := f, next_tb := n, guest := h\<rparr>"
  have fin: "(if rr_mode (run_rr ?t) = RR_REPLAY then rr_replay_finished (run_rr ?t) else Inr False) = Inr False"
    using m stuck_not_finished [OF sr(1)] by simp
  have ut: "undisturbed ?t" using u1 by (simp only: undisturbed_update)
  have off: "env_exit_request ?s = False" by simp
  have "inner_turn C H M s = bindR (replay_watchdog ?t) (\<lambda>s. bindJ (run_block C tb s) (\<lambda>_ s. Inr (Some Again, s)))"
    unfolding inner_turn_def pro [rule_format] off if_False serve_plugins_undisturbed [OF u] bindR_simps fb bindJ_simps fin ..
  also have "\<dots> = bindR (replay_watchdog ?t) (\<lambda>s. Inr (Some Again, s))"
    using m sr(2) stuck_abort [OF sr(1)] st(2) by (simp add: replay_watchdog_def at_rr_def run_block_def rr_in_replay_def Let_def)
  finally show ?thesis
    by (intro that [of ?t]) (use sr st ut in \<open>simp_all add: stuck_run_def\<close>)
qed

text \<open>After the last attempt the replay is aborted.\<close>

lemma stuck_loop:
  assumes "plain_code C" and "stuck_run H s" and "rr_prog_point (rr_set_program_point (run_rr s)) = saved_prog_point s"
    and "rr_loop_tries s = 1 + int k" and "k < n"
  shows "cpu_loop C H M n False s = Some (Inl Replay_abort)"
  using assms(2-5)
proof (induction k arbitrary: s n)
  case (0 s n)
  obtain t where t: "stuck_run H t"
    "run_rr t = (rr_set_program_point (run_rr s))\<lparr>rr_skipped_callsite_location := RR_CALLSITE_CPU_EXEC_1\<rparr>"
    "rr_loop_tries t = rr_loop_tries s" "saved_prog_point t = saved_prog_point s"
    "inner_turn C H M s = bindR (replay_watchdog t) (\<lambda>s. Inr (Some Again, s))"
    by (rule stuck_turn [OF assms(1) 0(1)])
  have "rr_do_end_replay True (run_rr t) = Inl Replay_abort" "rr_mode (run_rr t) = RR_REPLAY"
    using t(1) by (auto simp: stuck_run_def intro: stuck_abort dest: stuck_mode)
  then have "replay_watchdog t = Inl Replay_abort" using t(2-4) 0(2,3) by (simp add: replay_watchdog_def at_rr_def)
  with t(5) 0(4) show ?case by (cases n) simp_all
next
  case (Suc k s n)
  obtain t where t: "stuck_run H t"
    "run_rr t = (rr_set_program_point (run_rr s))\<lparr>rr_skipped_callsite_location := RR_CALLSITE_CPU_EXEC_1\<rparr>"
    "rr_loop_tries t = rr_loop_tries s" "saved_prog_point t = saved_prog_point s"
    "inner_turn C H M s = bindR (replay_watchdog t) (\<lambda>s. Inr (Some Again, s))"
    by (rule stuck_turn [OF assms(1) Suc.prems(1)])
  have "rr_mode (run_rr t) = RR_REPLAY" using t(1) by (auto simp: stuck_run_def dest: stuck_mode)
  then have w: "replay_watchdog t = Inr (t\<lparr>rr_loop_tries := 1 + int k\<rparr>)"
    using t(2-4) Suc.prems(2,3) by (simp add: replay_watchdog_def)
  obtain m where m: "n = Suc m" "k < m" using Suc.prems(4) by (cases n) simp_all
  have "cpu_loop C H M m False (t\<lparr>rr_loop_tries := 1 + int k\<rparr>) = Some (Inl Replay_abort)"
    by (rule Suc.IH) (use t m(2) Suc.prems(2) in simp_all)
  with t(5) w m(1) show ?case by simp
qed

text \<open>Whatever program point was saved last, the first turn saves the current one.\<close>

lemma stuck_loop_from:
  assumes "plain_code C" and "stuck_run H s" and "rr_loop_tries s = 20" and "20 < n"
  shows "cpu_loop C H M n False s = Some (Inl Replay_abort)"
proof (cases "rr_prog_point (rr_set_program_point (run_rr s)) = saved_prog_point s")
  case True
  then show ?thesis by (rule stuck_loop [OF assms(1,2), of 19]) (use assms(3,4) in simp_all)
next
  case False
  obtain t where t: "stuck_run H t"
    "run_rr t = (rr_set_program_point (run_rr s))\<lparr>rr_skipped_callsite_location := RR_CALLSITE_CPU_EXEC_1\<rparr>"
    "rr_loop_tries t = rr_loop_tries s" "saved_prog_point t = saved_prog_point s"
    "inner_turn C H M s = bindR (replay_watchdog t) (\<lambda>s. Inr (Some Again, s))"
    by (rule stuck_turn [OF assms(1,2)])
  let ?t = "t\<lparr>rr_loop_tries := 20, saved_prog_point := rr_prog_point (run_rr t)\<rparr>"
  have "rr_mode (run_rr t) = RR_REPLAY" using t(1) by (auto simp: stuck_run_def dest: stuck_mode)
  then have w: "replay_watchdog t = Inr ?t" using t(2-4) False by (simp add: replay_watchdog_def)
  obtain m where m: "n = Suc m" "19 < m" using assms(4) by (cases n) simp_all
  have "cpu_loop C H M m False ?t = Some (Inl Replay_abort)"
    by (rule stuck_loop [OF assms(1), of _ _ 19]) (use t(1,2) m(2) in simp_all)
  with t(5) w m(1) show ?thesis by simp
qed

section \<open>Properties\<close>



end
