(* ===== verification/Label_Set.thy ===== *)
theory Label_Set
  imports Panda_Prelude
begin

text \<open>
  Label sets of the taint analysis (\<^verbatim>\<open>panda_plugins/taint2/label_set.cpp\<close>): sets of 32-bit
  labels that are shared by pointer. Unions are memoised by the pair of pointers and interned
  by contents; sets of one label come from an arena. Nothing is ever freed, so a pointer keeps
  its meaning. The locale \<open>label_sets_spec\<close> is what the taint operations rely on.
\<close>

section \<open>State and operations\<close>

text \<open>
  A pointer to a \<^verbatim>\<open>std::set<uint32_t>\<close>; \<open>None\<close> is NULL. The addresses the allocator hands out
  are a field of the state: \<open>ls_addr k\<close> is the address of the \<open>k\<close>-th object.
  \<open>label_sets\<close> lists the elements of the hash set of that name (the functions that hash sets and
  pairs only decide where the standard containers store their elements).
\<close>

type_synonym LabelSetP = "nat option"

record label_state =
  ls_addr :: "nat \<Rightarrow> nat"
  ls_count :: nat
  ls_mem :: "nat \<Rightarrow> u32 set option"
  label_sets :: "nat list"
  memoized_unions :: "nat \<times> nat \<Rightarrow> nat option"

definition init_labels :: "(nat \<Rightarrow> nat) \<Rightarrow> label_state" where
  "init_labels addrs = \<lparr>ls_addr = addrs, ls_count = 0, ls_mem = Map.empty, label_sets = [],
     memoized_unions = Map.empty\<rparr>"

definition ls_deref :: "nat \<Rightarrow> label_state \<Rightarrow> rr_exit + u32 set" where
  "ls_deref a s = (case ls_mem s a of None \<Rightarrow> Inl Use_after_free | Some L \<Rightarrow> Inr L)"

definition ls_new :: "u32 set \<Rightarrow> label_state \<Rightarrow> nat \<times> label_state" where
  "ls_new L s =
     (let a = ls_addr s (ls_count s)
      in (a, s\<lparr>ls_count := Suc (ls_count s), ls_mem := (ls_mem s)(a \<mapsto> L)\<rparr>))"

text \<open>\<^verbatim>\<open>label_sets.insert(temp).first\<close>: the element with these contents, new or old.\<close>

definition label_sets_insert :: "u32 set \<Rightarrow> label_state \<Rightarrow> nat \<times> label_state" where
  "label_sets_insert L s =
     (case find (\<lambda>a. ls_mem s a = Some L) (label_sets s) of
        Some a \<Rightarrow> (a, s)
      | None \<Rightarrow> let (a, s) = ls_new L s in (a, s\<lparr>label_sets := a # label_sets s\<rparr>))"

definition label_set_union :: "LabelSetP \<Rightarrow> LabelSetP \<Rightarrow> label_state \<Rightarrow> rr_exit + (LabelSetP \<times> label_state)" where
  "label_set_union ls1 ls2 s =
     (if ls1 = ls2 then Inr (ls1, s)
      else case (ls1, ls2) of
        (Some p, Some q) \<Rightarrow>
          let mn = min p q; mx = max p q
          in (case memoized_unions s (mn, mx) of
                Some r \<Rightarrow> Inr (Some r, s)
              | None \<Rightarrow>
                  bindR (ls_deref mn s) (\<lambda>A.
                  bindR (ls_deref mx s) (\<lambda>B.
                  let (r, s) = label_sets_insert (A \<union> B) s
                  in Inr (Some r, s\<lparr>memoized_unions := (memoized_unions s)((mn, mx) \<mapsto> r)\<rparr>))))
      | (Some p, None) \<Rightarrow> Inr (ls1, s)
      | (None, Some q) \<Rightarrow> Inr (ls2, s)
      | (None, None) \<Rightarrow> Inr (None, s))"

definition label_set_singleton :: "u32 \<Rightarrow> label_state \<Rightarrow> LabelSetP \<times> label_state" where
  "label_set_singleton label s = (let (a, s) = ls_new {label} s in (Some a, s))"

definition label_set_render_set :: "LabelSetP \<Rightarrow> label_state \<Rightarrow> rr_exit + u32 set" where
  "label_set_render_set ls s = (case ls of Some a \<Rightarrow> ls_deref a s | None \<Rightarrow> Inr {})"

section \<open>The invariant\<close>

definition ls_inv :: "label_state \<Rightarrow> bool" where
  "ls_inv s \<longleftrightarrow> inj (ls_addr s) \<and> dom (ls_mem s) = ls_addr s ` {..<ls_count s}
     \<and> set (label_sets s) \<subseteq> dom (ls_mem s)
     \<and> inj_on (ls_mem s) (set (label_sets s))
     \<and> (\<forall>p q r. memoized_unions s (p, q) = Some r \<longrightarrow>
          (\<exists>A B. ls_mem s p = Some A \<and> ls_mem s q = Some B \<and> ls_mem s r = Some (A \<union> B)) \<and> r \<in> set (label_sets s))
     \<and> (\<forall>a L. ls_mem s a = Some L \<longrightarrow> L \<noteq> {})"

definition ls_valid :: "label_state \<Rightarrow> LabelSetP \<Rightarrow> bool" where
  "ls_valid s ls \<longleftrightarrow> (\<forall>a. ls = Some a \<longrightarrow> ls_mem s a \<noteq> None)"

definition labels_of :: "label_state \<Rightarrow> LabelSetP \<Rightarrow> u32 set" where
  "labels_of s ls = (case ls of None \<Rightarrow> {} | Some a \<Rightarrow> (case ls_mem s a of None \<Rightarrow> {} | Some L \<Rightarrow> L))"

text \<open>Later states know all the sets of earlier ones, with the same contents.\<close>

definition ls_le :: "label_state \<Rightarrow> label_state \<Rightarrow> bool" where
  "ls_le s s' \<longleftrightarrow> ls_mem s \<subseteq>\<^sub>m ls_mem s' \<and> memoized_unions s \<subseteq>\<^sub>m memoized_unions s'
     \<and> set (label_sets s) \<subseteq> set (label_sets s')"

lemma ls_le_refl [simp]: "ls_le s s"
  by (simp add: ls_le_def)

lemma ls_le_trans: "ls_le s s' \<Longrightarrow> ls_le s' s'' \<Longrightarrow> ls_le s s''"
  by (auto simp: ls_le_def intro: map_le_trans)

lemma labels_of_None [simp]: "labels_of s None = {}" "ls_valid s None"
  by (simp_all add: labels_of_def ls_valid_def)

lemma ls_le_mem: "ls_le s s' \<Longrightarrow> ls_mem s a = Some L \<Longrightarrow> ls_mem s' a = Some L"
  by (auto simp: ls_le_def map_le_def) (metis domI)

lemma ls_le_valid: "ls_le s s' \<Longrightarrow> ls_valid s ls \<Longrightarrow> ls_valid s' ls"
  using ls_le_mem by (fastforce simp: ls_valid_def)

lemma ls_le_labels: "ls_le s s' \<Longrightarrow> ls_valid s ls \<Longrightarrow> labels_of s' ls = labels_of s ls"
  using ls_le_mem by (fastforce simp: ls_valid_def labels_of_def split: option.splits)

lemma ls_inv_init [simp]: "inj addrs \<Longrightarrow> ls_inv (init_labels addrs)"
  by (simp add: ls_inv_def init_labels_def)

lemma ls_inv_memo:
  assumes "ls_inv s" and "memoized_unions s (p, q) = Some r"
  obtains A B where "ls_mem s p = Some A" and "ls_mem s q = Some B" and "ls_mem s r = Some (A \<union> B)"
    and "r \<in> set (label_sets s)"
  using assms unfolding ls_inv_def by metis

lemma ls_invI:
  assumes "inj (ls_addr s)" and "dom (ls_mem s) = ls_addr s ` {..<ls_count s}"
    and "set (label_sets s) \<subseteq> dom (ls_mem s)" and "inj_on (ls_mem s) (set (label_sets s))"
    and "\<And>p q r. memoized_unions s (p, q) = Some r \<Longrightarrow>
          \<exists>A B. ls_mem s p = Some A \<and> ls_mem s q = Some B \<and> ls_mem s r = Some (A \<union> B) \<and> r \<in> set (label_sets s)"
    and "\<And>a L. ls_mem s a = Some L \<Longrightarrow> L \<noteq> {}"
  shows "ls_inv s"
  using assms unfolding ls_inv_def by metis

lemma ls_new_ok:
  assumes "ls_inv s" and "ls_new L s = (a, s')" and "L \<noteq> {}"
  shows "ls_inv s'" and "ls_le s s'" and "ls_mem s' a = Some L" and "ls_mem s a = None"
    and "label_sets s' = label_sets s" and "memoized_unions s' = memoized_unions s"
    and "ls_mem s' = (ls_mem s)(a \<mapsto> L)"
proof -
  have a: "a = ls_addr s (ls_count s)" and s': "s' = s\<lparr>ls_count := Suc (ls_count s), ls_mem := (ls_mem s)(a \<mapsto> L)\<rparr>"
    using assms(2) by (auto simp: ls_new_def Let_def)
  have inj: "inj (ls_addr s)" and d: "dom (ls_mem s) = ls_addr s ` {..<ls_count s}"
    and ls: "set (label_sets s) \<subseteq> dom (ls_mem s)" and u: "inj_on (ls_mem s) (set (label_sets s))"
    using assms(1) unfolding ls_inv_def by blast+
  have "a \<notin> ls_addr s ` {..<ls_count s}" unfolding a using inj by (auto simp: inj_eq)
  then show fresh: "ls_mem s a = None" using d by blast
  then show le: "ls_le s s'" by (auto simp: ls_le_def s' map_le_def)
  show "ls_inv s'"
  proof (rule ls_invI)
    show "dom (ls_mem s') = ls_addr s' ` {..<ls_count s'}"
      using d a by (simp add: s' lessThan_Suc)
    show "inj_on (ls_mem s') (set (label_sets s'))"
    proof -
      have "b \<in> set (label_sets s) \<Longrightarrow> ls_mem s' b = ls_mem s b" for b
        using ls fresh by (auto simp: s')
      then show ?thesis using u by (simp add: s' inj_on_def)
    qed
    show "\<exists>A B. ls_mem s' p = Some A \<and> ls_mem s' q = Some B \<and> ls_mem s' r = Some (A \<union> B) \<and> r \<in> set (label_sets s')"
      if "memoized_unions s' (p, q) = Some r" for p q r
    proof -
      have "memoized_unions s (p, q) = Some r" using that by (simp add: s')
      with assms(1) obtain A B where "ls_mem s p = Some A" "ls_mem s q = Some B" "ls_mem s r = Some (A \<union> B)"
        "r \<in> set (label_sets s)" by (rule ls_inv_memo)
      with ls_le_mem [OF le] show ?thesis by (intro exI [of _ A] exI [of _ B]) (simp add: s')
    qed
    show "K \<noteq> {}" if "ls_mem s' b = Some K" for b K
      using that assms(1,3) by (auto simp: s' ls_inv_def split: if_splits)
  qed (use inj ls in \<open>auto simp: s'\<close>)
  show "ls_mem s' a = Some L" "label_sets s' = label_sets s" "memoized_unions s' = memoized_unions s"
    "ls_mem s' = (ls_mem s)(a \<mapsto> L)" by (simp_all add: s')
qed

lemma label_sets_insert_ok:
  assumes "ls_inv s" and "label_sets_insert L s = (a, s')" and "L \<noteq> {}"
  shows "ls_inv s'" and "ls_le s s'" and "ls_mem s' a = Some L" and "a \<in> set (label_sets s')"
    and "memoized_unions s' = memoized_unions s"
proof -
  have "ls_inv s' \<and> ls_le s s' \<and> ls_mem s' a = Some L \<and> a \<in> set (label_sets s')
      \<and> memoized_unions s' = memoized_unions s"
  proof (cases "find (\<lambda>a. ls_mem s a = Some L) (label_sets s)")
    case (Some b)
    then have "ls_mem s b = Some L" "b \<in> set (label_sets s)" by (auto simp: find_Some_iff)
    moreover have "a = b" "s' = s" using Some assms(2) by (simp_all add: label_sets_insert_def)
    ultimately show ?thesis using assms(1) by simp
  next
    case None
    then have none: "\<forall>b \<in> set (label_sets s). ls_mem s b \<noteq> Some L" by (auto simp: find_None_iff)
    obtain b t where new: "ls_new L s = (b, t)" by (cases "ls_new L s")
    then have s': "a = b" "s' = t\<lparr>label_sets := b # label_sets t\<rparr>"
      using None assms(2) by (auto simp: label_sets_insert_def)
    note n = ls_new_ok [OF assms(1) new assms(3)]
    have sub: "set (label_sets s) \<subseteq> dom (ls_mem s)" using assms(1) unfolding ls_inv_def by blast
    have t: "inj (ls_addr t)" "dom (ls_mem t) = ls_addr t ` {..<ls_count t}"
      "inj_on (ls_mem t) (set (label_sets t))" "\<And>a L. ls_mem t a = Some L \<Longrightarrow> L \<noteq> {}"
      "set (label_sets t) \<subseteq> dom (ls_mem t)"
      using n(1) unfolding ls_inv_def by blast+
    have "ls_inv s'"
    proof (rule ls_invI)
      have "ls_mem t b \<notin> ls_mem t ` set (label_sets t)"
        using none n(4,5,7) sub by auto
      then show "inj_on (ls_mem s') (set (label_sets s'))"
        using t(3) by (auto simp: s')
      show "\<exists>A B. ls_mem s' p = Some A \<and> ls_mem s' q = Some B \<and> ls_mem s' r = Some (A \<union> B) \<and> r \<in> set (label_sets s')"
        if "memoized_unions s' (p, q) = Some r" for p q r
      proof -
        have "memoized_unions t (p, q) = Some r" using that by (simp add: s')
        with n(1) obtain A B where "ls_mem t p = Some A" "ls_mem t q = Some B" "ls_mem t r = Some (A \<union> B)"
          "r \<in> set (label_sets t)" by (rule ls_inv_memo)
        then show ?thesis by (intro exI [of _ A] exI [of _ B]) (simp add: s')
      qed
      show "set (label_sets s') \<subseteq> dom (ls_mem s')" using t(5) n(3) by (auto simp: s')
    qed (use t in \<open>auto simp: s'\<close>)
    moreover have "ls_le s s'" using n(2,5) by (auto simp: ls_le_def s')
    ultimately show ?thesis using n(3,6) by (simp add: s')
  qed
  then show "ls_inv s'" "ls_le s s'" "ls_mem s' a = Some L" "a \<in> set (label_sets s')"
    "memoized_unions s' = memoized_unions s" by blast+
qed

lemma label_set_union_ok:
  assumes "ls_inv s" and "ls_valid s ls1" and "ls_valid s ls2"
  obtains r s' where "label_set_union ls1 ls2 s = Inr (r, s')" and "ls_inv s'" and "ls_le s s'" and "ls_valid s' r"
    and "labels_of s' r = labels_of s ls1 \<union> labels_of s ls2"
    and "\<And>p q. ls1 = Some p \<Longrightarrow> ls2 = Some q \<Longrightarrow> p \<noteq> q \<Longrightarrow>
      \<exists>a. r = Some a \<and> memoized_unions s' (min p q, max p q) = Some a \<and> a \<in> set (label_sets s')"
proof (cases "\<exists>p q. ls1 = Some p \<and> ls2 = Some q \<and> p \<noteq> q")
  case False
  then have "label_set_union ls1 ls2 s = Inr (if ls1 = None then ls2 else ls1, s)"
    by (cases ls1; cases ls2) (simp_all add: label_set_union_def)
  then show ?thesis by (rule that) (use assms False in \<open>cases ls1; cases ls2; force\<close>)+
next
  case True
  then obtain p q where pq: "ls1 = Some p" "ls2 = Some q" "p \<noteq> q" by blast
  let ?mn = "min p q" and ?mx = "max p q"
  obtain A B where AB: "ls_mem s ?mn = Some A" "ls_mem s ?mx = Some B"
    using assms(2,3) pq by (cases "p \<le> q") (auto simp: ls_valid_def min_def max_def)
  have un: "A \<union> B = labels_of s ls1 \<union> labels_of s ls2"
    using AB pq by (cases "p \<le> q") (auto simp: labels_of_def min_def max_def)
  have ne: "A \<union> B \<noteq> {}" using assms(1) AB(1) unfolding ls_inv_def by blast
  show ?thesis
  proof (cases "memoized_unions s (?mn, ?mx)")
    case (Some r)
    with assms(1) obtain A' B' where "ls_mem s ?mn = Some A'" "ls_mem s ?mx = Some B'" "ls_mem s r = Some (A' \<union> B')"
      "r \<in> set (label_sets s)" by (rule ls_inv_memo)
    moreover have "label_set_union ls1 ls2 s = Inr (Some r, s)"
      using pq Some by (simp add: label_set_union_def Let_def)
    ultimately show ?thesis
      using Some pq AB un assms(1) by (intro that [of "Some r" s]) (auto simp: ls_valid_def labels_of_def)
  next
    case None
    obtain r t where ins: "label_sets_insert (A \<union> B) s = (r, t)" by (cases "label_sets_insert (A \<union> B) s")
    note i = label_sets_insert_ok [OF assms(1) ins ne]
    let ?s = "t\<lparr>memoized_unions := (memoized_unions t)((?mn, ?mx) \<mapsto> r)\<rparr>"
    have run: "label_set_union ls1 ls2 s = Inr (Some r, ?s)"
      using pq None AB ins by (simp add: label_set_union_def Let_def ls_deref_def)
    have t: "inj (ls_addr t)" "dom (ls_mem t) = ls_addr t ` {..<ls_count t}"
      "inj_on (ls_mem t) (set (label_sets t))" "\<And>a L. ls_mem t a = Some L \<Longrightarrow> L \<noteq> {}"
      "set (label_sets t) \<subseteq> dom (ls_mem t)"
      using i(1) unfolding ls_inv_def by blast+
    have AB': "ls_mem t ?mn = Some A" "ls_mem t ?mx = Some B" using AB ls_le_mem [OF i(2)] by simp_all
    have "ls_inv ?s"
    proof (rule ls_invI)
      show "\<exists>A B. ls_mem ?s p' = Some A \<and> ls_mem ?s q' = Some B \<and> ls_mem ?s r' = Some (A \<union> B) \<and> r' \<in> set (label_sets ?s)"
        if m: "memoized_unions ?s (p', q') = Some r'" for p' q' r'
      proof (cases "(p', q') = (?mn, ?mx)")
        case True
        with m AB' i(3,4) show ?thesis by auto
      next
        case False
        with m have "memoized_unions t (p', q') = Some r'" by (simp split: if_splits)
        with i(1) obtain A' B' where "ls_mem t p' = Some A'" "ls_mem t q' = Some B'"
          "ls_mem t r' = Some (A' \<union> B')" "r' \<in> set (label_sets t)" by (rule ls_inv_memo)
        then show ?thesis by simp
      qed
    qed (use t in simp_all)
    moreover have "ls_le s ?s"
      using i(2,5) None by (auto simp: ls_le_def map_le_def)
    ultimately show ?thesis
      using run i(3,4) un pq by (intro that [of "Some r" ?s]) (auto simp: ls_valid_def labels_of_def)
  qed
qed


lemma label_set_singleton_ok:
  assumes "ls_inv s"
  obtains r s' where "label_set_singleton l s = (r, s')" and "ls_inv s'" and "ls_le s s'" and "ls_valid s' r"
    and "labels_of s' r = {l}"
proof -
  obtain a s' where new: "ls_new {l} s = (a, s')" by (cases "ls_new {l} s")
  note n = ls_new_ok [OF assms new insert_not_empty]
  have "label_set_singleton l s = (Some a, s')" using new by (simp add: label_set_singleton_def)
  then show ?thesis by (rule that) (use n in \<open>auto simp: ls_valid_def labels_of_def\<close>)
qed

lemma label_set_render_ok: "ls_valid s ls \<Longrightarrow> label_set_render_set ls s = Inr (labels_of s ls)"
  by (cases ls) (auto simp: label_set_render_set_def ls_deref_def ls_valid_def labels_of_def)

section \<open>What the taint operations rely on\<close>

primrec union_all :: "('p \<Rightarrow> 'p \<Rightarrow> 's \<Rightarrow> 'e + ('p \<times> 's)) \<Rightarrow> 'p \<Rightarrow> 'p list \<Rightarrow> 's \<Rightarrow> 'e + ('p \<times> 's)" where
  "union_all un p [] s = Inr (p, s)"
| "union_all un p (q # qs) s = bindR (un p q s) (\<lambda>(r, s). union_all un r qs s)"

locale label_sets_spec =
  fixes invar :: "'s \<Rightarrow> bool" and le :: "'s \<Rightarrow> 's \<Rightarrow> bool" and valid :: "'s \<Rightarrow> 'p \<Rightarrow> bool"
    and labels :: "'s \<Rightarrow> 'p \<Rightarrow> u32 set" and null :: 'p
    and union :: "'p \<Rightarrow> 'p \<Rightarrow> 's \<Rightarrow> rr_exit + ('p \<times> 's)" and singleton :: "u32 \<Rightarrow> 's \<Rightarrow> 'p \<times> 's"
  assumes le_refl: "le s s" and le_trans: "le s s' \<Longrightarrow> le s' s'' \<Longrightarrow> le s s''"
    and le_valid: "le s s' \<Longrightarrow> valid s p \<Longrightarrow> valid s' p"
    and le_labels: "le s s' \<Longrightarrow> valid s p \<Longrightarrow> labels s' p = labels s p"
    and null: "valid s null" "labels s null = {}"
    and union: "invar s \<Longrightarrow> valid s p \<Longrightarrow> valid s q \<Longrightarrow> \<exists>r s'. union p q s = Inr (r, s') \<and> invar s' \<and> le s s'
      \<and> valid s' r \<and> labels s' r = labels s p \<union> labels s q"
    and singleton: "invar s \<Longrightarrow> \<exists>r s'. singleton l s = (r, s') \<and> invar s' \<and> le s s' \<and> valid s' r \<and> labels s' r = {l}"
begin

lemma unions:
  assumes "invar s" and "valid s p" and "\<forall>q \<in> set qs. valid s q"
  shows "\<exists>r s'. union_all union p qs s = Inr (r, s') \<and> invar s' \<and> le s s' \<and> valid s' r
    \<and> labels s' r = labels s p \<union> (\<Union>q \<in> set qs. labels s q)"
  using assms
proof (induction qs arbitrary: p s)
  case Nil
  then show ?case by (simp add: le_refl)
next
  case (Cons q qs)
  from Cons.prems union [of s p q] obtain r s1 where
    1: "union p q s = Inr (r, s1)" "invar s1" "le s s1" "valid s1 r" "labels s1 r = labels s p \<union> labels s q" by auto
  have v: "\<forall>q \<in> set qs. valid s1 q" and l: "\<forall>q \<in> set qs. labels s1 q = labels s q"
    using Cons.prems(3) le_valid [OF 1(3)] le_labels [OF 1(3)] by auto
  from Cons.IH [OF 1(2,4) v] obtain r' s2 where
    2: "union_all union r qs s1 = Inr (r', s2)" "invar s2" "le s1 s2" "valid s2 r'"
      "labels s2 r' = labels s1 r \<union> (\<Union>q \<in> set qs. labels s1 q)" by blast
  have "(\<Union>q \<in> set qs. labels s1 q) = (\<Union>q \<in> set qs. labels s q)" using l by simp
  with 1 2 le_trans [OF 1(3) 2(3)] show ?case by (intro exI [of _ r'] exI [of _ s2]) auto
qed

text \<open>The order of the operands of a union does not matter for the labels.\<close>

lemma union_labels_comm:
  assumes "invar s" and "valid s p" and "valid s q"
  shows "\<exists>r s' r' s''. union p q s = Inr (r, s') \<and> union q p s' = Inr (r', s'') \<and> labels s'' r' = labels s' r"
proof -
  from union [OF assms] obtain r s1 where 1: "union p q s = Inr (r, s1)" "invar s1" "le s s1" "valid s1 r"
    "labels s1 r = labels s p \<union> labels s q" by blast
  have v: "valid s1 p" "valid s1 q" using assms le_valid [OF 1(3)] by blast+
  have l: "labels s1 p = labels s p" "labels s1 q = labels s q" using assms le_labels [OF 1(3)] by blast+
  from union [OF 1(2) v(2,1)] obtain r' s2 where "union q p s1 = Inr (r', s2)"
    "labels s2 r' = labels s1 q \<union> labels s1 p" by blast
  with 1 l show ?thesis by (auto simp: Un_commute)
qed

end

interpretation lsp: label_sets_spec ls_inv ls_le ls_valid labels_of None label_set_union label_set_singleton
proof unfold_locales
  show "\<exists>r s'. label_set_union p q s = Inr (r, s') \<and> ls_inv s' \<and> ls_le s s' \<and> ls_valid s' r
      \<and> labels_of s' r = labels_of s p \<union> labels_of s q"
    if "ls_inv s" "ls_valid s p" "ls_valid s q" for s p q
    using label_set_union_ok [OF that] by metis
  show "\<exists>r s'. label_set_singleton l s = (r, s') \<and> ls_inv s' \<and> ls_le s s' \<and> ls_valid s' r \<and> labels_of s' r = {l}"
    if "ls_inv s" for s l
    using label_set_singleton_ok [OF that] by metis
qed (auto intro: ls_le_trans ls_le_valid simp: ls_le_labels)

section \<open>Sharing\<close>

lemma union_shared:
  assumes "ls_inv s" and "label_set_union (Some p) (Some q) s = Inr (r, s')" and "p \<noteq> q"
    and "ls_valid s (Some p)" and "ls_valid s (Some q)"
  obtains a where "r = Some a" and "memoized_unions s' (min p q, max p q) = Some a" and "a \<in> set (label_sets s')"
    and "ls_inv s'" and "ls_le s s'" and "labels_of s' r = labels_of s (Some p) \<union> labels_of s (Some q)" and "ls_valid s' r"
proof -
  from label_set_union_ok [OF assms(1,4,5)] obtain r0 s0 where
    0: "label_set_union (Some p) (Some q) s = Inr (r0, s0)" "ls_inv s0" "ls_le s s0" "ls_valid s0 r0"
      "labels_of s0 r0 = labels_of s (Some p) \<union> labels_of s (Some q)"
      "\<exists>a. r0 = Some a \<and> memoized_unions s0 (min p q, max p q) = Some a \<and> a \<in> set (label_sets s0)"
    using assms(3) by metis
  with assms(2) that show ?thesis by auto
qed

lemma union_again:
  assumes "memoized_unions s (min p q, max p q) = Some a" and "p \<noteq> q"
  shows "label_set_union (Some p) (Some q) s = Inr (Some a, s)" and "label_set_union (Some q) (Some p) s = Inr (Some a, s)"
  using assms by (simp_all add: label_set_union_def Let_def min.commute max.commute)

lemma interned_unique:
  assumes "ls_inv s" and "a \<in> set (label_sets s)" and "b \<in> set (label_sets s)"
    and "labels_of s (Some a) = labels_of s (Some b)"
  shows "a = b"
proof -
  have "inj_on (ls_mem s) (set (label_sets s))" and "set (label_sets s) \<subseteq> dom (ls_mem s)"
    using assms(1) unfolding ls_inv_def by blast+
  with assms(2-4) show ?thesis by (auto simp: labels_of_def inj_on_def split: option.splits)
qed

section \<open>The arena\<close>

text \<open>
  \<^verbatim>\<open>ArenaAlloc\<close>: blocks of doubling size from \<^verbatim>\<open>mmap\<close>, cut into objects of \<open>sz\<close> bytes.
  \<open>map_at i\<close> is the address of the \<open>i\<close>-th mapping. Addresses are numbers: a mapping does not
  wrap around the address space.
\<close>

record arena =
  ar_next :: nat
  ar_blocks :: "(nat \<times> nat) list"
  ar_next_block_size :: nat

definition alloc_block :: "(nat \<Rightarrow> nat) \<Rightarrow> arena \<Rightarrow> rr_exit + arena" where
  "alloc_block map_at s =
     (let p = map_at (length (ar_blocks s)) in
      bindR (rr_assert (p \<noteq> 0) ''next'') (\<lambda>_.
      Inr (s\<lparr>ar_next := p, ar_blocks := ar_blocks s @ [(p, ar_next_block_size s)],
             ar_next_block_size := 2 * ar_next_block_size s\<rparr>)))"

definition alloc_imp :: "(nat \<Rightarrow> nat) \<Rightarrow> nat \<Rightarrow> arena \<Rightarrow> rr_exit + (nat \<times> arena)" where
  "alloc_imp map_at sz s =
     bindR (rr_assert (length (ar_blocks s) > 0) ''blocks.size() > 0'') (\<lambda>_.
     let block = last (ar_blocks s) in
     bindR (if ar_next s + sz > fst block + snd block
            then bindR (alloc_block map_at s) (\<lambda>s. bindR (rr_assert (ar_next s \<noteq> 0) ''next != NULL'') (\<lambda>_. Inr s))
            else Inr s) (\<lambda>s.
     Inr (ar_next s, s\<lparr>ar_next := ar_next s + sz\<rparr>)))"

definition ArenaAlloc :: "(nat \<Rightarrow> nat) \<Rightarrow> rr_exit + arena" where
  "ArenaAlloc map_at = alloc_block map_at \<lparr>ar_next = 0, ar_blocks = [], ar_next_block_size = 2 ^ 15\<rparr>"

primrec alloc_many :: "(nat \<Rightarrow> nat) \<Rightarrow> nat \<Rightarrow> nat \<Rightarrow> arena \<Rightarrow> rr_exit + (nat list \<times> arena)" where
  "alloc_many map_at sz 0 s = Inr ([], s)"
| "alloc_many map_at sz (Suc n) s =
     bindR (alloc_many map_at sz n s) (\<lambda>(as, s).
     bindR (alloc_imp map_at sz s) (\<lambda>(a, s). Inr (as @ [a], s)))"

text \<open>What \<^verbatim>\<open>mmap\<close> promises: mappings are not at 0 and do not overlap.\<close>

definition maps_disjoint :: "(nat \<Rightarrow> nat) \<Rightarrow> bool" where
  "maps_disjoint map_at \<longleftrightarrow> (\<forall>i. map_at i \<noteq> 0)
     \<and> (\<forall>i j. i \<noteq> j \<longrightarrow> {map_at i..<map_at i + 2 ^ (15 + i)} \<inter> {map_at j..<map_at j + 2 ^ (15 + j)} = {})"

text \<open>
  The objects handed out: each lies in a block, those in the last block below the next free
  address, and no two overlap.
\<close>

definition arena_inv :: "(nat \<Rightarrow> nat) \<Rightarrow> nat \<Rightarrow> nat list \<Rightarrow> arena \<Rightarrow> bool" where
  "arena_inv map_at sz as s \<longleftrightarrow>
     (\<exists>n. ar_blocks s = map (\<lambda>i. (map_at i, 2 ^ (15 + i))) [0..<Suc n] \<and> ar_next_block_size s = 2 ^ (15 + Suc n)
      \<and> map_at n \<le> ar_next s \<and> ar_next s \<le> map_at n + 2 ^ (15 + n)
      \<and> (\<forall>a \<in> set as. (\<exists>i < n. map_at i \<le> a \<and> a + sz \<le> map_at i + 2 ^ (15 + i)) \<or> map_at n \<le> a \<and> a + sz \<le> ar_next s)
      \<and> sorted_wrt (\<lambda>a b. {a..<a + sz} \<inter> {b..<b + sz} = {}) as)"

lemma arena_inv_new: "map_at 0 \<noteq> 0 \<Longrightarrow> \<exists>s. ArenaAlloc map_at = Inr s \<and> arena_inv map_at sz [] s"
  by (auto simp: ArenaAlloc_def alloc_block_def arena_inv_def Let_def intro!: exI [of _ 0])

lemma arena_disjoint_aux:
  assumes "maps_disjoint map_at" and "i \<noteq> j" and "map_at i \<le> a" and "a + sz \<le> map_at i + 2 ^ (15 + i)"
    and "map_at j \<le> b" and "b + sz \<le> map_at j + 2 ^ (15 + j)"
  shows "{a..<a + sz} \<inter> {b..<b + sz} = ({} :: nat set)"
proof -
  have "{a..<a + sz} \<subseteq> {map_at i..<map_at i + 2 ^ (15 + i)}" "{b..<b + sz} \<subseteq> {map_at j..<map_at j + 2 ^ (15 + j)}"
    using assms(3-6) by auto
  with assms(1,2) show ?thesis unfolding maps_disjoint_def by blast
qed

lemma alloc_imp_inv:
  assumes "arena_inv map_at sz as s" and md: "maps_disjoint map_at" and "sz \<le> 2 ^ 15"
  shows "\<exists>a s'. alloc_imp map_at sz s = Inr (a, s') \<and> arena_inv map_at sz (as @ [a]) s'"
proof -
  from assms(1) obtain n where bl: "ar_blocks s = map (\<lambda>i. (map_at i, 2 ^ (15 + i))) [0..<Suc n]"
    and nb: "ar_next_block_size s = 2 ^ (15 + Suc n)"
    and nx: "map_at n \<le> ar_next s" "ar_next s \<le> map_at n + 2 ^ (15 + n)"
    and as: "\<And>a. a \<in> set as \<Longrightarrow> (\<exists>i < n. map_at i \<le> a \<and> a + sz \<le> map_at i + 2 ^ (15 + i))
      \<or> map_at n \<le> a \<and> a + sz \<le> ar_next s"
    and so: "sorted_wrt (\<lambda>a b. {a..<a + sz} \<inter> {b..<b + sz} = {}) as"
    unfolding arena_inv_def by blast
  have last: "last (ar_blocks s) = (map_at n, 2 ^ (15 + n))" and ne: "ar_blocks s \<noteq> []" and len: "length (ar_blocks s) = Suc n"
    using bl by simp_all
  show ?thesis
  proof (cases "ar_next s + sz > map_at n + 2 ^ (15 + n)")
    case False
    have "alloc_imp map_at sz s = Inr (ar_next s, s\<lparr>ar_next := ar_next s + sz\<rparr>)"
      using False last ne by (simp add: alloc_imp_def Let_def)
    moreover have "{a..<a + sz} \<inter> {ar_next s..<ar_next s + sz} = {}" if "a \<in> set as" for a
      using as [OF that] arena_disjoint_aux [OF md, of _ n a sz "ar_next s"] nx False by fastforce
    then have "arena_inv map_at sz (as @ [ar_next s]) (s\<lparr>ar_next := ar_next s + sz\<rparr>)"
      unfolding arena_inv_def using bl nb nx so as False
      by (intro exI [of _ n]) (fastforce simp: sorted_wrt_append)
    ultimately show ?thesis by blast
  next
    case True
    let ?p = "map_at (Suc n)"
    let ?s = "s\<lparr>ar_next := ?p, ar_blocks := ar_blocks s @ [(?p, 2 ^ (15 + Suc n))],
      ar_next_block_size := 2 * 2 ^ (15 + Suc n)\<rparr>"
    have p0: "?p \<noteq> 0" using md by (simp add: maps_disjoint_def)
    then have "alloc_imp map_at sz s = Inr (?p, ?s\<lparr>ar_next := ?p + sz\<rparr>)"
      using True last ne len nb by (simp add: alloc_imp_def alloc_block_def Let_def)
    moreover have sz: "sz \<le> 2 ^ (15 + Suc n)"
      using assms(3) order_trans power_increasing [of 15 "15 + Suc n" "2 :: nat"] by simp
    have old: "\<exists>i < Suc n. map_at i \<le> a \<and> a + sz \<le> map_at i + 2 ^ (15 + i)" if "a \<in> set as" for a
      using as [OF that] nx less_Suc_eq by fastforce
    have "{a..<a + sz} \<inter> {?p..<?p + sz} = {}" if "a \<in> set as" for a
      using old [OF that] arena_disjoint_aux [OF md, of _ "Suc n" a sz ?p] sz by fastforce
    then have "arena_inv map_at sz (as @ [?p]) (?s\<lparr>ar_next := ?p + sz\<rparr>)"
      unfolding arena_inv_def using bl so old sz
      by (intro exI [of _ "Suc n"]) (auto simp: sorted_wrt_append power_add)
    ultimately show ?thesis by blast
  qed
qed

lemma alloc_many_inv:
  assumes "arena_inv map_at sz [] s" and "maps_disjoint map_at" and "sz \<le> 2 ^ 15"
  shows "\<exists>as s'. alloc_many map_at sz n s = Inr (as, s') \<and> length as = n \<and> arena_inv map_at sz as s'"
proof (induction n)
  case 0
  then show ?case using assms(1) by simp
next
  case (Suc n)
  then obtain as s1 where 1: "alloc_many map_at sz n s = Inr (as, s1)" "length as = n" "arena_inv map_at sz as s1" by blast
  from alloc_imp_inv [OF 1(3) assms(2,3)] obtain a s2 where
    "alloc_imp map_at sz s1 = Inr (a, s2)" "arena_inv map_at sz (as @ [a]) s2" by blast
  with 1 show ?case by simp
qed

section \<open>Properties\<close>

text \<open>
  C23: The union of two label sets has exactly the labels of both. From any consistent state and
  two valid pointers it returns without touching memory that is not a label set, keeps the
  memo table and the interned sets consistent, and no set handed out before changes.
\<close>

theorem label_set_union_correct:
  assumes "ls_inv s" and "ls_valid s ls1" and "ls_valid s ls2"
  shows "\<exists>r s'. label_set_union ls1 ls2 s = Inr (r, s') \<and> ls_inv s' \<and> ls_valid s' r
    \<and> label_set_render_set r s' = Inr (labels_of s ls1 \<union> labels_of s ls2)
    \<and> (\<forall>ls. ls_valid s ls \<longrightarrow> ls_valid s' ls \<and> labels_of s' ls = labels_of s ls)"
proof -
  from label_set_union_ok [OF assms] obtain r s' where
    "label_set_union ls1 ls2 s = Inr (r, s')" "ls_inv s'" "ls_le s s'" "ls_valid s' r"
    "labels_of s' r = labels_of s ls1 \<union> labels_of s ls2" by metis
  then show ?thesis
    using label_set_render_ok ls_le_valid ls_le_labels by (intro exI [of _ r] exI [of _ s']) auto
qed

theorem label_set_union_correct_witness:
  "\<exists>r s'. label_set_union (Some 4096) (Some 8192)
      (snd (label_set_singleton 2 (snd (label_set_singleton 1 (init_labels (\<lambda>k. 4096 * (k + 1))))))) = Inr (r, s')
    \<and> label_set_render_set r s' = Inr {1, 2}"
proof -
  let ?a = "\<lambda>k. 4096 * (k + 1) :: nat"
  let ?s = "snd (label_set_singleton 2 (snd (label_set_singleton 1 (init_labels ?a))))"
  have 0: "ls_inv (init_labels ?a)" by (simp add: inj_def)
  have 1: "ls_inv (snd (label_set_singleton 1 (init_labels ?a)))"
    using lsp.singleton [OF 0, of 1] by auto
  have 2: "ls_inv ?s" using lsp.singleton [OF 1, of 2] by auto
  have v: "ls_valid ?s (Some 4096)" "ls_valid ?s (Some 8192)" "labels_of ?s (Some 4096) = {1}" "labels_of ?s (Some 8192) = {2}"
    by (simp_all add: ls_valid_def labels_of_def label_set_singleton_def ls_new_def init_labels_def)
  from label_set_union_correct [OF 2 v(1,2)] v(3,4) show ?thesis by auto
qed



text \<open>
  The arena hands out storage that does not overlap: any number of objects of at most
  \<^verbatim>\<open>2^15\<close> bytes, across any number of blocks, lie in pairwise disjoint ranges inside the
  mappings, provided the mappings do not overlap; none of its assertions fails.
\<close>

theorem arena_objects_disjoint:
  assumes "maps_disjoint map_at" and "sz \<le> 2 ^ 15"
  shows "\<exists>as s. bindR (ArenaAlloc map_at) (alloc_many map_at sz n) = Inr (as, s) \<and> length as = n
    \<and> sorted_wrt (\<lambda>a b. {a..<a + sz} \<inter> {b..<b + sz} = {}) as
    \<and> (\<forall>a \<in> set as. \<exists>i. map_at i \<le> a \<and> a + sz \<le> map_at i + 2 ^ (15 + i))"
proof -
  have "map_at 0 \<noteq> 0" using assms(1) by (simp add: maps_disjoint_def)
  then obtain s0 where s0: "ArenaAlloc map_at = Inr s0" "arena_inv map_at sz [] s0" using arena_inv_new by blast
  from alloc_many_inv [OF s0(2) assms, of n] obtain as s where
    as: "alloc_many map_at sz n s0 = Inr (as, s)" "length as = n" "arena_inv map_at sz as s" by blast
  then have "\<forall>a \<in> set as. \<exists>i. map_at i \<le> a \<and> a + sz \<le> map_at i + 2 ^ (15 + i)"
    unfolding arena_inv_def by (metis order_trans)
  with as s0(1) show ?thesis by (auto simp: arena_inv_def)
qed

lemma example_maps: "maps_disjoint (\<lambda>i. 2 ^ (16 + i))"
proof -
  have lt: "2 ^ (16 + i) + 2 ^ (15 + i) \<le> (2 :: nat) ^ (16 + j)" if "i < j" for i j :: nat
  proof -
    have "2 ^ (16 + i) + 2 ^ (15 + i) \<le> (2 :: nat) ^ (16 + Suc i)" by (simp add: power_add)
    also have "\<dots> \<le> 2 ^ (16 + j)" using that by (intro power_increasing) simp_all
    finally show ?thesis .
  qed
  have "{2 ^ (16 + i)..<2 ^ (16 + i) + 2 ^ (15 + i)} \<inter> {2 ^ (16 + j)..<2 ^ (16 + j) + 2 ^ (15 + j)} = ({} :: nat set)"
    if "i \<noteq> j" for i j :: nat
    using that lt [of i j] lt [of j i] by (cases "i < j") auto
  then show ?thesis by (simp add: maps_disjoint_def)
qed

theorem arena_objects_disjoint_witness:
  "\<exists>as s. bindR (ArenaAlloc (\<lambda>i. 2 ^ (16 + i))) (alloc_many (\<lambda>i. 2 ^ (16 + i)) 48 3) = Inr (as, s) \<and> length as = 3"
  using arena_objects_disjoint [OF example_maps, of 48 3] by auto

end
