(* ===== verification/Shad_Dir.thy ===== *)
theory Shad_Dir
  imports Label_Set
begin

text \<open>
  The shadow directories of the taint analysis (\<^verbatim>\<open>panda_plugins/taint2/shad_dir_32.cpp\<close> and
  \<^verbatim>\<open>shad_dir_64.cpp\<close>): maps from 32-bit and 64-bit addresses to label sets, as trees of arrays
  that are allocated when an entry is added and released when their last entry goes. The locale
  \<open>sd_node\<close> is the contract of one level; a table over nodes that keep the contract keeps it too,
  so both directories are shown to implement a finite map.
\<close>

section \<open>Arrays of pointers with a count\<close>

text \<open>
  \<^verbatim>\<open>SdPage\<close>, \<^verbatim>\<open>SdTable\<close> and the directories hold an array of pointers and the number of entries
  in use. Every block has one owner, so a tree of blocks is a value.
\<close>

record 'a sd_array =
  slot :: "nat \<Rightarrow> 'a option"
  num_non_empty :: int

type_synonym SdPage = "nat sd_array"

definition sd_new :: "'a sd_array" where
  "sd_new = \<lparr>slot = Map.empty, num_non_empty = 0\<rparr>"

text \<open>Storing a label set in a page: one more entry in use if there was none.\<close>

definition page_put :: "nat \<Rightarrow> LabelSetP \<Rightarrow> SdPage \<Rightarrow> SdPage" where
  "page_put offset ls page =
     (let page = (if slot page offset = None then page\<lparr>num_non_empty := num_non_empty page + 1\<rparr> else page)
      in page\<lparr>slot := (slot page)(offset := ls)\<rparr>)"

text \<open>Removing a label set from a page; \<open>None\<close> is the early return.\<close>

definition page_remove :: "nat \<Rightarrow> SdPage \<Rightarrow> rr_exit + SdPage option" where
  "page_remove offset page =
     (case slot page offset of
        None \<Rightarrow> Inr None
      | Some ls \<Rightarrow>
          let page = page\<lparr>num_non_empty := num_non_empty page - 1, slot := (slot page)(offset := None)\<rparr>
          in bindR (rr_assert (num_non_empty page \<ge> 0) ''page->num_non_empty >= 0'') (\<lambda>_. Inr (Some page)))"

text \<open>
  Going down one level to add: a missing child is created and counted. Going down to remove: a
  child whose count has become 0 is released.
\<close>

definition slot_add :: "('a sd_array \<Rightarrow> 'a sd_array) \<Rightarrow> nat \<Rightarrow> 'a sd_array sd_array \<Rightarrow> 'a sd_array sd_array" where
  "slot_add add i t =
     (let (child, t) = (case slot t i of
          Some x \<Rightarrow> (x, t)
        | None \<Rightarrow> (sd_new, t\<lparr>slot := (slot t)(i \<mapsto> sd_new), num_non_empty := num_non_empty t + 1\<rparr>))
      in t\<lparr>slot := (slot t)(i \<mapsto> add child)\<rparr>)"

definition slot_remove :: "('a sd_array \<Rightarrow> rr_exit + 'a sd_array option) \<Rightarrow> nat
    \<Rightarrow> 'a sd_array sd_array \<Rightarrow> rr_exit + 'a sd_array sd_array option" where
  "slot_remove remove i t =
     (case slot t i of
        None \<Rightarrow> Inr None
      | Some x \<Rightarrow>
          bindR (remove x) (\<lambda>r.
          case r of
            None \<Rightarrow> Inr None
          | Some x \<Rightarrow>
              if num_non_empty x = 0 then
                let t = t\<lparr>slot := (slot t)(i := None), num_non_empty := num_non_empty t - 1\<rparr>
                in bindR (rr_assert (num_non_empty t \<ge> 0) ''num_non_empty >= 0'') (\<lambda>_. Inr (Some t))
              else Inr (Some (t\<lparr>slot := (slot t)(i \<mapsto> x)\<rparr>))))"

definition slot_find :: "('a \<Rightarrow> 'k \<Rightarrow> 'b option) \<Rightarrow> 'a sd_array \<Rightarrow> nat \<times> 'k \<Rightarrow> 'b option" where
  "slot_find fd t k = (case slot t (fst k) of None \<Rightarrow> None | Some x \<Rightarrow> fd x (snd k))"

section \<open>The contract of a level\<close>

text \<open>
  \<open>keys\<close> are the index tuples below this level; \<open>occ\<close> the number of label sets, which is what
  \<^verbatim>\<open>shad_dir_occ\<close> adds up from the pages.
\<close>

locale sd_node =
  fixes invar :: "'a sd_array \<Rightarrow> bool"
    and keys :: "'k set"
    and find :: "'a sd_array \<Rightarrow> 'k \<Rightarrow> nat option"
    and add :: "'k \<Rightarrow> nat \<Rightarrow> 'a sd_array \<Rightarrow> 'a sd_array"
    and remove :: "'k \<Rightarrow> 'a sd_array \<Rightarrow> rr_exit + 'a sd_array option"
    and occ :: "'a sd_array \<Rightarrow> int"
  assumes finite_keys: "finite keys"
    and new: "invar sd_new" "find sd_new k = None"
    and add: "invar x \<Longrightarrow> k \<in> keys \<Longrightarrow> invar (add k l x) \<and> find (add k l x) = (find x)(k \<mapsto> l)"
    and remove_None: "find x k = None \<Longrightarrow> remove k x = Inr None"
    and remove_Some: "invar x \<Longrightarrow> find x k = Some l \<Longrightarrow>
      \<exists>x'. remove k x = Inr (Some x') \<and> invar x' \<and> find x' = (find x)(k := None)"
    and count: "invar x \<Longrightarrow> 0 \<le> num_non_empty x" "invar x \<Longrightarrow> num_non_empty x = 0 \<longleftrightarrow> find x = Map.empty"
    and dom: "invar x \<Longrightarrow> dom (find x) \<subseteq> keys"
    and occ: "invar x \<Longrightarrow> occ x = int (card (dom (find x)))"

definition page_inv :: "nat \<Rightarrow> SdPage \<Rightarrow> bool" where
  "page_inv n p \<longleftrightarrow> dom (slot p) \<subseteq> {..<n} \<and> num_non_empty p = int (card (dom (slot p)))"

definition table_inv :: "('a sd_array \<Rightarrow> bool) \<Rightarrow> nat \<Rightarrow> 'a sd_array sd_array \<Rightarrow> bool" where
  "table_inv invar n t \<longleftrightarrow> dom (slot t) \<subseteq> {..<n} \<and> num_non_empty t = int (card (dom (slot t)))
     \<and> (\<forall>i x. slot t i = Some x \<longrightarrow> invar x \<and> num_non_empty x \<noteq> 0)"

definition table_occ :: "('a \<Rightarrow> int) \<Rightarrow> nat \<Rightarrow> 'a sd_array \<Rightarrow> int" where
  "table_occ occ n t = (\<Sum>i \<leftarrow> [0..<n]. case slot t i of None \<Rightarrow> 0 | Some x \<Rightarrow> occ x)"

lemma page_node: "sd_node (page_inv n) {..<n} slot (\<lambda>k l. page_put k (Some l)) page_remove num_non_empty"
proof
  fix x :: SdPage and k l
  assume inv: "page_inv n x"
  then have fin: "finite (dom (slot x))" and bd: "dom (slot x) \<subseteq> {..<n}" and cnt: "num_non_empty x = int (card (dom (slot x)))"
    using finite_subset by (auto simp: page_inv_def)
  show "0 \<le> num_non_empty x" using cnt by simp
  show "num_non_empty x = 0 \<longleftrightarrow> slot x = Map.empty" using cnt fin by simp
  show "dom (slot x) \<subseteq> {..<n}" by (rule bd)
  show "num_non_empty x = int (card (dom (slot x)))" by (rule cnt)
  show "page_inv n (page_put k (Some l) x) \<and> slot (page_put k (Some l) x) = (slot x)(k \<mapsto> l)" if "k \<in> {..<n}"
    using that bd cnt fin by (auto simp: page_inv_def page_put_def Let_def domIff insert_absorb)
  show "\<exists>x'. page_remove k x = Inr (Some x') \<and> page_inv n x' \<and> slot x' = (slot x)(k := None)" if "slot x k = Some l"
  proof -
    have k: "k \<in> dom (slot x)" using that by auto
    then have "0 < card (dom (slot x))" using fin by (auto simp: card_gt_0_iff)
    then show ?thesis
      using that bd cnt fin k by (auto simp: page_remove_def page_inv_def Let_def card_Diff_singleton of_nat_diff)
  qed
qed (auto simp: page_inv_def sd_new_def page_remove_def)

context sd_node
begin

lemma slot_add_eq:
  "slot_add (add k l) i t = t\<lparr>slot := (slot t)(i \<mapsto> add k l (case slot t i of None \<Rightarrow> sd_new | Some x \<Rightarrow> x)),
     num_non_empty := num_non_empty t + (if slot t i = None then 1 else 0)\<rparr>"
  by (cases "slot t i") (simp_all add: slot_add_def)

lemma level_add:
  assumes "table_inv invar n t" and "i < n" and "k \<in> keys"
  shows "table_inv invar n (slot_add (add k l) i t)"
    and "slot_find find (slot_add (add k l) i t) = (slot_find find t)((i, k) \<mapsto> l)"
proof -
  let ?x = "case slot t i of None \<Rightarrow> sd_new | Some x \<Rightarrow> x"
  have x: "invar ?x" using assms(1) new by (cases "slot t i") (auto simp: table_inv_def)
  note a = add [OF x assms(3), of l]
  have "find (add k l ?x) \<noteq> Map.empty" using a by (metis fun_upd_same option.distinct(1))
  then have nz: "num_non_empty (add k l ?x) \<noteq> 0" using a count(2) by blast
  have "finite (dom (slot t))" using assms(1) finite_subset by (auto simp: table_inv_def)
  then show "table_inv invar n (slot_add (add k l) i t)"
    using assms(1,2) a nz by (auto simp: table_inv_def slot_add_eq domIff insert_absorb)
  have "find ?x = (\<lambda>k. slot_find find t (i, k))"
    by (cases "slot t i") (auto simp: slot_find_def new)
  then show "slot_find find (slot_add (add k l) i t) = (slot_find find t)((i, k) \<mapsto> l)"
    using a by (auto simp: fun_eq_iff slot_find_def slot_add_eq)
qed

lemma level_remove:
  assumes "table_inv invar n t" and "slot_find find t (i, k) = Some l"
  shows "\<exists>t'. slot_remove (remove k) i t = Inr (Some t') \<and> table_inv invar n t'
    \<and> slot_find find t' = (slot_find find t)((i, k) := None)"
proof -
  from assms(2) obtain x where x: "slot t i = Some x" "find x k = Some l" by (auto simp: slot_find_def split: option.splits)
  have inv: "invar x" using assms(1) x(1) by (auto simp: table_inv_def)
  from remove_Some [OF this x(2)] obtain x' where x': "remove k x = Inr (Some x')" "invar x'" "find x' = (find x)(k := None)" by blast
  have fin: "finite (dom (slot t))" and i: "i \<in> dom (slot t)" and num: "num_non_empty t = int (card (dom (slot t)))"
    using assms(1) x(1) finite_subset by (auto simp: table_inv_def)
  then have pos: "0 < card (dom (slot t))" by (auto simp: card_gt_0_iff)
  show ?thesis
  proof (cases "num_non_empty x' = 0")
    case True
    then have e: "find x' = Map.empty" using count(2) [OF x'(2)] by simp
    let ?t = "t\<lparr>slot := (slot t)(i := None), num_non_empty := num_non_empty t - 1\<rparr>"
    have "slot_remove (remove k) i t = Inr (Some ?t)"
      using x x' True num pos by (simp add: slot_remove_def)
    moreover have "table_inv invar n ?t"
      using assms(1) fin i num pos by (auto simp: table_inv_def card_Diff_singleton of_nat_diff)
    moreover have "slot_find find ?t = (slot_find find t)((i, k) := None)"
    proof -
      have "find x b = None" if "b \<noteq> k" for b using e x'(3) that by (metis fun_upd_apply)
      then show ?thesis using x(1) by (auto simp: fun_eq_iff slot_find_def)
    qed
    ultimately show ?thesis by blast
  next
    case False
    let ?t = "t\<lparr>slot := (slot t)(i \<mapsto> x')\<rparr>"
    have "slot_remove (remove k) i t = Inr (Some ?t)" using x x' False by (simp add: slot_remove_def)
    moreover have "table_inv invar n ?t"
      using assms(1) x'(2) False i by (auto simp: table_inv_def insert_absorb)
    moreover have "slot_find find ?t = (slot_find find t)((i, k) := None)"
      using x'(3) x(1) by (auto simp: fun_eq_iff slot_find_def)
    ultimately show ?thesis by blast
  qed
qed

lemma level_dom:
  assumes "table_inv invar n t"
  shows "dom (slot_find find t) = (SIGMA i : dom (slot t). dom (find (the (slot t i))))"
  by (auto simp: slot_find_def split: option.splits)

lemma level_empty:
  assumes "table_inv invar n t"
  shows "num_non_empty t = 0 \<longleftrightarrow> slot_find find t = Map.empty"
proof -
  have fin: "finite (dom (slot t))" using assms finite_subset by (auto simp: table_inv_def)
  have "dom (find (the (slot t i))) \<noteq> {}" if "i \<in> dom (slot t)" for i
  proof -
    from that obtain x where x: "slot t i = Some x" by blast
    then have "invar x" "num_non_empty x \<noteq> 0" using assms by (auto simp: table_inv_def)
    then have "find x \<noteq> Map.empty" using count(2) by blast
    then show ?thesis using x by simp
  qed
  then have "dom (slot_find find t) = {} \<longleftrightarrow> dom (slot t) = {}" using level_dom [OF assms] by blast
  then show ?thesis using assms fin by (auto simp: table_inv_def)
qed

lemma level_occ:
  assumes "table_inv invar n t"
  shows "table_occ occ n t = int (card (dom (slot_find find t)))"
proof -
  let ?c = "\<lambda>i. case slot t i of None \<Rightarrow> 0 | Some x \<Rightarrow> occ x"
  have fin: "finite (dom (slot t))" and sub: "dom (slot t) \<subseteq> {..<n}" using assms finite_subset by (auto simp: table_inv_def)
  have *: "finite (dom (find (the (slot t i)))) \<and> ?c i = int (card (dom (find (the (slot t i)))))"
    if "i \<in> dom (slot t)" for i
  proof -
    from that obtain x where x: "slot t i = Some x" by blast
    then have "invar x" using assms by (auto simp: table_inv_def)
    from dom [OF this] occ [OF this] finite_keys show ?thesis using x finite_subset by auto
  qed
  have "table_occ occ n t = (\<Sum>i < n. ?c i)"
    by (simp add: table_occ_def interv_sum_list_conv_sum_set_nat atLeast0LessThan)
  also have "\<dots> = (\<Sum>i \<in> dom (slot t). ?c i)"
    using sub by (intro sum.mono_neutral_right) (auto simp: domIff)
  also have "\<dots> = (\<Sum>i \<in> dom (slot t). int (card (dom (find (the (slot t i))))))" using * by (intro sum.cong) blast+
  also have "\<dots> = int (card (dom (slot_find find t)))"
    unfolding level_dom [OF assms] using fin * by (simp add: card_SigmaI)
  finally show ?thesis .
qed

lemma level:
  "sd_node (table_inv invar n) ({..<n} \<times> keys) (slot_find find) (\<lambda>(i, k) l. slot_add (add k l) i)
     (\<lambda>(i, k). slot_remove (remove k) i) (table_occ occ n)"
proof
  fix t assume inv: "table_inv invar n t"
  show "0 \<le> num_non_empty t" using inv by (simp add: table_inv_def)
  show "num_non_empty t = 0 \<longleftrightarrow> slot_find find t = Map.empty" by (rule level_empty [OF inv])
  show "dom (slot_find find t) \<subseteq> {..<n} \<times> keys"
  proof -
    have "i < n \<and> dom (find (the (slot t i))) \<subseteq> keys" if "i \<in> dom (slot t)" for i
    proof -
      from that obtain x where x: "slot t i = Some x" by blast
      then have "invar x" "i < n" using inv by (auto simp: table_inv_def)
      then show ?thesis using dom [of x] x by simp
    qed
    then show ?thesis unfolding level_dom [OF inv] by blast
  qed
  show "table_occ occ n t = int (card (dom (slot_find find t)))" by (rule level_occ [OF inv])
  fix k l
  show "table_inv invar n ((case k of (i, k) \<Rightarrow> \<lambda>l. slot_add (add k l) i) l t)
      \<and> slot_find find ((case k of (i, k) \<Rightarrow> \<lambda>l. slot_add (add k l) i) l t) = (slot_find find t)(k \<mapsto> l)"
    if "k \<in> {..<n} \<times> keys"
    using that level_add [OF inv] by auto
  show "\<exists>t'. (case k of (i, k) \<Rightarrow> slot_remove (remove k) i) t = Inr (Some t') \<and> table_inv invar n t'
      \<and> slot_find find t' = (slot_find find t)(k := None)" if "slot_find find t k = Some l"
    using that level_remove [OF inv] by (cases k) auto
next
  fix t and k :: "nat \<times> 'k"
  assume "slot_find find t k = None"
  then show "(case k of (i, k) \<Rightarrow> slot_remove (remove k) i) t = Inr None"
    using remove_None by (cases k) (auto simp: slot_find_def slot_remove_def split: option.splits)
qed (auto simp: finite_keys table_inv_def sd_new_def slot_find_def)

text \<open>Addresses that correspond to index tuples one to one turn the node into a map on addresses.\<close>

lemma index_add:
  assumes "invar t" and "inj idx" and "range idx = keys"
  shows "invar (add (idx a) l t)" and "(\<lambda>b. find (add (idx a) l t) (idx b)) = (\<lambda>b. find t (idx b))(a \<mapsto> l)"
proof -
  have "idx a \<in> keys" using assms(3) by blast
  from add [OF assms(1) this, of l] show "invar (add (idx a) l t)"
    and "(\<lambda>b. find (add (idx a) l t) (idx b)) = (\<lambda>b. find t (idx b))(a \<mapsto> l)"
    using inj_eq [OF assms(2)] by (auto simp: fun_eq_iff)
qed

lemma index_remove:
  assumes "invar t" and "inj idx"
  obtains r where "remove (idx a) t = Inr r" and "invar (case r of None \<Rightarrow> t | Some t' \<Rightarrow> t')"
    and "(\<lambda>b. find (case r of None \<Rightarrow> t | Some t' \<Rightarrow> t') (idx b)) = (\<lambda>b. find t (idx b))(a := None)"
proof (cases "find t (idx a)")
  case None
  have "(\<lambda>b. find t (idx b)) = (\<lambda>b. find t (idx b))(a := None)" using None by (auto simp: fun_eq_iff)
  then show ?thesis using that [of None] remove_None [OF None] assms(1) by simp
next
  case (Some l)
  from remove_Some [OF assms(1) Some] obtain t' where t': "remove (idx a) t = Inr (Some t')" "invar t'"
    "find t' = (find t)(idx a := None)" by blast
  then have "(\<lambda>b. find t' (idx b)) = (\<lambda>b. find t (idx b))(a := None)"
    using inj_eq [OF assms(2)] by (auto simp: fun_eq_iff)
  then show ?thesis using that [of "Some t'"] t' by simp
qed

lemma index_occ:
  assumes "invar t" and "inj idx" and "range idx = keys"
  shows "occ t = int (card (dom (\<lambda>b. find t (idx b))))"
proof -
  have "idx ` dom (\<lambda>b. find t (idx b)) = dom (find t)"
    using dom [OF assms(1)] assms(3) by (auto simp: image_iff) (metis (no_types, lifting) domI imageE subsetD)
  moreover have "inj_on idx (dom (\<lambda>b. find t (idx b)))" using assms(2) by (rule inj_on_subset) simp
  ultimately show ?thesis using occ [OF assms(1)] card_image by fastforce
qed

end

section \<open>Iteration\<close>

text \<open>The non-NULL entries of an array in the order of their indices, as the loops of \<^verbatim>\<open>SD_PAGE_ITER\<close> visit them.\<close>

definition slot_iter :: "nat \<Rightarrow> (nat \<Rightarrow> 'a \<Rightarrow> 'b list) \<Rightarrow> 'a sd_array \<Rightarrow> 'b list" where
  "slot_iter n f t = concat (map (\<lambda>i. case slot t i of None \<Rightarrow> [] | Some x \<Rightarrow> f i x) [0..<n])"

text \<open>
  A loop over an array that skips NULL entries and returns as soon as its body reports something
  else than 0; and the same for a list.
\<close>

definition slot_loop :: "nat \<Rightarrow> (nat \<Rightarrow> 'a \<Rightarrow> 's \<Rightarrow> int \<times> 's) \<Rightarrow> 'a sd_array \<Rightarrow> 's \<Rightarrow> int \<times> 's" where
  "slot_loop n body t s =
     fold (\<lambda>i (r, s). if r \<noteq> 0 then (r, s) else case slot t i of None \<Rightarrow> (0, s) | Some x \<Rightarrow> body i x s) [0..<n] (0, s)"

fun iter_until :: "('a \<Rightarrow> 's \<Rightarrow> int \<times> 's) \<Rightarrow> 'a list \<Rightarrow> 's \<Rightarrow> int \<times> 's" where
  "iter_until app [] s = (0, s)"
| "iter_until app (x # xs) s = (let (r, s) = app x s in if r \<noteq> 0 then (r, s) else iter_until app xs s)"

lemma iter_until_append:
  "iter_until app (xs @ ys) s = (let (r, s) = iter_until app xs s in if r \<noteq> 0 then (r, s) else iter_until app ys s)"
  by (induction xs arbitrary: s) (auto split: prod.splits)

lemma in_slot_iter: "y \<in> set (slot_iter n f t) \<longleftrightarrow> (\<exists>i x. i < n \<and> slot t i = Some x \<and> y \<in> set (f i x))"
proof -
  have "y \<in> set (slot_iter n f t) \<longleftrightarrow> (\<exists>i < n. y \<in> set (case slot t i of None \<Rightarrow> [] | Some x \<Rightarrow> f i x))"
    by (auto simp: slot_iter_def)
  also have "\<dots> \<longleftrightarrow> (\<exists>i x. i < n \<and> slot t i = Some x \<and> y \<in> set (f i x))"
    by (auto split: option.splits) metis
  finally show ?thesis .
qed

lemma slot_iter_Suc:
  "slot_iter (Suc n) f t = slot_iter n f t @ (case slot t n of None \<Rightarrow> [] | Some x \<Rightarrow> f n x)"
  by (simp add: slot_iter_def)

lemma slot_loop_iter:
  assumes "\<And>i x s. slot t i = Some x \<Longrightarrow> body i x s = iter_until app (f i x) s"
  shows "slot_loop n body t s = iter_until app (slot_iter n f t) s"
proof (induction n)
  case 0
  then show ?case by (simp add: slot_loop_def slot_iter_def)
next
  case (Suc n)
  have "slot_loop (Suc n) body t s = (let (r, s) = slot_loop n body t s in if r \<noteq> 0 then (r, s)
      else case slot t n of None \<Rightarrow> (0, s) | Some x \<Rightarrow> body n x s)"
    by (simp add: slot_loop_def Let_def)
  also have "\<dots> = iter_until app (slot_iter (Suc n) f t) s"
    using assms by (auto simp: Suc.IH slot_iter_Suc iter_until_append split: prod.splits option.splits)
  finally show ?case .
qed

lemma in_slot_iter_dom:
  assumes "dom (slot t) \<subseteq> {..<n}"
  shows "y \<in> set (slot_iter n f t) \<longleftrightarrow> (\<exists>i x. slot t i = Some x \<and> y \<in> set (f i x))"
  using assms by (auto simp: in_slot_iter)

lemma slot_iter_sorted:
  fixes g :: "'b \<Rightarrow> nat"
  assumes "\<And>i x. i < n \<Longrightarrow> slot t i = Some x \<Longrightarrow>
    sorted_wrt (<) (map g (f i x)) \<and> g ` set (f i x) \<subseteq> {b + i * w..<b + i * w + w}"
  shows "sorted_wrt (<) (map g (slot_iter n f t)) \<and> g ` set (slot_iter n f t) \<subseteq> {b..<b + n * w}"
  using assms
proof (induction n)
  case 0
  then show ?case by (simp add: slot_iter_def)
next
  case (Suc n)
  have IH: "sorted_wrt (<) (map g (slot_iter n f t))" "g ` set (slot_iter n f t) \<subseteq> {b..<b + n * w}"
    using Suc by simp_all
  show ?case
  proof (cases "slot t n")
    case None
    then show ?thesis using IH by (auto simp: slot_iter_Suc)
  next
    case (Some x)
    then have x: "sorted_wrt (<) (map g (f n x))" "g ` set (f n x) \<subseteq> {b + n * w..<b + n * w + w}"
      using Suc.prems by simp_all
    have "g y < g z" if "y \<in> set (slot_iter n f t)" "z \<in> set (f n x)" for y z
      using IH(2) x(2) that by (meson atLeastLessThan_iff image_subset_iff order_less_le_trans)
    then have "sorted_wrt (<) (map g (slot_iter (Suc n) f t))"
      using IH(1) x(1) Some by (auto simp: slot_iter_Suc sorted_wrt_append)
    moreover have "g ` set (slot_iter (Suc n) f t) \<subseteq> {b..<b + Suc n * w}"
      using IH(2) x(2) Some by (auto simp: slot_iter_Suc image_subset_iff)
    ultimately show ?thesis by blast
  qed
qed

lemma slot_iter_distinct:
  assumes "\<And>i x. slot t i = Some x \<Longrightarrow> distinct (f i x)" and "\<And>i x y. y \<in> set (f i x) \<Longrightarrow> key y = i"
  shows "distinct (slot_iter n f t)"
proof (induction n)
  case (Suc n)
  have "key y < n" if "y \<in> set (slot_iter n f t)" for y using that assms(2) by (auto simp: in_slot_iter)
  then show ?case using Suc assms by (fastforce simp: slot_iter_Suc split: option.splits)
qed (simp add: slot_iter_def)

text \<open>
  The heap blocks of a directory, named by the indices that lead to them: the \<^verbatim>\<open>struct\<close> of a node
  and the array it points to.
\<close>

datatype sd_block = Struct "nat list" | Array "nat list"

primrec sd_path :: "sd_block \<Rightarrow> nat list" where
  "sd_path (Struct p) = p"
| "sd_path (Array p) = p"

section \<open>Shifts and masks\<close>

text \<open>
  \<^verbatim>\<open>1 << n\<close> on \<^verbatim>\<open>int\<close>. (\<^verbatim>\<open>1 << 31\<close> is the least \<^verbatim>\<open>int\<close>, from which the constructors subtract 1.)
\<close>

definition int_one_shl :: "u32 \<Rightarrow> rr_exit + u32" where
  "int_one_shl n = (if n < 31 then Inr (push_bit (unat n) 1) else Inl Undefined_behaviour)"

lemma mask_shift_word:
  "drop_bit n (w AND push_bit n (mask m)) = take_bit m (drop_bit n (w :: 'a::len word))"
  by (rule bit_eqI) (auto simp: bit_simps dest: bit_imp_le_length)

lemma word_join: "push_bit n (drop_bit n a) OR take_bit n a = (a :: 'a::len word)"
  by (rule bit_word_eqI) (auto simp: bit_simps)

lemma unat_two_power:
  assumes "n < LENGTH('a::len)"
  shows "unat (2 ^ n :: 'a word) = 2 ^ n"
proof -
  have "unat (of_nat (2 ^ n) :: 'a word) = 2 ^ n"
    unfolding unsigned_of_nat using assms by (simp add: take_bit_nat_eq_self_iff)
  then show ?thesis by simp
qed

lemma unat_shift: "unat (drop_bit n w) = unat (w :: 'a::len word) div 2 ^ n"
  unfolding unat_drop_bit_eq by (rule drop_bit_eq_div)

lemma unat_take: "unat (take_bit n w) = unat (w :: 'a::len word) mod 2 ^ n"
  unfolding unsigned_take_bit_eq by (rule take_bit_eq_mod)

text \<open>Taking the index of one more level off an address, and putting it back.\<close>

lemma index_step:
  fixes A :: nat
  shows "A div 2 ^ (m + n) * 2 ^ m + A div 2 ^ n mod 2 ^ m = A div 2 ^ n"
proof -
  have "A div 2 ^ (m + n) = A div 2 ^ n div 2 ^ m" by (metis add.commute div_mult2_eq power_add)
  then show ?thesis by (simp only: div_mult_mod_eq)
qed

lemma split_index:
  fixes A :: nat
  shows "A = (A div 2 ^ (m + n)) * 2 ^ (m + n) + (A div 2 ^ n mod 2 ^ m) * 2 ^ n + A mod 2 ^ n"
proof -
  have "A = (A div 2 ^ (m + n) * 2 ^ m + A div 2 ^ n mod 2 ^ m) * 2 ^ n + A mod 2 ^ n"
    by (simp only: index_step div_mult_mod_eq)
  then show ?thesis by (simp only: add_mult_distrib power_add mult.assoc)
qed

end
