(* ===== verification/Shad_Dir_32.thy ===== *)
theory Shad_Dir_32
  imports Shad_Dir
begin

text \<open>
  The shadow directory for 32-bit addresses (\<^verbatim>\<open>panda_plugins/taint2/shad_dir_32.cpp\<close>): a
  directory of tables of pages, shown to implement a finite map from addresses to label sets.
\<close>

section \<open>32-bit addresses\<close>

type_synonym SdTable = "SdPage sd_array"

record SdDir32 =
  num_dir_bits_32 :: u32
  num_table_bits_32 :: u32
  num_page_bits_32 :: u32
  dir_size_32 :: u32
  table_size_32 :: u32
  page_size_32 :: u32
  dir_mask_32 :: u32
  table_mask_32 :: u32
  page_mask_32 :: u32
  dir_shift_32 :: u32
  sd_table_32 :: "SdTable sd_array"

definition shad_dir_new_32 :: "u32 \<Rightarrow> u32 \<Rightarrow> u32 \<Rightarrow> rr_exit + SdDir32" where
  "shad_dir_new_32 num_dir_bits num_table_bits num_page_bits =
     bindR (rr_assert (num_dir_bits < 32 \<and> num_table_bits < 32 \<and> num_page_bits < 32)
       ''num_dir_bits < 32 && num_table_bits < 32 && num_page_bits < 32'') (\<lambda>_.
     bindR (rr_assert (32 = num_dir_bits + num_table_bits + num_page_bits)
       ''32 == num_dir_bits + num_table_bits + num_page_bits'') (\<lambda>_.
     bindR (int_one_shl num_dir_bits) (\<lambda>ds.
     bindR (int_one_shl num_table_bits) (\<lambda>ts.
     bindR (int_one_shl num_page_bits) (\<lambda>ps.
     let shift = num_table_bits + num_page_bits in
     if shift \<ge> 32 then Inl Undefined_behaviour else
     Inr \<lparr>num_dir_bits_32 = num_dir_bits, num_table_bits_32 = num_table_bits, num_page_bits_32 = num_page_bits,
       dir_size_32 = ds, table_size_32 = ts, page_size_32 = ps,
       dir_mask_32 = push_bit (unat shift) (ds - 1), table_mask_32 = push_bit (unat num_page_bits) (ts - 1),
       page_mask_32 = ps - 1, dir_shift_32 = shift, sd_table_32 = sd_new\<rparr>)))))"

text \<open>
  The indices that \<^verbatim>\<open>SD_GET_LABELSET_32\<close> computes. \<close>

definition sd_index_32 :: "SdDir32 \<Rightarrow> u32 \<Rightarrow> nat \<times> nat \<times> nat" where
  "sd_index_32 d addr =
     (unat (drop_bit (unat (dir_shift_32 d)) addr),
      unat (drop_bit (unat (num_page_bits_32 d)) (addr AND table_mask_32 d)),
      unat (addr AND page_mask_32 d))"

definition shad_dir_find_32 :: "SdDir32 \<Rightarrow> u32 \<Rightarrow> LabelSetP" where
  "shad_dir_find_32 d addr = slot_find (slot_find slot) (sd_table_32 d) (sd_index_32 d addr)"

definition shad_dir_mem_32 :: "SdDir32 \<Rightarrow> u32 \<Rightarrow> bool" where
  "shad_dir_mem_32 d addr \<longleftrightarrow> shad_dir_find_32 d addr \<noteq> None"

definition shad_dir_add_32 :: "SdDir32 \<Rightarrow> u32 \<Rightarrow> LabelSetP \<Rightarrow> SdDir32" where
  "shad_dir_add_32 d addr ls =
     (let (di, ti, offset) = sd_index_32 d addr
      in d\<lparr>sd_table_32 := slot_add (slot_add (page_put offset ls) ti) di (sd_table_32 d)\<rparr>)"

definition shad_dir_remove_32 :: "SdDir32 \<Rightarrow> u32 \<Rightarrow> rr_exit + SdDir32" where
  "shad_dir_remove_32 d addr =
     (let (di, ti, offset) = sd_index_32 d addr
      in bindR (slot_remove (slot_remove (page_remove offset) ti) di (sd_table_32 d)) (\<lambda>r.
         Inr (case r of None \<Rightarrow> d | Some t \<Rightarrow> d\<lparr>sd_table_32 := t\<rparr>)))"

definition shad_dir_occ_32 :: "SdDir32 \<Rightarrow> u32" where
  "shad_dir_occ_32 d = of_int (table_occ (table_occ num_non_empty (unat (table_size_32 d))) (unat (dir_size_32 d)) (sd_table_32 d))"

definition shad_dir_iter_32 :: "SdDir32 \<Rightarrow> (u32 \<times> nat \<Rightarrow> 's \<Rightarrow> int \<times> 's) \<Rightarrow> 's \<Rightarrow> 's" where
  "shad_dir_iter_32 d app s =
     snd (slot_loop (unat (dir_size_32 d)) (\<lambda>di. slot_loop (unat (table_size_32 d)) (\<lambda>ti page.
       let page_base_addr = push_bit (unat (dir_shift_32 d)) (of_nat di) OR push_bit (unat (num_page_bits_32 d)) (of_nat ti)
       in slot_loop (unat (page_size_32 d)) (\<lambda>ai ls. app (page_base_addr OR of_nat ai, ls)) page)) (sd_table_32 d) s)"

text \<open>The blocks of a directory, and the calls of \<^verbatim>\<open>free\<close> in their order.\<close>

definition sd_blocks_32 :: "SdDir32 \<Rightarrow> sd_block set" where
  "sd_blocks_32 d = {b. b = Array [] \<or> b = Struct []
     \<or> (\<exists>di table. slot (sd_table_32 d) di = Some table \<and> (b = Array [di] \<or> b = Struct [di]
          \<or> (\<exists>ti page. slot table ti = Some page \<and> (b = Array [di, ti] \<or> b = Struct [di, ti]))))}"

definition shad_dir_free_32 :: "SdDir32 \<Rightarrow> sd_block list" where
  "shad_dir_free_32 d =
     slot_iter (unat (dir_size_32 d)) (\<lambda>di table1.
       slot_iter (unat (table_size_32 d)) (\<lambda>ti page. [Array [di, ti], Struct [di, ti]]) table1
       @ [Array [di], Struct [di]]) (sd_table_32 d)
     @ [Array [], Struct []]"

definition sd32_geom :: "SdDir32 \<Rightarrow> nat \<Rightarrow> nat \<Rightarrow> nat \<Rightarrow> bool" where
  "sd32_geom d nd nt np \<longleftrightarrow> nd + nt + np = 32 \<and> 0 < nd \<and> nd < 31 \<and> nt < 31 \<and> np < 31
     \<and> unat (num_page_bits_32 d) = np \<and> dir_size_32 d = 2 ^ nd \<and> table_size_32 d = 2 ^ nt \<and> page_size_32 d = 2 ^ np
     \<and> table_mask_32 d = push_bit np (mask nt) \<and> page_mask_32 d = mask np \<and> unat (dir_shift_32 d) = nt + np"

definition sd32_tree :: "nat \<Rightarrow> nat \<Rightarrow> nat \<Rightarrow> SdTable sd_array \<Rightarrow> bool" where
  "sd32_tree nd nt np = table_inv (table_inv (page_inv (2 ^ np)) (2 ^ nt)) (2 ^ nd)"

definition sd32_inv :: "SdDir32 \<Rightarrow> bool" where
  "sd32_inv d \<longleftrightarrow> (\<exists>nd nt np. sd32_geom d nd nt np \<and> sd32_tree nd nt np (sd_table_32 d))"

interpretation pg: sd_node "page_inv n" "{..<n}" slot "\<lambda>k l. page_put k (Some l)" page_remove num_non_empty for n
  by (rule page_node)

interpretation tb: sd_node "table_inv (page_inv n) m" "{..<m} \<times> {..<n}" "slot_find slot"
    "\<lambda>(i, k) l. slot_add (page_put k (Some l)) i" "\<lambda>(i, k). slot_remove (page_remove k) i" "table_occ num_non_empty m" for n m
  by (rule pg.level)

interpretation dr: sd_node "table_inv (table_inv (page_inv n) m) r" "{..<r} \<times> {..<m} \<times> {..<n}" "slot_find (slot_find slot)"
    "\<lambda>(j, k) l. slot_add ((\<lambda>(i, k) l. slot_add (page_put k (Some l)) i) k l) j"
    "\<lambda>(j, k). slot_remove ((\<lambda>(i, k). slot_remove (page_remove k) i) k) j"
    "table_occ (table_occ num_non_empty m) r" for n m r
  by (rule tb.level)

lemma sd_index_32_nat:
  assumes "sd32_geom d nd nt np"
  shows "sd_index_32 d a = (unat a div 2 ^ (nt + np), unat a div 2 ^ np mod 2 ^ nt, unat a mod 2 ^ np)"
proof -
  have g: "unat (num_page_bits_32 d) = np" "table_mask_32 d = push_bit np (mask nt)" "page_mask_32 d = mask np"
    "unat (dir_shift_32 d) = nt + np" using assms by (simp_all add: sd32_geom_def)
  show ?thesis
    unfolding sd_index_32_def g mask_shift_word unat_shift unat_take take_bit_eq_mask [symmetric] ..
qed

lemma sd_index_32_bij:
  assumes g: "sd32_geom d nd nt np"
  shows "inj (sd_index_32 d)" and "range (sd_index_32 d) = {..<2 ^ nd} \<times> {..<2 ^ nt} \<times> {..<2 ^ np}"
proof -
  show inj: "inj (sd_index_32 d)"
  proof (rule injI)
    fix a b assume "sd_index_32 d a = sd_index_32 d b"
    then have "unat a = unat b"
      using split_index [of "unat a" nt np] split_index [of "unat b" nt np] by (simp add: sd_index_32_nat [OF g])
    then show "a = b" by (rule unsigned_word_eqI)
  qed
  have "unat a div 2 ^ (nt + np) < 2 ^ nd" for a :: u32
  proof -
    have "unat a < 2 ^ (nd + (nt + np))" using g unsigned_less [of a] by (simp add: sd32_geom_def add.assoc)
    then show ?thesis by (simp add: power_add less_mult_imp_div_less)
  qed
  then have sub: "range (sd_index_32 d) \<subseteq> {..<2 ^ nd} \<times> {..<2 ^ nt} \<times> {..<2 ^ np}"
    by (auto simp: sd_index_32_nat [OF g])
  have "card (range (sd_index_32 d)) = 2 ^ 32" using inj by (simp add: card_image card_word)
  also have "\<dots> = card ({..<2 ^ nd :: nat} \<times> {..<2 ^ nt :: nat} \<times> {..<2 ^ np :: nat})"
  proof -
    have "(2 :: nat) ^ 32 = 2 ^ (nd + (nt + np))" using g by (simp add: sd32_geom_def add.assoc)
    then show ?thesis by (simp only: power_add card_cartesian_product card_lessThan)
  qed
  finally show "range (sd_index_32 d) = {..<2 ^ nd} \<times> {..<2 ^ nt} \<times> {..<2 ^ np}"
    using sub by (intro card_subset_eq) simp_all
qed

section \<open>The directory is a map\<close>

text \<open>The addresses that the iteration rebuilds from the indices are the ones looked up.\<close>

definition sd_addr_32 :: "SdDir32 \<Rightarrow> nat \<Rightarrow> nat \<Rightarrow> nat \<Rightarrow> u32" where
  "sd_addr_32 d di ti ai = (push_bit (unat (dir_shift_32 d)) (of_nat di)
     OR push_bit (unat (num_page_bits_32 d)) (of_nat ti)) OR of_nat ai"

lemma sd_addr_index_32:
  assumes g: "sd32_geom d nd nt np" and "sd_index_32 d a = (di, ti, ai)"
  shows "sd_addr_32 d di ti ai = a"
proof -
  have g': "unat (num_page_bits_32 d) = np" "table_mask_32 d = push_bit np (mask nt)" "page_mask_32 d = mask np"
    "unat (dir_shift_32 d) = nt + np" using g by (simp_all add: sd32_geom_def)
  have "of_nat di = drop_bit (nt + np) a" "of_nat ti = take_bit nt (drop_bit np a)" "of_nat ai = take_bit np a"
    using assms(2) unfolding sd_index_32_def g' mask_shift_word take_bit_eq_mask [symmetric] by auto
  then have "sd_addr_32 d di ti ai =
      push_bit np (push_bit nt (drop_bit nt (drop_bit np a)) OR take_bit nt (drop_bit np a)) OR take_bit np a"
    unfolding sd_addr_32_def g' by (simp add: push_bit_or ac_simps)
  then show ?thesis by (simp only: word_join)
qed

lemma sd32_inv_obtain:
  assumes "sd32_inv d"
  obtains nd nt np where "sd32_geom d nd nt np" and "sd32_tree nd nt np (sd_table_32 d)"
  using assms by (auto simp: sd32_inv_def)

lemma shad_dir_new_32_ok:
  assumes "shad_dir_new_32 nd nt np = Inr d"
  shows "sd32_inv d" and "shad_dir_find_32 d = Map.empty"
proof -
  have b: "nd < 31" "nt < 31" "np < 31" "nt + np < 32" "32 = nd + nt + np"
    using assms by (auto simp: shad_dir_new_32_def int_one_shl_def rr_assert_def not_le Let_def split: if_splits)
  then have u: "unat nd < 31" "unat nt < 31" "unat np < 31" by (simp_all add: word_less_nat_alt)
  have u2: "unat (nt + np) = unat nt + unat np" using u by (subst unat_add_lem [THEN iffD1]) simp_all
  have u3: "unat (nd + (nt + np)) = unat nd + unat (nt + np)"
    using u u2 b(4) by (subst unat_add_lem [THEN iffD1]) (simp_all add: word_less_nat_alt)
  have sum: "unat nd + unat nt + unat np = 32"
    using arg_cong [OF b(5), of unat] u2 u3 by (simp add: add.assoc)
  moreover have "0 < unat nd" using b(4) sum u2 by (simp add: word_less_nat_alt)
  moreover have d: "d = \<lparr>num_dir_bits_32 = nd, num_table_bits_32 = nt, num_page_bits_32 = np,
       dir_size_32 = push_bit (unat nd) 1, table_size_32 = push_bit (unat nt) 1, page_size_32 = push_bit (unat np) 1,
       dir_mask_32 = push_bit (unat (nt + np)) (push_bit (unat nd) 1 - 1),
       table_mask_32 = push_bit (unat np) (push_bit (unat nt) 1 - 1),
       page_mask_32 = push_bit (unat np) 1 - 1, dir_shift_32 = nt + np, sd_table_32 = sd_new\<rparr>"
    using assms by (auto simp: shad_dir_new_32_def int_one_shl_def rr_assert_def Let_def split: if_splits)
  ultimately have "sd32_geom d (unat nd) (unat nt) (unat np)"
    using u u2 by (simp add: sd32_geom_def mask_eq_exp_minus_1 push_bit_eq_mult)
  moreover have "sd32_tree (unat nd) (unat nt) (unat np) (sd_table_32 d)" using dr.new(1) by (simp add: d sd32_tree_def)
  ultimately show "sd32_inv d" by (auto simp: sd32_inv_def)
  show "shad_dir_find_32 d = Map.empty" using dr.new(2) by (simp add: fun_eq_iff shad_dir_find_32_def d)
qed

lemma sd_index_32_cong:
  "sd_index_32 (d\<lparr>sd_table_32 := t\<rparr>) = sd_index_32 d" "sd32_geom (d\<lparr>sd_table_32 := t\<rparr>) = sd32_geom d"
  by (simp_all add: fun_eq_iff sd_index_32_def sd32_geom_def)

lemma shad_dir_add_32_ok:
  assumes "sd32_inv d"
  shows "sd32_inv (shad_dir_add_32 d a (Some l))"
    and "shad_dir_find_32 (shad_dir_add_32 d a (Some l)) = (shad_dir_find_32 d)(a \<mapsto> l)"
proof -
  from assms obtain nd nt np where g: "sd32_geom d nd nt np" and t: "sd32_tree nd nt np (sd_table_32 d)"
    by (rule sd32_inv_obtain)
  have e: "shad_dir_add_32 d a (Some l) = d\<lparr>sd_table_32 :=
      (\<lambda>(j, k) l. slot_add ((\<lambda>(i, k) l. slot_add (page_put k (Some l)) i) k l) j) (sd_index_32 d a) l (sd_table_32 d)\<rparr>"
    by (simp add: shad_dir_add_32_def split: prod.splits)
  note add = dr.index_add [OF t [unfolded sd32_tree_def] sd_index_32_bij [OF g], of a l]
  show "sd32_inv (shad_dir_add_32 d a (Some l))"
    using add(1) g by (auto simp: e sd32_inv_def sd32_tree_def sd_index_32_cong)
  show "shad_dir_find_32 (shad_dir_add_32 d a (Some l)) = (shad_dir_find_32 d)(a \<mapsto> l)"
    using add(2) by (simp add: e shad_dir_find_32_def [abs_def] sd_index_32_cong)
qed

lemma shad_dir_remove_32_ok:
  assumes "sd32_inv d"
  shows "\<exists>d'. shad_dir_remove_32 d a = Inr d' \<and> sd32_inv d' \<and> shad_dir_find_32 d' = (shad_dir_find_32 d)(a := None)"
proof -
  from assms obtain nd nt np where g: "sd32_geom d nd nt np" and t: "sd32_tree nd nt np (sd_table_32 d)"
    by (rule sd32_inv_obtain)
  from dr.index_remove [OF t [unfolded sd32_tree_def] sd_index_32_bij(1) [OF g], of a] obtain r where
    r: "(case sd_index_32 d a of (j, k) \<Rightarrow> slot_remove (case k of (i, k) \<Rightarrow> slot_remove (page_remove k) i) j) (sd_table_32 d) = Inr r"
    "sd32_tree nd nt np (case r of None \<Rightarrow> sd_table_32 d | Some t' \<Rightarrow> t')"
    "(\<lambda>b. slot_find (slot_find slot) (case r of None \<Rightarrow> sd_table_32 d | Some t' \<Rightarrow> t') (sd_index_32 d b))
       = (shad_dir_find_32 d)(a := None)"
    unfolding sd32_tree_def shad_dir_find_32_def [abs_def] by blast
  have "shad_dir_remove_32 d a = Inr (case r of None \<Rightarrow> d | Some t \<Rightarrow> d\<lparr>sd_table_32 := t\<rparr>)"
    using r(1) by (simp add: shad_dir_remove_32_def split: prod.splits)
  then show ?thesis
    using r(2,3) g assms by (cases r) (auto simp: sd32_inv_def shad_dir_find_32_def [abs_def] sd_index_32_cong)
qed

lemma shad_dir_occ_32_ok:
  assumes "sd32_inv d"
  shows "shad_dir_occ_32 d = of_nat (card (dom (shad_dir_find_32 d)))"
proof -
  from assms obtain nd nt np where g: "sd32_geom d nd nt np" and t: "sd32_tree nd nt np (sd_table_32 d)"
    by (rule sd32_inv_obtain)
  have "unat (dir_size_32 d) = 2 ^ nd" "unat (table_size_32 d) = 2 ^ nt"
    using g by (simp_all add: sd32_geom_def unat_two_power)
  then show ?thesis
    using dr.index_occ [OF t [unfolded sd32_tree_def] sd_index_32_bij [OF g]]
    by (simp add: shad_dir_occ_32_def shad_dir_find_32_def [abs_def])
qed

text \<open>The entries in the order in which the loops meet them.\<close>

definition sd_entries_32 :: "SdDir32 \<Rightarrow> (u32 \<times> nat) list" where
  "sd_entries_32 d =
     slot_iter (unat (dir_size_32 d)) (\<lambda>di. slot_iter (unat (table_size_32 d)) (\<lambda>ti.
       slot_iter (unat (page_size_32 d)) (\<lambda>ai ls. [(sd_addr_32 d di ti ai, ls)]))) (sd_table_32 d)"

lemma shad_dir_iter_32_eq: "shad_dir_iter_32 d app s = snd (iter_until app (sd_entries_32 d) s)"
proof -
  have "slot_loop (unat (dir_size_32 d)) (\<lambda>di. slot_loop (unat (table_size_32 d)) (\<lambda>ti.
      slot_loop (unat (page_size_32 d)) (\<lambda>ai ls. app (sd_addr_32 d di ti ai, ls)))) (sd_table_32 d) s
    = iter_until app (sd_entries_32 d) s"
    unfolding sd_entries_32_def by (intro slot_loop_iter) (auto split: prod.splits)
  then show ?thesis by (simp add: shad_dir_iter_32_def sd_addr_32_def Let_def)
qed

lemma sd_addr_32_nat:
  assumes g: "sd32_geom d nd nt np" and "di < 2 ^ nd" "ti < 2 ^ nt" "ai < 2 ^ np"
  shows "sd_index_32 d (sd_addr_32 d di ti ai) = (di, ti, ai)"
    and "unat (sd_addr_32 d di ti ai) = di * 2 ^ (nt + np) + ti * 2 ^ np + ai"
proof -
  have "(di, ti, ai) \<in> range (sd_index_32 d)" using sd_index_32_bij(2) [OF g] assms by simp
  then obtain a where a: "sd_index_32 d a = (di, ti, ai)" by (metis imageE)
  then have "sd_addr_32 d di ti ai = a" by (rule sd_addr_index_32 [OF g])
  with a show "sd_index_32 d (sd_addr_32 d di ti ai) = (di, ti, ai)" by simp
  then show "unat (sd_addr_32 d di ti ai) = di * 2 ^ (nt + np) + ti * 2 ^ np + ai"
    using split_index [of "unat (sd_addr_32 d di ti ai)" nt np] by (simp add: sd_index_32_nat [OF g])
qed

lemma sd_entries_32_graph:
  assumes "sd32_inv d"
  shows "(a, l) \<in> set (sd_entries_32 d) \<longleftrightarrow> shad_dir_find_32 d a = Some l"
proof -
  from assms obtain nd nt np where g: "sd32_geom d nd nt np" and t: "sd32_tree nd nt np (sd_table_32 d)"
    by (rule sd32_inv_obtain)
  have s: "unat (dir_size_32 d) = 2 ^ nd" "unat (table_size_32 d) = 2 ^ nt" "unat (page_size_32 d) = 2 ^ np"
    using g by (simp_all add: sd32_geom_def unat_two_power)
  obtain di ti ai where i: "sd_index_32 d a = (di, ti, ai)" by (cases "sd_index_32 d a") auto
  then have b: "di < 2 ^ nd" "ti < 2 ^ nt" "ai < 2 ^ np"
    using rangeI [of "sd_index_32 d" a] unfolding sd_index_32_bij(2) [OF g] i by simp_all
  have "(a, l) \<in> set (sd_entries_32 d) \<longleftrightarrow> (\<exists>i x j y k. i < 2 ^ nd \<and> slot (sd_table_32 d) i = Some x
      \<and> j < 2 ^ nt \<and> slot x j = Some y \<and> k < 2 ^ np \<and> slot y k = Some l \<and> a = sd_addr_32 d i j k)"
    by (auto simp: sd_entries_32_def s in_slot_iter)
  also have "\<dots> \<longleftrightarrow> (\<exists>x y. slot (sd_table_32 d) di = Some x \<and> slot x ti = Some y \<and> slot y ai = Some l)"
    using sd_addr_32_nat(1) [OF g] sd_addr_index_32 [OF g i] i b by (metis Pair_inject)
  also have "\<dots> \<longleftrightarrow> shad_dir_find_32 d a = Some l"
    by (auto simp: shad_dir_find_32_def i slot_find_def split: option.splits)
  finally show ?thesis .
qed

lemma sd_entries_32_sorted:
  assumes "sd32_inv d"
  shows "sorted_wrt (<) (map (unat \<circ> fst) (sd_entries_32 d))"
proof -
  from assms obtain nd nt np where g: "sd32_geom d nd nt np" by (rule sd32_inv_obtain)
  have s: "unat (dir_size_32 d) = 2 ^ nd" "unat (table_size_32 d) = 2 ^ nt" "unat (page_size_32 d) = 2 ^ np"
    using g by (simp_all add: sd32_geom_def unat_two_power)
  let ?g = "unat \<circ> (fst :: u32 \<times> nat \<Rightarrow> u32)"
  let ?sorted = "\<lambda>b w xs. sorted_wrt (<) (map ?g xs) \<and> ?g ` set xs \<subseteq> {b..<b + w}"
  have page: "?sorted (di * 2 ^ (nt + np) + ti * 2 ^ np) (2 ^ np * 1) (slot_iter (2 ^ np) (\<lambda>ai ls. [(sd_addr_32 d di ti ai, ls)]) x)"
    if "di < 2 ^ nd" "ti < 2 ^ nt" for di ti x
    by (rule slot_iter_sorted) (use that in \<open>simp add: sd_addr_32_nat(2) [OF g]\<close>)
  have table: "?sorted (di * 2 ^ (nt + np)) (2 ^ nt * 2 ^ np) (slot_iter (2 ^ nt) (\<lambda>ti. slot_iter (2 ^ np) (\<lambda>ai ls. [(sd_addr_32 d di ti ai, ls)])) x)"
    if "di < 2 ^ nd" for di x
    by (rule slot_iter_sorted) (use that page in \<open>simp add: algebra_simps\<close>)
  have "?sorted 0 (2 ^ nd * 2 ^ (nt + np)) (sd_entries_32 d)"
    unfolding sd_entries_32_def s by (rule slot_iter_sorted) (use table in \<open>simp add: algebra_simps power_add\<close>)
  then show ?thesis by blast
qed

lemma shad_dir_free_32_ok:
  assumes "sd32_inv d"
  shows "set (shad_dir_free_32 d) = sd_blocks_32 d" and "distinct (shad_dir_free_32 d)"
proof -
  from assms obtain nd nt np where g: "sd32_geom d nd nt np" and t: "sd32_tree nd nt np (sd_table_32 d)"
    by (rule sd32_inv_obtain)
  have s: "unat (dir_size_32 d) = 2 ^ nd" "unat (table_size_32 d) = 2 ^ nt"
    using g by (simp_all add: sd32_geom_def unat_two_power)
  have b: "dom (slot (sd_table_32 d)) \<subseteq> {..<2 ^ nd}" using t by (simp add: sd32_tree_def table_inv_def)
  have c: "dom (slot x) \<subseteq> {..<2 ^ nt}" if "slot (sd_table_32 d) i = Some x" for i x
    using t that unfolding sd32_tree_def table_inv_def by blast
  have "b \<in> set (shad_dir_free_32 d) \<longleftrightarrow> b = Array [] \<or> b = Struct []
      \<or> (\<exists>i x. slot (sd_table_32 d) i = Some x \<and> (b = Array [i] \<or> b = Struct [i]
          \<or> (\<exists>j y. slot x j = Some y \<and> (b = Array [i, j] \<or> b = Struct [i, j]))))" for b
    by (auto simp: shad_dir_free_32_def s in_slot_iter_dom [OF b] in_slot_iter_dom [OF c] cong: conj_cong)
  then show "set (shad_dir_free_32 d) = sd_blocks_32 d" by (simp add: sd_blocks_32_def set_eq_iff)
  have "distinct (slot_iter m (\<lambda>ti page. [Array [di, ti], Struct [di, ti]]) x)" for m di and x :: SdTable
    by (rule slot_iter_distinct [where key = "\<lambda>b. sd_path b ! 1"]) auto
  then have "distinct (slot_iter m (\<lambda>ti page. [Array [di, ti], Struct [di, ti]]) x @ [Array [di], Struct [di]])" for m di and x :: SdTable
    by (auto simp: in_slot_iter)
  then have "distinct (slot_iter n (\<lambda>di table1. slot_iter m (\<lambda>ti page. [Array [di, ti], Struct [di, ti]]) table1
      @ [Array [di], Struct [di]]) x)" for n m and x :: "SdTable sd_array"
    by (rule slot_iter_distinct [where key = "\<lambda>b. hd (sd_path b)"]) (auto simp: in_slot_iter)
  then show "distinct (shad_dir_free_32 d)" by (auto simp: shad_dir_free_32_def in_slot_iter)
qed

section \<open>Properties\<close>

text \<open>
  C25: the 32-bit shadow directory is a finite map from addresses to label sets. In every directory
  that satisfies the invariant, adding a label set changes the entry of its address and no other,
  removing one cannot fail and clears that entry only, both keep the invariant, and
  \<^verbatim>\<open>shad_dir_occ_32\<close> returns the number of entries.
\<close>

theorem shad_dir_32_is_map:
  assumes "sd32_inv d"
  shows "sd32_inv (shad_dir_add_32 d a (Some l))
    \<and> shad_dir_find_32 (shad_dir_add_32 d a (Some l)) = (shad_dir_find_32 d)(a \<mapsto> l)
    \<and> (\<exists>d'. shad_dir_remove_32 d a = Inr d' \<and> sd32_inv d' \<and> shad_dir_find_32 d' = (shad_dir_find_32 d)(a := None))
    \<and> shad_dir_occ_32 d = of_nat (card (dom (shad_dir_find_32 d)))
    \<and> (shad_dir_mem_32 d a \<longleftrightarrow> a \<in> dom (shad_dir_find_32 d))"
  using shad_dir_add_32_ok [OF assms] shad_dir_remove_32_ok [OF assms] shad_dir_occ_32_ok [OF assms]
  by (auto simp: shad_dir_mem_32_def)

definition a_dir_32 :: SdDir32 where
  "a_dir_32 = (case shad_dir_new_32 12 10 10 of Inr d \<Rightarrow> shad_dir_add_32 d 0x12345678 (Some 7))"

lemma a_dir_32_inv: "sd32_inv a_dir_32"
proof -
  have "\<exists>d. shad_dir_new_32 12 10 10 = Inr d" by (simp add: shad_dir_new_32_def int_one_shl_def)
  then show ?thesis using shad_dir_new_32_ok(1) shad_dir_add_32_ok(1) by (auto simp: a_dir_32_def)
qed

theorem shad_dir_32_is_map_witness:
  "shad_dir_find_32 (shad_dir_add_32 a_dir_32 0x12345679 (Some 8)) = (shad_dir_find_32 a_dir_32)(0x12345679 \<mapsto> 8)"
  by (rule shad_dir_32_is_map [OF a_dir_32_inv, THEN conjunct2, THEN conjunct1])

text \<open>
  Iterating over a 32-bit directory applies the function to every entry of the map once, in
  the order of the addresses, until it returns something else than 0.
\<close>

theorem shad_dir_iter_32_all:
  assumes "sd32_inv d"
  shows "shad_dir_iter_32 d app s = snd (iter_until app (sd_entries_32 d) s)
    \<and> set (sd_entries_32 d) = {(a, l). shad_dir_find_32 d a = Some l}
    \<and> sorted_wrt (<) (map (unat \<circ> fst) (sd_entries_32 d))"
proof (intro conjI)
  show "set (sd_entries_32 d) = {(a, l). shad_dir_find_32 d a = Some l}"
    by (rule set_eqI) (simp add: sd_entries_32_graph [OF assms] split: prod.split)
qed (rule shad_dir_iter_32_eq sd_entries_32_sorted [OF assms])+

theorem shad_dir_iter_32_all_witness:
  "set (sd_entries_32 a_dir_32) = {(a, l). shad_dir_find_32 a_dir_32 a = Some l}"
  by (rule shad_dir_iter_32_all [OF a_dir_32_inv, THEN conjunct2, THEN conjunct1])

text \<open>\<^verbatim>\<open>shad_dir_free_32\<close> frees every block of the directory, and none of them twice.\<close>

theorem shad_dir_free_32_complete:
  assumes "sd32_inv d"
  shows "set (shad_dir_free_32 d) = sd_blocks_32 d \<and> distinct (shad_dir_free_32 d)"
  using shad_dir_free_32_ok [OF assms] by blast

theorem shad_dir_free_32_complete_witness: "distinct (shad_dir_free_32 a_dir_32)"
  by (rule shad_dir_free_32_complete [OF a_dir_32_inv, THEN conjunct2])

end
