(* ===== verification/Shad_Dir_64.thy ===== *)
theory Shad_Dir_64
  imports Shad_Dir_32
begin

text \<open>
  The shadow directory for 64-bit addresses (\<^verbatim>\<open>panda_plugins/taint2/shad_dir_64.cpp\<close>): a
  directory over three levels of tables and a level of pages, shown to implement a finite map from
  addresses to label sets.
\<close>

section \<open>State and operations\<close>

record SdDir64 =
  num_dir_bits_64 :: u32
  num_table_bits_64 :: u32
  num_page_bits_64 :: u32
  dir_size_64 :: u32
  table_size_64 :: u32
  page_size_64 :: u32
  dir_mask_64 :: u64
  table1_mask_64 :: u64
  table2_mask_64 :: u64
  table3_mask_64 :: u64
  page_mask_64 :: u64
  dir_shift_64 :: u64
  sd_table_64 :: "SdTable sd_array sd_array sd_array"

text \<open>
  The constructor shifts the \<^verbatim>\<open>int\<close> value of the directory mask by at least 33, which is undefined;
  nothing reads \<^verbatim>\<open>dir_mask\<close>, and what the shift leaves there is an argument of the model.
\<close>

definition shad_dir_new_64 :: "u64 \<Rightarrow> u32 \<Rightarrow> u32 \<Rightarrow> u32 \<Rightarrow> rr_exit + SdDir64" where
  "shad_dir_new_64 undefined_dir_mask num_dir_bits num_table_bits num_page_bits =
     bindR (rr_assert (num_dir_bits < 32 \<and> num_table_bits < 32 \<and> num_page_bits < 32)
       ''num_dir_bits < 32 && num_table_bits < 32 && num_page_bits < 32'') (\<lambda>_.
     bindR (rr_assert (64 = num_dir_bits + 3 * num_table_bits + num_page_bits)
       ''64 == num_dir_bits + 3*num_table_bits + num_page_bits'') (\<lambda>_.
     bindR (int_one_shl num_dir_bits) (\<lambda>ds.
     bindR (int_one_shl num_table_bits) (\<lambda>ts.
     bindR (int_one_shl num_page_bits) (\<lambda>ps.
     Inr \<lparr>num_dir_bits_64 = num_dir_bits, num_table_bits_64 = num_table_bits, num_page_bits_64 = num_page_bits,
       dir_size_64 = ds, table_size_64 = ts, page_size_64 = ps,
       dir_mask_64 = undefined_dir_mask,
       table1_mask_64 = push_bit (unat (2 * num_table_bits + num_page_bits)) (ucast (ts - 1)),
       table2_mask_64 = push_bit (unat (num_table_bits + num_page_bits)) (ucast (ts - 1)),
       table3_mask_64 = push_bit (unat num_page_bits) (ucast (ts - 1)),
       page_mask_64 = ucast (ps - 1), dir_shift_64 = ucast (3 * num_table_bits + num_page_bits),
       sd_table_64 = sd_new\<rparr>)))))"

text \<open>
  The indices that \<^verbatim>\<open>SD_GET_LABELSET_64\<close> computes. (With no directory bits the first shift would be
  by 64, which is undefined; the invariant below excludes that geometry.)
\<close>

definition sd_index_64 :: "SdDir64 \<Rightarrow> u64 \<Rightarrow> nat \<times> nat \<times> nat \<times> nat \<times> nat" where
  "sd_index_64 d addr =
     (let di = (ucast (drop_bit (unat (dir_shift_64 d)) addr) :: u32);
          sh = num_table_bits_64 d * 2 + num_page_bits_64 d;
          t1i = (ucast (drop_bit (unat sh) (addr AND table1_mask_64 d)) :: u32);
          sh = sh - num_table_bits_64 d;
          t2i = (ucast (drop_bit (unat sh) (addr AND table2_mask_64 d)) :: u32);
          sh = sh - num_table_bits_64 d;
          t3i = (ucast (drop_bit (unat sh) (addr AND table3_mask_64 d)) :: u32);
          offset = (ucast (addr AND page_mask_64 d) :: u32)
      in (unat di, unat t1i, unat t2i, unat t3i, unat offset))"

definition shad_dir_find_64 :: "SdDir64 \<Rightarrow> u64 \<Rightarrow> LabelSetP" where
  "shad_dir_find_64 d addr =
     slot_find (slot_find (slot_find (slot_find slot))) (sd_table_64 d) (sd_index_64 d addr)"

definition shad_dir_mem_64 :: "SdDir64 \<Rightarrow> u64 \<Rightarrow> bool" where
  "shad_dir_mem_64 d addr \<longleftrightarrow> shad_dir_find_64 d addr \<noteq> None"

definition shad_dir_add_64 :: "SdDir64 \<Rightarrow> u64 \<Rightarrow> LabelSetP \<Rightarrow> SdDir64" where
  "shad_dir_add_64 d addr ls =
     (let (di, t1i, t2i, t3i, offset) = sd_index_64 d addr
      in d\<lparr>sd_table_64 := slot_add (slot_add (slot_add (slot_add (page_put offset ls) t3i) t2i) t1i) di (sd_table_64 d)\<rparr>)"

definition shad_dir_remove_64 :: "SdDir64 \<Rightarrow> u64 \<Rightarrow> rr_exit + SdDir64" where
  "shad_dir_remove_64 d addr =
     (let (di, t1i, t2i, t3i, offset) = sd_index_64 d addr
      in bindR (slot_remove (slot_remove (slot_remove (slot_remove (page_remove offset) t3i) t2i) t1i) di (sd_table_64 d)) (\<lambda>r.
         Inr (case r of None \<Rightarrow> d | Some t \<Rightarrow> d\<lparr>sd_table_64 := t\<rparr>)))"

definition shad_dir_occ_64 :: "SdDir64 \<Rightarrow> u32" where
  "shad_dir_occ_64 d =
     (let n = unat (table_size_64 d)
      in of_int (table_occ (table_occ (table_occ (table_occ num_non_empty n) n) n) (unat (dir_size_64 d)) (sd_table_64 d)))"

definition sd_page_base_64 :: "SdDir64 \<Rightarrow> nat \<Rightarrow> nat \<Rightarrow> nat \<Rightarrow> nat \<Rightarrow> u64" where
  "sd_page_base_64 d di t1i t2i t3i =
     (let page_base_addr = of_nat di;
          page_base_addr = push_bit (unat (num_table_bits_64 d)) page_base_addr OR of_nat t1i;
          page_base_addr = push_bit (unat (num_table_bits_64 d)) page_base_addr OR of_nat t2i;
          page_base_addr = push_bit (unat (num_table_bits_64 d)) page_base_addr OR of_nat t3i
      in push_bit (unat (num_page_bits_64 d)) page_base_addr)"

definition shad_dir_iter_64 :: "SdDir64 \<Rightarrow> (u64 \<times> nat \<Rightarrow> 's \<Rightarrow> int \<times> 's) \<Rightarrow> 's \<Rightarrow> 's" where
  "shad_dir_iter_64 d app s =
     (let n = unat (table_size_64 d)
      in snd (slot_loop (unat (dir_size_64 d)) (\<lambda>di. slot_loop n (\<lambda>t1i. slot_loop n (\<lambda>t2i. slot_loop n (\<lambda>t3i.
           slot_loop (unat (page_size_64 d)) (\<lambda>ai ls. app (sd_page_base_64 d di t1i t2i t3i OR of_nat ai, ls))))))
           (sd_table_64 d) s))"

text \<open>The calls of \<^verbatim>\<open>free\<close>: \<^verbatim>\<open>shad_dir_free_aux_64\<close> frees the array of each page.\<close>

definition shad_dir_free_64 :: "SdDir64 \<Rightarrow> sd_block list" where
  "shad_dir_free_64 d =
     (let n = unat (table_size_64 d)
      in slot_iter (unat (dir_size_64 d)) (\<lambda>di. slot_iter n (\<lambda>t1i. slot_iter n (\<lambda>t2i. slot_iter n (\<lambda>t3i page.
           [Array [di, t1i, t2i, t3i]])))) (sd_table_64 d)
         @ [Array [], Struct []])"

section \<open>Geometry\<close>

definition sd64_geom :: "SdDir64 \<Rightarrow> nat \<Rightarrow> nat \<Rightarrow> nat \<Rightarrow> bool" where
  "sd64_geom d nd nt np \<longleftrightarrow> nd + 3 * nt + np = 64 \<and> 0 < nd \<and> nd < 31 \<and> nt < 31 \<and> np < 31
     \<and> unat (num_table_bits_64 d) = nt \<and> unat (num_page_bits_64 d) = np
     \<and> dir_size_64 d = 2 ^ nd \<and> table_size_64 d = 2 ^ nt \<and> page_size_64 d = 2 ^ np
     \<and> table1_mask_64 d = push_bit (nt + (nt + np)) (mask nt) \<and> table2_mask_64 d = push_bit (nt + np) (mask nt)
     \<and> table3_mask_64 d = push_bit np (mask nt) \<and> page_mask_64 d = mask np
     \<and> unat (dir_shift_64 d) = nt + (nt + (nt + np))"

lemma unat_ucast_less:
  assumes "unat w < 2 ^ 32"
  shows "unat (ucast (w :: u64) :: u32) = unat w"
  using assms by (simp add: unsigned_ucast_eq take_bit_nat_eq_self_iff)

lemma unat_small_arith:
  fixes x y :: u32
  shows "unat x + unat y < 2 ^ 32 \<Longrightarrow> unat (x + y) = unat x + unat y"
    and "unat x * unat y < 2 ^ 32 \<Longrightarrow> unat (x * y) = unat x * unat y"
    and "unat y \<le> unat x \<Longrightarrow> unat (x - y) = unat x - unat y"
  by (simp_all add: unat_add_lem [THEN iffD1] unat_mult_lem [THEN iffD1] unat_sub word_le_nat_alt)

lemma sd_index_64_nat:
  assumes g: "sd64_geom d nd nt np"
  shows "sd_index_64 d a = (unat a div 2 ^ (nt + (nt + (nt + np))), unat a div 2 ^ (nt + (nt + np)) mod 2 ^ nt,
    unat a div 2 ^ (nt + np) mod 2 ^ nt, unat a div 2 ^ np mod 2 ^ nt, unat a mod 2 ^ np)"
proof -
  have b: "nd + (nt + (nt + (nt + np))) = 64" "nd < 31" "nt < 31" "np < 31"
    and t: "unat (num_table_bits_64 d) = nt" and p: "unat (num_page_bits_64 d) = np"
    and m: "table1_mask_64 d = push_bit (nt + (nt + np)) (mask nt)" "table2_mask_64 d = push_bit (nt + np) (mask nt)"
      "table3_mask_64 d = push_bit np (mask nt)" "page_mask_64 d = mask np" "unat (dir_shift_64 d) = nt + (nt + (nt + np))"
    using g by (simp_all add: sd64_geom_def)
  let ?s1 = "num_table_bits_64 d * 2 + num_page_bits_64 d"
  have "unat (num_table_bits_64 d * 2) = nt * 2" using b t by (subst unat_small_arith(2)) simp_all
  then have s1: "unat ?s1 = nt + (nt + np)" using b p by (subst unat_small_arith(1)) simp_all
  then have s2: "unat (?s1 - num_table_bits_64 d) = nt + np" using t by (subst unat_small_arith(3)) simp_all
  then have s3: "unat (?s1 - num_table_bits_64 d - num_table_bits_64 d) = np" using t by (subst unat_small_arith(3)) simp_all
  have small: "(2 :: nat) ^ nt \<le> 2 ^ 32" "(2 :: nat) ^ np \<le> 2 ^ 32" "(2 :: nat) ^ nd \<le> 2 ^ 32"
    using b by (simp_all only: power_increasing_iff)
  have "unat (take_bit n w) < 2 ^ 32" if "n = nt \<or> n = np" for n and w :: u64
    unfolding unat_take using small that by (auto intro: order_less_le_trans [OF mod_less_divisor])
  then have c: "unat (ucast (take_bit nt w) :: u32) = unat w mod 2 ^ nt"
      "unat (ucast (take_bit np w) :: u32) = unat w mod 2 ^ np" for w :: u64
    by (simp_all add: unat_ucast_less flip: unat_take)
  have "unat a < 2 ^ (nd + (nt + (nt + (nt + np))))" using b(1) unsigned_less [of a] by simp
  then have "unat a div 2 ^ (nt + (nt + (nt + np))) < 2 ^ nd" by (simp add: power_add [of 2 nd] less_mult_imp_div_less)
  then have "unat (ucast (drop_bit (nt + (nt + (nt + np))) a) :: u32) = unat a div 2 ^ (nt + (nt + (nt + np)))"
    using small(3) by (subst unat_ucast_less) (simp_all only: unat_shift order_less_le_trans)
  then show ?thesis
    unfolding sd_index_64_def Let_def s1 s2 s3 m mask_shift_word take_bit_eq_mask [symmetric] c unat_shift by simp
qed

lemma sd_index_64_bij:
  assumes g: "sd64_geom d nd nt np"
  shows "inj (sd_index_64 d)" and "range (sd_index_64 d) = {..<2 ^ nd} \<times> {..<2 ^ nt} \<times> {..<2 ^ nt} \<times> {..<2 ^ nt} \<times> {..<2 ^ np}"
proof -
  have b: "nd + (nt + (nt + (nt + np))) = 64" using g by (simp add: sd64_geom_def)
  show inj: "inj (sd_index_64 d)"
  proof (rule injI)
    fix a b assume "sd_index_64 d a = sd_index_64 d b"
    then have "unat a div 2 ^ np = unat b div 2 ^ np" and "unat a mod 2 ^ np = unat b mod 2 ^ np"
      unfolding sd_index_64_nat [OF g] by (metis Pair_inject index_step)+
    then have "unat a = unat b" by (metis div_mult_mod_eq)
    then show "a = b" by (rule unsigned_word_eqI)
  qed
  have "unat a div 2 ^ (nt + (nt + (nt + np))) < 2 ^ nd" for a :: u64
  proof -
    have "unat a < 2 ^ (nd + (nt + (nt + (nt + np))))" using b unsigned_less [of a] by simp
    then show ?thesis by (simp add: power_add [of 2 nd] less_mult_imp_div_less)
  qed
  then have sub: "range (sd_index_64 d) \<subseteq> {..<2 ^ nd} \<times> {..<2 ^ nt} \<times> {..<2 ^ nt} \<times> {..<2 ^ nt} \<times> {..<2 ^ np}"
    by (auto simp: sd_index_64_nat [OF g])
  have "card (range (sd_index_64 d)) = 2 ^ 64" using inj by (simp add: card_image card_word)
  also have "\<dots> = card ({..<2 ^ nd :: nat} \<times> {..<2 ^ nt :: nat} \<times> {..<2 ^ nt :: nat} \<times> {..<2 ^ nt :: nat} \<times> {..<2 ^ np :: nat})"
    unfolding b [symmetric] by (simp only: power_add card_cartesian_product card_lessThan)
  finally show "range (sd_index_64 d) = {..<2 ^ nd} \<times> {..<2 ^ nt} \<times> {..<2 ^ nt} \<times> {..<2 ^ nt} \<times> {..<2 ^ np}"
    using sub by (intro card_subset_eq) simp_all
qed

section \<open>The directory is a map\<close>

definition sd64_tree :: "nat \<Rightarrow> nat \<Rightarrow> nat \<Rightarrow> SdTable sd_array sd_array sd_array \<Rightarrow> bool" where
  "sd64_tree nd nt np = table_inv (table_inv (table_inv (table_inv (page_inv (2 ^ np)) (2 ^ nt)) (2 ^ nt)) (2 ^ nt)) (2 ^ nd)"

definition sd64_inv :: "SdDir64 \<Rightarrow> bool" where
  "sd64_inv d \<longleftrightarrow> (\<exists>nd nt np. sd64_geom d nd nt np \<and> sd64_tree nd nt np (sd_table_64 d))"

interpretation d4: sd_node "table_inv (table_inv (table_inv (page_inv n) m) r) q" "{..<q} \<times> {..<r} \<times> {..<m} \<times> {..<n}"
    "slot_find (slot_find (slot_find slot))"
    "\<lambda>(h, k) l. slot_add ((\<lambda>(j, k) l. slot_add ((\<lambda>(i, k) l. slot_add (page_put k (Some l)) i) k l) j) k l) h"
    "\<lambda>(h, k). slot_remove ((\<lambda>(j, k). slot_remove ((\<lambda>(i, k). slot_remove (page_remove k) i) k) j) k) h"
    "table_occ (table_occ (table_occ num_non_empty m) r) q" for n m r q
  by (rule dr.level)

interpretation d5: sd_node "table_inv (table_inv (table_inv (table_inv (page_inv n) m) r) q) p"
    "{..<p} \<times> {..<q} \<times> {..<r} \<times> {..<m} \<times> {..<n}" "slot_find (slot_find (slot_find (slot_find slot)))"
    "\<lambda>(g, k) l. slot_add ((\<lambda>(h, k) l. slot_add ((\<lambda>(j, k) l. slot_add ((\<lambda>(i, k) l. slot_add (page_put k (Some l)) i) k l) j) k l) h) k l) g"
    "\<lambda>(g, k). slot_remove ((\<lambda>(h, k). slot_remove ((\<lambda>(j, k). slot_remove ((\<lambda>(i, k). slot_remove (page_remove k) i) k) j) k) h) k) g"
    "table_occ (table_occ (table_occ (table_occ num_non_empty m) r) q) p" for n m r q p
  by (rule d4.level)

lemma sd64_inv_obtain:
  assumes "sd64_inv d"
  obtains nd nt np where "sd64_geom d nd nt np" and "sd64_tree nd nt np (sd_table_64 d)"
  using assms by (auto simp: sd64_inv_def)

lemma sd64_sizes:
  assumes "sd64_geom d nd nt np"
  shows "unat (dir_size_64 d) = 2 ^ nd" "unat (table_size_64 d) = 2 ^ nt" "unat (page_size_64 d) = 2 ^ np"
  using assms by (simp_all add: sd64_geom_def unat_two_power)

lemma shad_dir_new_64_ok:
  assumes "shad_dir_new_64 u nd nt np = Inr d" and "0 < nd"
  shows "sd64_inv d" and "shad_dir_find_64 d = Map.empty"
proof -
  have b: "nd < 31" "nt < 31" "np < 31" "64 = nd + 3 * nt + np"
    using assms by (auto simp: shad_dir_new_64_def int_one_shl_def rr_assert_def not_le Let_def split: if_splits)
  then have u: "unat nd < 31" "unat nt < 31" "unat np < 31" "0 < unat nd"
    using assms(2) by (simp_all add: word_less_nat_alt)
  have u3: "unat (3 * nt) = 3 * unat nt" "unat (2 * nt) = 2 * unat nt" using u by (simp_all add: unat_small_arith)
  then have u2: "unat (3 * nt + np) = 3 * unat nt + unat np" "unat (2 * nt + np) = 2 * unat nt + unat np"
    "unat (nt + np) = unat nt + unat np" "unat (nd + 3 * nt) = unat nd + 3 * unat nt"
    using u by (simp_all add: unat_small_arith)
  have "unat (nd + 3 * nt + np) = unat nd + 3 * unat nt + unat np" using u u2 by (subst unat_small_arith(1)) simp_all
  then have sum: "unat nd + 3 * unat nt + unat np = 64" using arg_cong [OF b(4), of unat] by simp
  have d: "num_table_bits_64 d = nt" "num_page_bits_64 d = np" "dir_size_64 d = 2 ^ unat nd" "table_size_64 d = 2 ^ unat nt"
    "page_size_64 d = 2 ^ unat np" "sd_table_64 d = sd_new"
    "table1_mask_64 d = push_bit (unat (2 * nt + np)) (ucast (2 ^ unat nt - 1 :: u32))"
    "table2_mask_64 d = push_bit (unat (nt + np)) (ucast (2 ^ unat nt - 1 :: u32))"
    "table3_mask_64 d = push_bit (unat np) (ucast (2 ^ unat nt - 1 :: u32))"
    "page_mask_64 d = ucast (2 ^ unat np - 1 :: u32)" "dir_shift_64 d = ucast (3 * nt + np)"
    using assms by (auto simp: shad_dir_new_64_def int_one_shl_def rr_assert_def push_bit_eq_mult split: if_splits)
  have m: "ucast (2 ^ n - 1 :: u32) = (mask n :: u64)" if "n < 31" for n
    using that by (auto simp: bit_simps intro!: bit_word_eqI simp flip: mask_eq_exp_minus_1)
  have s: "unat (ucast (3 * nt + np) :: u64) = unat nt + (unat nt + (unat nt + unat np))"
    using u by (simp add: unsigned_ucast_eq u2 take_bit_nat_eq_self)
  have "unat (2 * nt + np) = unat nt + (unat nt + unat np)" using u2(2) by simp
  then have "sd64_geom d (unat nd) (unat nt) (unat np)"
    unfolding sd64_geom_def d s u2(3) m [OF u(2)] m [OF u(3)] using u sum by simp
  moreover have "sd64_tree (unat nd) (unat nt) (unat np) (sd_table_64 d)" using d5.new(1) by (simp add: d sd64_tree_def)
  ultimately show "sd64_inv d" by (auto simp: sd64_inv_def)
  show "shad_dir_find_64 d = Map.empty" using d5.new(2) by (simp add: fun_eq_iff shad_dir_find_64_def d)
qed

lemma sd_index_64_cong:
  "sd_index_64 (d\<lparr>sd_table_64 := t\<rparr>) = sd_index_64 d" "sd64_geom (d\<lparr>sd_table_64 := t\<rparr>) = sd64_geom d"
  by (simp_all add: fun_eq_iff sd_index_64_def sd64_geom_def)

lemma shad_dir_add_64_ok:
  assumes "sd64_inv d"
  shows "sd64_inv (shad_dir_add_64 d a (Some l))"
    and "shad_dir_find_64 (shad_dir_add_64 d a (Some l)) = (shad_dir_find_64 d)(a \<mapsto> l)"
proof -
  from assms obtain nd nt np where g: "sd64_geom d nd nt np" and t: "sd64_tree nd nt np (sd_table_64 d)"
    by (rule sd64_inv_obtain)
  note add = d5.index_add [OF t [unfolded sd64_tree_def] sd_index_64_bij [OF g], of a l]
  have e: "shad_dir_add_64 d a (Some l) = d\<lparr>sd_table_64 :=
      (\<lambda>(g, k) l. slot_add ((\<lambda>(h, k) l. slot_add ((\<lambda>(j, k) l. slot_add ((\<lambda>(i, k) l. slot_add (page_put k (Some l)) i) k l) j) k l) h) k l) g)
        (sd_index_64 d a) l (sd_table_64 d)\<rparr>"
    by (simp add: shad_dir_add_64_def split: prod.splits)
  show "sd64_inv (shad_dir_add_64 d a (Some l))"
    using add(1) g by (auto simp: e sd64_inv_def sd64_tree_def sd_index_64_cong)
  show "shad_dir_find_64 (shad_dir_add_64 d a (Some l)) = (shad_dir_find_64 d)(a \<mapsto> l)"
    using add(2) by (simp add: e shad_dir_find_64_def [abs_def] sd_index_64_cong)
qed

lemma shad_dir_remove_64_ok:
  assumes "sd64_inv d"
  shows "\<exists>d'. shad_dir_remove_64 d a = Inr d' \<and> sd64_inv d' \<and> shad_dir_find_64 d' = (shad_dir_find_64 d)(a := None)"
proof -
  from assms obtain nd nt np where g: "sd64_geom d nd nt np" and t: "sd64_tree nd nt np (sd_table_64 d)"
    by (rule sd64_inv_obtain)
  from d5.index_remove [OF t [unfolded sd64_tree_def] sd_index_64_bij(1) [OF g], of a] obtain r where
    r: "(case sd_index_64 d a of (g, k) \<Rightarrow> slot_remove (case k of (h, k) \<Rightarrow> slot_remove (case k of (j, k) \<Rightarrow>
          slot_remove (case k of (i, k) \<Rightarrow> slot_remove (page_remove k) i) j) h) g) (sd_table_64 d) = Inr r"
    "sd64_tree nd nt np (case r of None \<Rightarrow> sd_table_64 d | Some t' \<Rightarrow> t')"
    "(\<lambda>b. slot_find (slot_find (slot_find (slot_find slot))) (case r of None \<Rightarrow> sd_table_64 d | Some t' \<Rightarrow> t') (sd_index_64 d b))
       = (shad_dir_find_64 d)(a := None)"
    unfolding sd64_tree_def shad_dir_find_64_def [abs_def] by blast
  have "shad_dir_remove_64 d a = Inr (case r of None \<Rightarrow> d | Some t \<Rightarrow> d\<lparr>sd_table_64 := t\<rparr>)"
    using r(1) by (simp add: shad_dir_remove_64_def split: prod.splits)
  then show ?thesis
    using r(2,3) g assms by (cases r) (auto simp: sd64_inv_def shad_dir_find_64_def [abs_def] sd_index_64_cong)
qed

lemma shad_dir_occ_64_ok:
  assumes "sd64_inv d"
  shows "shad_dir_occ_64 d = of_nat (card (dom (shad_dir_find_64 d)))"
proof -
  from assms obtain nd nt np where g: "sd64_geom d nd nt np" and t: "sd64_tree nd nt np (sd_table_64 d)"
    by (rule sd64_inv_obtain)
  show ?thesis
    using d5.index_occ [OF t [unfolded sd64_tree_def] sd_index_64_bij [OF g]]
    by (simp add: shad_dir_occ_64_def shad_dir_find_64_def [abs_def] sd64_sizes [OF g])
qed

section \<open>Iteration\<close>

definition sd_addr_64 :: "SdDir64 \<Rightarrow> nat \<Rightarrow> nat \<Rightarrow> nat \<Rightarrow> nat \<Rightarrow> nat \<Rightarrow> u64" where
  "sd_addr_64 d di t1i t2i t3i ai = sd_page_base_64 d di t1i t2i t3i OR of_nat ai"

definition sd_entries_64 :: "SdDir64 \<Rightarrow> (u64 \<times> nat) list" where
  "sd_entries_64 d =
     slot_iter (unat (dir_size_64 d)) (\<lambda>di. slot_iter (unat (table_size_64 d)) (\<lambda>t1i.
       slot_iter (unat (table_size_64 d)) (\<lambda>t2i. slot_iter (unat (table_size_64 d)) (\<lambda>t3i.
       slot_iter (unat (page_size_64 d)) (\<lambda>ai ls. [(sd_addr_64 d di t1i t2i t3i ai, ls)]))))) (sd_table_64 d)"

lemma shad_dir_iter_64_eq: "shad_dir_iter_64 d app s = snd (iter_until app (sd_entries_64 d) s)"
proof -
  have "slot_loop m (\<lambda>di. slot_loop n (\<lambda>t1i. slot_loop n (\<lambda>t2i. slot_loop n (\<lambda>t3i.
      slot_loop k (\<lambda>ai ls. app (sd_addr_64 d di t1i t2i t3i ai, ls)))))) x s
    = iter_until app (slot_iter m (\<lambda>di. slot_iter n (\<lambda>t1i. slot_iter n (\<lambda>t2i. slot_iter n (\<lambda>t3i.
      slot_iter k (\<lambda>ai ls. [(sd_addr_64 d di t1i t2i t3i ai, ls)]))))) x) s" for m n k x s
    by (intro slot_loop_iter) (auto split: prod.splits)
  then show ?thesis by (simp add: shad_dir_iter_64_def sd_entries_64_def sd_addr_64_def Let_def)
qed

lemma sd_addr_index_64:
  assumes g: "sd64_geom d nd nt np" and "sd_index_64 d a = (di, t1i, t2i, t3i, ai)"
  shows "sd_addr_64 d di t1i t2i t3i ai = a"
proof -
  have b: "unat (num_table_bits_64 d) = nt" "unat (num_page_bits_64 d) = np" using g by (simp_all add: sd64_geom_def)
  have o: "(of_nat (unat (w :: u64) div 2 ^ n) :: u64) = drop_bit n w" "(of_nat (unat w mod 2 ^ n) :: u64) = take_bit n w"
    "(of_nat (unat (w :: u64) div 2 ^ n mod 2 ^ m) :: u64) = take_bit m (drop_bit n w)" for w n m
    unfolding unat_shift [symmetric] unat_take [symmetric] by simp_all
  have "sd_addr_64 d di t1i t2i t3i ai = push_bit np (push_bit nt (push_bit nt (push_bit nt (drop_bit (nt + (nt + (nt + np))) a)
      OR take_bit nt (drop_bit (nt + (nt + np)) a)) OR take_bit nt (drop_bit (nt + np) a)) OR take_bit nt (drop_bit np a)) OR take_bit np a"
    using assms(2) unfolding sd_index_64_nat [OF g] sd_addr_64_def sd_page_base_64_def b Let_def by (auto simp only: o prod.inject)
  then show ?thesis by (simp only: drop_bit_drop_bit [symmetric] word_join)
qed

lemma sd_addr_64_nat:
  assumes g: "sd64_geom d nd nt np" and "di < 2 ^ nd" "t1i < 2 ^ nt" "t2i < 2 ^ nt" "t3i < 2 ^ nt" "ai < 2 ^ np"
  shows "sd_index_64 d (sd_addr_64 d di t1i t2i t3i ai) = (di, t1i, t2i, t3i, ai)"
    and "unat (sd_addr_64 d di t1i t2i t3i ai) = di * 2 ^ (nt + (nt + (nt + np))) + t1i * 2 ^ (nt + (nt + np)) + t2i * 2 ^ (nt + np) + t3i * 2 ^ np + ai"
proof -
  have "(di, t1i, t2i, t3i, ai) \<in> range (sd_index_64 d)" using sd_index_64_bij(2) [OF g] assms by simp
  then obtain a where a: "sd_index_64 d a = (di, t1i, t2i, t3i, ai)" by (metis imageE)
  then have e: "sd_addr_64 d di t1i t2i t3i ai = a" by (rule sd_addr_index_64 [OF g])
  with a show "sd_index_64 d (sd_addr_64 d di t1i t2i t3i ai) = (di, t1i, t2i, t3i, ai)" by simp
  have "unat a = ((((di * 2 ^ nt + t1i) * 2 ^ nt + t2i) * 2 ^ nt + t3i) * 2 ^ np + ai)"
    using a unfolding sd_index_64_nat [OF g] by (metis Pair_inject index_step div_mult_mod_eq)
  then show "unat (sd_addr_64 d di t1i t2i t3i ai) = di * 2 ^ (nt + (nt + (nt + np))) + t1i * 2 ^ (nt + (nt + np)) + t2i * 2 ^ (nt + np) + t3i * 2 ^ np + ai"
    unfolding e by (simp only: add_mult_distrib power_add mult.assoc add.assoc)
qed

lemma sd_entries_64_graph:
  assumes "sd64_inv d"
  shows "(a, l) \<in> set (sd_entries_64 d) \<longleftrightarrow> shad_dir_find_64 d a = Some l"
proof -
  from assms obtain nd nt np where g: "sd64_geom d nd nt np" by (rule sd64_inv_obtain)
  obtain di t1i t2i t3i ai where i: "sd_index_64 d a = (di, t1i, t2i, t3i, ai)" by (cases "sd_index_64 d a") auto
  then have b: "di < 2 ^ nd" "t1i < 2 ^ nt" "t2i < 2 ^ nt" "t3i < 2 ^ nt" "ai < 2 ^ np"
    using rangeI [of "sd_index_64 d" a] unfolding sd_index_64_bij(2) [OF g] i by simp_all
  have "(a, l) \<in> set (sd_entries_64 d) \<longleftrightarrow> (\<exists>g w h x i y j z k. g < 2 ^ nd \<and> slot (sd_table_64 d) g = Some w
      \<and> h < 2 ^ nt \<and> slot w h = Some x \<and> i < 2 ^ nt \<and> slot x i = Some y \<and> j < 2 ^ nt \<and> slot y j = Some z
      \<and> k < 2 ^ np \<and> slot z k = Some l \<and> a = sd_addr_64 d g h i j k)"
    by (simp add: sd_entries_64_def sd64_sizes [OF g] in_slot_iter)
  also have "\<dots> \<longleftrightarrow> (\<exists>w x y z. slot (sd_table_64 d) di = Some w \<and> slot w t1i = Some x \<and> slot x t2i = Some y
      \<and> slot y t3i = Some z \<and> slot z ai = Some l)" (is "?L \<longleftrightarrow> ?R")
  proof
    assume ?L
    then obtain g' w h x i' y j z k where *: "g' < 2 ^ nd" "slot (sd_table_64 d) g' = Some w"
      "h < 2 ^ nt" "slot w h = Some x" "i' < 2 ^ nt" "slot x i' = Some y" "j < 2 ^ nt" "slot y j = Some z"
      "k < 2 ^ np" "slot z k = Some l" "a = sd_addr_64 d g' h i' j k" by (elim exE conjE)
    then have "(di, t1i, t2i, t3i, ai) = (g', h, i', j, k)" using sd_addr_64_nat(1) [OF g] i by simp
    then show ?R using * by simp
  next
    assume ?R
    then show ?L using sd_addr_index_64 [OF g i] b by metis
  qed
  also have "\<dots> \<longleftrightarrow> shad_dir_find_64 d a = Some l"
    by (auto simp: shad_dir_find_64_def i slot_find_def split: option.splits)
  finally show ?thesis .
qed

lemma sd_entries_64_sorted:
  assumes "sd64_inv d"
  shows "sorted_wrt (<) (map (unat \<circ> fst) (sd_entries_64 d))"
proof -
  from assms obtain nd nt np where g: "sd64_geom d nd nt np" by (rule sd64_inv_obtain)
  define w0 w1 w2 w3 where w: "w0 = (2 :: nat) ^ np" "w1 = (2 :: nat) ^ (nt + np)" "w2 = (2 :: nat) ^ (nt + (nt + np))"
    "w3 = (2 :: nat) ^ (nt + (nt + (nt + np)))"
  have step: "2 ^ nt * w0 = w1" "2 ^ nt * w1 = w2" "2 ^ nt * w2 = w3" by (simp_all only: w power_add)
  let ?g = "unat \<circ> (fst :: u64 \<times> nat \<Rightarrow> u64)"
  let ?sorted = "\<lambda>b w xs. sorted_wrt (<) (map ?g xs) \<and> ?g ` set xs \<subseteq> {b..<b + w}"
  have nat: "unat (sd_addr_64 d di t1i t2i t3i ai) = di * w3 + t1i * w2 + t2i * w1 + t3i * w0 + ai"
    if "di < 2 ^ nd" "t1i < 2 ^ nt" "t2i < 2 ^ nt" "t3i < 2 ^ nt" "ai < 2 ^ np" for di t1i t2i t3i ai
    using sd_addr_64_nat(2) [OF g that] by (simp only: w)
  let ?p = "\<lambda>di t1i t2i t3i. slot_iter (2 ^ np) (\<lambda>ai ls. [(sd_addr_64 d di t1i t2i t3i ai, ls)])"
  have page: "?sorted (di * w3 + t1i * w2 + t2i * w1 + t3i * w0) (2 ^ np * 1) (?p di t1i t2i t3i x)"
    if "di < 2 ^ nd" "t1i < 2 ^ nt" "t2i < 2 ^ nt" "t3i < 2 ^ nt" for di t1i t2i t3i x
    by (rule slot_iter_sorted) (use that in \<open>simp add: nat\<close>)
  have table3: "?sorted (di * w3 + t1i * w2 + t2i * w1) (2 ^ nt * w0) (slot_iter (2 ^ nt) (\<lambda>t3i. ?p di t1i t2i t3i) x)"
    if "di < 2 ^ nd" "t1i < 2 ^ nt" "t2i < 2 ^ nt" for di t1i t2i x
    by (rule slot_iter_sorted) (use that page in \<open>simp add: w(1) add.assoc\<close>)
  note table3 = table3 [unfolded step]
  have table2: "?sorted (di * w3 + t1i * w2) (2 ^ nt * w1) (slot_iter (2 ^ nt) (\<lambda>t2i. slot_iter (2 ^ nt) (\<lambda>t3i. ?p di t1i t2i t3i)) x)"
    if "di < 2 ^ nd" "t1i < 2 ^ nt" for di t1i x
    by (rule slot_iter_sorted) (use that table3 in \<open>simp add: add.assoc\<close>)
  note table2 = table2 [unfolded step]
  have table1: "?sorted (di * w3) (2 ^ nt * w2)
      (slot_iter (2 ^ nt) (\<lambda>t1i. slot_iter (2 ^ nt) (\<lambda>t2i. slot_iter (2 ^ nt) (\<lambda>t3i. ?p di t1i t2i t3i))) x)"
    if "di < 2 ^ nd" for di x
    by (rule slot_iter_sorted) (use that table2 in \<open>simp add: add.assoc\<close>)
  note table1 = table1 [unfolded step]
  have "?sorted 0 (2 ^ nd * w3) (sd_entries_64 d)"
    unfolding sd_entries_64_def sd64_sizes [OF g]
    by (rule slot_iter_sorted) (use table1 in \<open>simp add: add.assoc\<close>)
  then show ?thesis by blast
qed

section \<open>Properties\<close>

text \<open>
  C26: the 64-bit shadow directory is a finite map from addresses to label sets: in every directory
  that satisfies the invariant, adding a label set changes the entry of its address and no other,
  removing one cannot fail and clears that entry only, both keep the invariant,
  \<^verbatim>\<open>shad_dir_occ_64\<close> returns the number of entries (modulo 2 ^ 32), and the iteration visits
  each entry once, in the order of the addresses.
\<close>

theorem shad_dir_64_is_map:
  assumes "sd64_inv d"
  shows "sd64_inv (shad_dir_add_64 d a (Some l))
    \<and> shad_dir_find_64 (shad_dir_add_64 d a (Some l)) = (shad_dir_find_64 d)(a \<mapsto> l)
    \<and> (\<exists>d'. shad_dir_remove_64 d a = Inr d' \<and> sd64_inv d' \<and> shad_dir_find_64 d' = (shad_dir_find_64 d)(a := None))
    \<and> shad_dir_occ_64 d = of_nat (card (dom (shad_dir_find_64 d)))
    \<and> (shad_dir_mem_64 d a \<longleftrightarrow> a \<in> dom (shad_dir_find_64 d))
    \<and> shad_dir_iter_64 d app s = snd (iter_until app (sd_entries_64 d) s)
    \<and> (\<forall>b m. (b, m) \<in> set (sd_entries_64 d) \<longleftrightarrow> shad_dir_find_64 d b = Some m)
    \<and> sorted_wrt (<) (map (unat \<circ> fst) (sd_entries_64 d))"
proof (intro conjI allI)
  show "shad_dir_mem_64 d a \<longleftrightarrow> a \<in> dom (shad_dir_find_64 d)" by (auto simp: shad_dir_mem_64_def)
qed (rule assms shad_dir_add_64_ok shad_dir_remove_64_ok shad_dir_occ_64_ok shad_dir_iter_64_eq sd_entries_64_graph
  sd_entries_64_sorted)+

definition a_dir_64 :: SdDir64 where
  "a_dir_64 = (case shad_dir_new_64 0 12 12 16 of Inr d \<Rightarrow> shad_dir_add_64 d 0x123456789abcdef0 (Some 7))"

lemma a_dir_64_inv: "sd64_inv a_dir_64"
proof -
  have "\<exists>d. shad_dir_new_64 0 12 12 16 = Inr d" by (simp add: shad_dir_new_64_def int_one_shl_def)
  then obtain d where "shad_dir_new_64 0 12 12 16 = Inr d" ..
  then show ?thesis using shad_dir_new_64_ok(1) [of 0 12 12 16 d] shad_dir_add_64_ok(1) [of d] by (simp add: a_dir_64_def)
qed

theorem shad_dir_64_is_map_witness:
  "shad_dir_find_64 (shad_dir_add_64 a_dir_64 0x123456789abcdef1 (Some 8)) = (shad_dir_find_64 a_dir_64)(0x123456789abcdef1 \<mapsto> 8)"
  by (rule shad_dir_64_is_map [OF a_dir_64_inv, THEN conjunct2, THEN conjunct1])

text \<open>
  \<^verbatim>\<open>shad_dir_free_64\<close> frees the directory, its array and the arrays of the pages; it frees no
  \<^verbatim>\<open>struct\<close> of a page, and neither the \<^verbatim>\<open>struct\<close> nor the array of any table.
\<close>

theorem shad_dir_free_64_leaks:
  "(Struct p \<in> set (shad_dir_free_64 d) \<longleftrightarrow> p = [])
   \<and> length ` {p. Array p \<in> set (shad_dir_free_64 d)} \<subseteq> {0, 4}"
  by (auto simp: shad_dir_free_64_def Let_def in_slot_iter)

end
