(* ===== verification/Fast_Shad.thy ===== *)
theory Fast_Shad
  imports Label_Set
begin

text \<open>
  The shadow arrays of the taint analysis (\<^verbatim>\<open>panda_plugins/taint2/fast_shad.h\<close> and
  \<^verbatim>\<open>fast_shad.cpp\<close>): one \<^verbatim>\<open>TaintData\<close> per byte of guest memory, of a register or of an LLVM value.
  The debug build's assertions and messages (\<^verbatim>\<open>TAINTDEBUG\<close>) are not compiled in, so an access outside
  an array is an error of the model and not a failed assertion.
\<close>

section \<open>Taint data\<close>

record TaintData =
  td_ls :: LabelSetP
  td_tcn :: u32
  td_cb_mask :: u8
  td_one_mask :: u8
  td_zero_mask :: u8

definition TaintData_empty :: TaintData where
  "TaintData_empty = \<lparr>td_ls = None, td_tcn = 0, td_cb_mask = 0, td_one_mask = 0, td_zero_mask = 0\<rparr>"

definition TaintData_ls :: "LabelSetP \<Rightarrow> TaintData" where
  "TaintData_ls ls = \<lparr>td_ls = ls, td_tcn = 0, td_cb_mask = (if ls \<noteq> None then 0xFF else 0),
     td_one_mask = 0, td_zero_mask = 0\<rparr>"

definition TaintData_full :: "LabelSetP \<Rightarrow> u32 \<Rightarrow> u8 \<Rightarrow> u8 \<Rightarrow> u8 \<Rightarrow> TaintData" where
  "TaintData_full ls tcn cb one zero =
     \<lparr>td_ls = ls, td_tcn = (if ls \<noteq> None then tcn else 0), td_cb_mask = (if ls \<noteq> None then cb else 0),
      td_one_mask = one, td_zero_mask = zero\<rparr>"

definition increment_tcn :: "TaintData \<Rightarrow> TaintData" where
  "increment_tcn td = (if td_ls td \<noteq> None then td\<lparr>td_tcn := td_tcn td + 1\<rparr> else td)"

section \<open>Shadow arrays and the state of the analysis\<close>

text \<open>
  \<open>fs_labels\<close> is the distance of the pointer \<^verbatim>\<open>labels\<close> from \<^verbatim>\<open>orig_labels\<close>, which points to the first
  element of \<open>fs_data\<close>. The analysis has five arrays (\<^verbatim>\<open>struct shad_struct\<close>); \<open>taint_changes\<close> are the
  calls of \<^verbatim>\<open>taint_state_changed\<close> in their order.
\<close>

record FastShad =
  fs_name :: string
  fs_size :: u64
  fs_labels :: int
  fs_data :: "TaintData list"

datatype shad_id = Ram_shad | Llv_shad | Ret_shad | Grv_shad | Gsv_shad

record taint_state =
  ts_labels :: label_state
  ts_shad :: "shad_id \<Rightarrow> FastShad"
  track_taint_state :: bool
  taint_changes :: "(shad_id \<times> u64 \<times> u64) list"

text \<open>
  The constructor. Whether \<^verbatim>\<open>malloc\<close> and the two \<^verbatim>\<open>mmap\<close> calls succeed is up to the host; when both
  fail the array pointer is \<^verbatim>\<open>MAP_FAILED\<close>, through which nothing can be read.
\<close>

record shad_host =
  malloc_ok :: bool
  mmap_hugetlb_ok :: bool
  mmap_ok :: bool

text \<open>A product with \<^verbatim>\<open>sizeof(TaintData)\<close>, which is 16, in \<^verbatim>\<open>size_t\<close> arithmetic; and the elements it covers.\<close>

definition td_elems :: "u64 \<Rightarrow> nat" where
  "td_elems n = unat (n * 16) div 16"

definition FastShad_new :: "shad_host \<Rightarrow> string \<Rightarrow> u64 \<Rightarrow> rr_exit + FastShad" where
  "FastShad_new h name labelsets =
     bindR (if labelsets < push_bit 24 1
            then bindR (rr_assert (malloc_ok h) ''array'') (\<lambda>_. Inr (replicate (td_elems labelsets) TaintData_empty))
            else if mmap_hugetlb_ok h \<or> mmap_ok h
            then Inr (replicate (td_elems labelsets) TaintData_empty)
            else Inr []) (\<lambda>array.
     Inr \<lparr>fs_name = name, fs_size = labelsets, fs_labels = 0, fs_data = array\<rparr>)"

definition query_full :: "u64 \<Rightarrow> FastShad \<Rightarrow> rr_exit + TaintData" where
  "query_full addr sh =
     (let i = fs_labels sh + int (unat addr)
      in if 0 \<le> i \<and> i < int (length (fs_data sh)) then Inr (fs_data sh ! nat i) else Inl Out_of_bounds)"

definition query_tcn :: "u64 \<Rightarrow> FastShad \<Rightarrow> rr_exit + u32" where
  "query_tcn addr sh = bindR (query_full addr sh) (\<lambda>td. Inr (td_tcn td))"

definition query :: "u64 \<Rightarrow> FastShad \<Rightarrow> rr_exit + LabelSetP" where
  "query addr sh = bindR (query_full addr sh) (\<lambda>td. Inr (td_ls td))"

definition put_td :: "u64 \<Rightarrow> TaintData \<Rightarrow> FastShad \<Rightarrow> rr_exit + FastShad" where
  "put_td addr td sh =
     (let i = fs_labels sh + int (unat addr)
      in if 0 \<le> i \<and> i < int (length (fs_data sh)) then Inr (sh\<lparr>fs_data := (fs_data sh)[nat i := td]\<rparr>) else Inl Out_of_bounds)"

definition upd_shad :: "shad_id \<Rightarrow> FastShad \<Rightarrow> 'a taint_state_scheme \<Rightarrow> 'a taint_state_scheme" where
  "upd_shad k sh s = s\<lparr>ts_shad := (ts_shad s)(k := sh)\<rparr>"

definition note_change :: "bool \<Rightarrow> shad_id \<Rightarrow> u64 \<Rightarrow> u64 \<Rightarrow> 'a taint_state_scheme \<Rightarrow> 'a taint_state_scheme" where
  "note_change change k addr sz s = (if change then s\<lparr>taint_changes := taint_changes s @ [(k, addr, sz)]\<rparr> else s)"

definition label :: "shad_id \<Rightarrow> u64 \<Rightarrow> LabelSetP \<Rightarrow> 'a taint_state_scheme \<Rightarrow> rr_exit + 'a taint_state_scheme" where
  "label k addr ls s = bindR (put_td addr (TaintData_ls ls) (ts_shad s k)) (\<lambda>sh. Inr (upd_shad k sh s))"

definition set_full :: "shad_id \<Rightarrow> u64 \<Rightarrow> TaintData \<Rightarrow> 'a taint_state_scheme \<Rightarrow> rr_exit + 'a taint_state_scheme" where
  "set_full k addr td s =
     bindR (query_full addr (ts_shad s k)) (\<lambda>old.
     let change = (td \<noteq> old) in
     bindR (put_td addr td (ts_shad s k)) (\<lambda>sh.
     Inr (note_change change k addr 1 (upd_shad k sh s))))"

text \<open>
  \<^verbatim>\<open>range_tainted\<close> compares a 32-bit counter with a 64-bit bound. When the bound is beyond
  \<open>2 ^ 32 - 1\<close> the counter runs through all its values; after \<open>2 ^ 32\<close> rounds nothing has changed.
\<close>

fun range_loop :: "nat \<Rightarrow> u32 \<Rightarrow> u64 \<Rightarrow> FastShad \<Rightarrow> rr_exit + bool" where
  "range_loop 0 i limit sh = Inl Endless_loop"
| "range_loop (Suc n) i limit sh =
     (if ucast i < limit then
        bindR (query (ucast i) sh) (\<lambda>ls.
        if ls \<noteq> None then Inr True else range_loop n (i + 1) limit sh)
      else Inr False)"

definition range_tainted :: "u64 \<Rightarrow> u64 \<Rightarrow> FastShad \<Rightarrow> rr_exit + bool" where
  "range_tainted addr sz sh = range_loop (2 ^ 32 + 1) (ucast addr) (addr + sz) sh"

definition fits :: "u64 \<Rightarrow> nat \<Rightarrow> FastShad \<Rightarrow> bool" where
  "fits addr n sh \<longleftrightarrow> n = 0 \<or> 0 \<le> fs_labels sh + int (unat addr)
     \<and> fs_labels sh + int (unat addr) + int n \<le> int (length (fs_data sh))"

definition splice :: "'b list \<Rightarrow> nat \<Rightarrow> 'b list \<Rightarrow> 'b list" where
  "splice ys i xs = take i xs @ ys @ drop (i + length ys) xs"

definition write_range :: "u64 \<Rightarrow> TaintData list \<Rightarrow> FastShad \<Rightarrow> FastShad" where
  "write_range addr tds sh =
     (if tds = [] then sh
      else sh\<lparr>fs_data := splice tds (nat (fs_labels sh + int (unat addr))) (fs_data sh)\<rparr>)"

definition read_range :: "u64 \<Rightarrow> nat \<Rightarrow> FastShad \<Rightarrow> TaintData list" where
  "read_range addr n sh = take n (drop (nat (fs_labels sh + int (unat addr))) (fs_data sh))"

definition shad_copy :: "shad_id \<Rightarrow> u64 \<Rightarrow> shad_id \<Rightarrow> u64 \<Rightarrow> u64 \<Rightarrow> 'a taint_state_scheme \<Rightarrow> rr_exit + 'a taint_state_scheme" where
  "shad_copy kd dest ks src sz s =
     bindR (if track_taint_state s then
              bindR (range_tainted dest sz (ts_shad s kd)) (\<lambda>t.
              if t then Inr True else range_tainted src sz (ts_shad s ks))
            else Inr False) (\<lambda>change.
     let n = td_elems sz in
     if \<not> fits dest n (ts_shad s kd) \<or> \<not> fits src n (ts_shad s ks) then Inl Out_of_bounds
     else if kd = ks \<and> unat dest < unat src + n \<and> unat src < unat dest + n then Inl Undefined_behaviour
     else Inr (note_change change kd dest sz
       (upd_shad kd (write_range dest (read_range src n (ts_shad s ks)) (ts_shad s kd)) s)))"

definition shad_remove :: "shad_id \<Rightarrow> u64 \<Rightarrow> u64 \<Rightarrow> 'a taint_state_scheme \<Rightarrow> rr_exit + 'a taint_state_scheme" where
  "shad_remove k addr remove_size s =
     bindR (if track_taint_state s then range_tainted addr remove_size (ts_shad s k) else Inr False) (\<lambda>change.
     let n = td_elems remove_size in
     if \<not> fits addr n (ts_shad s k) then Inl Out_of_bounds
     else Inr (note_change change k addr remove_size
       (upd_shad k (write_range addr (replicate n TaintData_empty) (ts_shad s k)) s)))"

definition reset_frame :: "FastShad \<Rightarrow> FastShad" where
  "reset_frame sh = sh\<lparr>fs_labels := 0\<rparr>"

definition push_frame :: "u64 \<Rightarrow> FastShad \<Rightarrow> FastShad" where
  "push_frame framesize sh = sh\<lparr>fs_labels := fs_labels sh + int (unat framesize)\<rparr>"

definition pop_frame :: "u64 \<Rightarrow> FastShad \<Rightarrow> FastShad" where
  "pop_frame framesize sh = sh\<lparr>fs_labels := fs_labels sh - int (unat framesize)\<rparr>"

text \<open>Unions go through the label sets of the state.\<close>

definition make_union :: "TaintData \<Rightarrow> TaintData \<Rightarrow> bool \<Rightarrow> 'a taint_state_scheme \<Rightarrow> rr_exit + (TaintData \<times> 'a taint_state_scheme)" where
  "make_union td1 td2 increment s =
     bindR (label_set_union (td_ls td1) (td_ls td2) (ts_labels s)) (\<lambda>(ls, l).
     Inr (TaintData_full ls (max (td_tcn td1) (td_tcn td2) + (if increment then 1 else 0)) 0 0 0, s\<lparr>ts_labels := l\<rparr>))"

section \<open>The arrays as one memory\<close>

text \<open>
  What the operations do is stated on the taint data by array and address. The invariant: no frame
  was popped too often, the arrays are of a size that exists, and every label set is one of the
  state's.
\<close>

definition td_mem :: "'a taint_state_scheme \<Rightarrow> shad_id \<times> u64 \<Rightarrow> TaintData option" where
  "td_mem s ka = (case query_full (snd ka) (ts_shad s (fst ka)) of Inl _ \<Rightarrow> None | Inr td \<Rightarrow> Some td)"

definition fs_ok :: "FastShad \<Rightarrow> bool" where
  "fs_ok sh \<longleftrightarrow> 0 \<le> fs_labels sh \<and> length (fs_data sh) < 2 ^ 60"

definition ts_inv :: "'a taint_state_scheme \<Rightarrow> bool" where
  "ts_inv s \<longleftrightarrow> ls_inv (ts_labels s) \<and> (\<forall>k. fs_ok (ts_shad s k))
     \<and> (\<forall>k. \<forall>td \<in> set (fs_data (ts_shad s k)). ls_valid (ts_labels s) (td_ls td))"

lemma pointer_nat:
  assumes "0 \<le> b"
  shows "0 \<le> b + int n" and "nat (b + int n) = nat b + n" and "b + int n < int m \<longleftrightarrow> nat b + n < m"
    and "b + int n + int j \<le> int m \<longleftrightarrow> nat b + n + j \<le> m"
  using assms by auto

lemma td_mem_eq:
  assumes "fs_ok (ts_shad s k)"
  shows "td_mem s (k, a) = (let i = nat (fs_labels (ts_shad s k)) + unat a
    in if i < length (fs_data (ts_shad s k)) then Some (fs_data (ts_shad s k) ! i) else None)"
proof -
  have "0 \<le> fs_labels (ts_shad s k)" using assms by (simp add: fs_ok_def)
  then show ?thesis
    by (simp only: td_mem_def query_full_def fst_conv snd_conv Let_def pointer_nat split: if_split) simp
qed

lemma query_full_td_mem:
  assumes "td_mem s (k, a) = Some td"
  shows "query_full a (ts_shad s k) = Inr td"
  using assms by (simp add: td_mem_def split: sum.splits)

lemma td_elems_small:
  assumes "unat n < 2 ^ 60"
  shows "td_elems n = unat n"
proof -
  have "unat (n * 16) = unat n * 16" using assms by (subst unat_mult_lem [THEN iffD1]) simp_all
  then show ?thesis by (simp add: td_elems_def)
qed

lemma unat_plus_of_nat:
  fixes a :: u64
  assumes "unat a + i < 2 ^ 64"
  shows "unat (a + of_nat i) = unat a + i"
  using assms by (simp add: unat_word_ariths unat_of_nat)

text \<open>Writing some consecutive elements.\<close>

lemma nth_splice:
  assumes "i + length ys \<le> length xs" and "j < length xs"
  shows "splice ys i xs ! j = (if i \<le> j \<and> j < i + length ys then ys ! (j - i) else xs ! j)"
  using assms by (auto simp: splice_def nth_append)

lemma length_splice [simp]: "i + length ys \<le> length xs \<Longrightarrow> length (splice ys i xs) = length xs"
  by (simp add: splice_def)

lemma in_range_iff:
  fixes a dest :: u64
  assumes "unat dest + n \<le> 2 ^ 64"
  shows "unat (a - dest) < n \<longleftrightarrow> unat dest \<le> unat a \<and> unat a < unat dest + n"
    and "unat dest \<le> unat a \<Longrightarrow> unat (a - dest) = unat a - unat dest"
proof -
  show le: "unat dest \<le> unat a \<Longrightarrow> unat (a - dest) = unat a - unat dest"
    by (simp add: unat_sub word_le_nat_alt)
  show "unat (a - dest) < n \<longleftrightarrow> unat dest \<le> unat a \<and> unat a < unat dest + n"
  proof (cases "unat dest \<le> unat a")
    case True
    then show ?thesis using le by auto
  next
    case False
    then have "unat (a - dest) = unat a + 2 ^ 64 - unat dest"
      by (simp add: unat_sub_if_size word_size)
    then show ?thesis using False assms by simp
  qed
qed

lemma fits_bound:
  assumes "fs_ok sh" and "fits addr n sh" and "n \<noteq> 0"
  shows "nat (fs_labels sh) + unat addr + n \<le> length (fs_data sh)" and "unat addr + n < 2 ^ 60"
proof -
  show *: "nat (fs_labels sh) + unat addr + n \<le> length (fs_data sh)"
    using assms by (simp only: fits_def fs_ok_def pointer_nat) simp
  then show "unat addr + n < 2 ^ 60" using assms(1) unfolding fs_ok_def by linarith
qed

lemma write_range_mem:
  assumes ok: "fs_ok (ts_shad s k)" and fit: "fits addr (length tds) (ts_shad s k)"
  shows "fs_ok (write_range addr tds (ts_shad s k))"
    and "td_mem (upd_shad k (write_range addr tds (ts_shad s k)) s) =
      (\<lambda>(k', a). if k' = k \<and> unat (a - addr) < length tds then Some (tds ! unat (a - addr)) else td_mem s (k', a))"
proof -
  let ?sh = "ts_shad s k" and ?n = "length tds" and ?w = "write_range addr tds (ts_shad s k)"
  let ?b = "nat (fs_labels (ts_shad s k))"
  have b: "0 \<le> fs_labels ?sh" using ok by (simp add: fs_ok_def)
  have w: "fs_labels ?w = fs_labels ?sh" "fs_data ?w = (if tds = [] then fs_data ?sh else splice tds (?b + unat addr) (fs_data ?sh))"
    unfolding write_range_def pointer_nat(2) [OF b] by simp_all
  show ok': "fs_ok ?w"
  proof (cases "tds = []")
    case False
    with fits_bound(1) [OF ok fit] ok show ?thesis by (simp add: fs_ok_def w)
  qed (use ok in \<open>simp add: write_range_def\<close>)
  have "td_mem (upd_shad k ?w s) (k', a) =
      (if k' = k \<and> unat (a - addr) < ?n then Some (tds ! unat (a - addr)) else td_mem s (k', a))" for k' a
  proof (cases "k' = k \<and> tds \<noteq> []")
    case False
    then show ?thesis by (auto simp: td_mem_def upd_shad_def write_range_def)
  next
    case True
    then have k: "k' = k" and n: "?n \<noteq> 0" by auto
    note f = fits_bound [OF ok fit n]
    have r: "unat addr + ?n \<le> 2 ^ 64" using f(2) by simp
    have m: "td_mem (upd_shad k ?w s) (k, a) = (if ?b + unat a < length (fs_data ?sh)
        then Some (splice tds (?b + unat addr) (fs_data ?sh) ! (?b + unat a)) else None)"
      using ok' f(1) w True by (subst td_mem_eq) (simp_all add: upd_shad_def)
    show ?thesis
    proof (cases "unat (a - addr) < ?n")
      case True
      then have "unat addr \<le> unat a" "unat a < unat addr + ?n" using in_range_iff(1) [OF r] by blast+
      then show ?thesis using m f(1) in_range_iff(2) [OF r, of a] True k by (simp add: nth_splice)
    next
      case False
      then have "\<not> (unat addr \<le> unat a \<and> unat a < unat addr + ?n)" using in_range_iff(1) [OF r] by blast
      then have "splice tds (?b + unat addr) (fs_data ?sh) ! (?b + unat a) = fs_data ?sh ! (?b + unat a)"
        if "?b + unat a < length (fs_data ?sh)"
        using f(1) that by (auto simp: nth_splice)
      then show ?thesis using m False k td_mem_eq [OF ok, of a] by (simp add: Let_def)
    qed
  qed
  then show "td_mem (upd_shad k ?w s) =
      (\<lambda>(k', a). if k' = k \<and> unat (a - addr) < ?n then Some (tds ! unat (a - addr)) else td_mem s (k', a))"
    by (auto simp: fun_eq_iff)
qed

section \<open>What the operations do\<close>

text \<open>What every operation leaves alone: the shape of the arrays, the label sets there are, the rest of the state.\<close>

definition same_shape :: "FastShad \<Rightarrow> FastShad \<Rightarrow> bool" where
  "same_shape sh sh' \<longleftrightarrow> fs_name sh' = fs_name sh \<and> fs_size sh' = fs_size sh \<and> fs_labels sh' = fs_labels sh
     \<and> length (fs_data sh') = length (fs_data sh)"

definition ts_le :: "'a taint_state_scheme \<Rightarrow> 'a taint_state_scheme \<Rightarrow> bool" where
  "ts_le s s' \<longleftrightarrow> ls_le (ts_labels s) (ts_labels s') \<and> (\<forall>k. same_shape (ts_shad s k) (ts_shad s' k))
     \<and> track_taint_state s' = track_taint_state s \<and> taint_state.more s' = taint_state.more s"

lemma ts_le_refl [simp]: "ts_le s s"
  by (simp add: ts_le_def same_shape_def)

lemma ts_le_trans: "ts_le s s' \<Longrightarrow> ts_le s' s'' \<Longrightarrow> ts_le s s''"
  by (auto simp: ts_le_def same_shape_def intro: ls_le_trans)

lemma ts_le_fits: "ts_le s s' \<Longrightarrow> fits a n (ts_shad s' k) \<longleftrightarrow> fits a n (ts_shad s k)"
  by (simp add: ts_le_def same_shape_def fits_def)

lemma td_mem_valid:
  assumes "ts_inv s" and "td_mem s ka = Some td"
  shows "ls_valid (ts_labels s) (td_ls td)"
proof -
  obtain k a where ka: "ka = (k, a)" by (cases ka)
  have ok: "fs_ok (ts_shad s k)" and v: "\<forall>td \<in> set (fs_data (ts_shad s k)). ls_valid (ts_labels s) (td_ls td)"
    using assms(1) by (auto simp: ts_inv_def)
  have "td \<in> set (fs_data (ts_shad s k))"
    using assms(2) td_mem_eq [OF ok, of a] by (auto simp: ka Let_def split: if_splits)
  with v show ?thesis by blast
qed

lemma note_change_simps [simp]:
  "ts_labels (note_change c k a n s) = ts_labels s" "ts_shad (note_change c k a n s) = ts_shad s"
  "track_taint_state (note_change c k a n s) = track_taint_state s" "taint_state.more (note_change c k a n s) = taint_state.more s"
  "td_mem (note_change c k a n s) = td_mem s" "ts_inv (note_change c k a n s) = ts_inv s"
  by (simp_all add: note_change_def td_mem_def [abs_def] ts_inv_def)

lemma upd_shad_simps [simp]:
  "ts_labels (upd_shad k sh s) = ts_labels s" "ts_shad (upd_shad k sh s) = (ts_shad s)(k := sh)"
  "track_taint_state (upd_shad k sh s) = track_taint_state s" "taint_state.more (upd_shad k sh s) = taint_state.more s"
  by (simp_all add: upd_shad_def)

lemma set_splice: "set (splice ys i xs) \<subseteq> set ys \<union> set xs"
  using set_take_subset set_drop_subset by (fastforce simp: splice_def)

lemma write_range_inv:
  assumes "ts_inv s" and "fits addr (length tds) (ts_shad s k)" and "\<forall>td \<in> set tds. ls_valid (ts_labels s) (td_ls td)"
  shows "ts_inv (upd_shad k (write_range addr tds (ts_shad s k)) s)"
    and "same_shape (ts_shad s k) (write_range addr tds (ts_shad s k))"
proof -
  have ok: "fs_ok (ts_shad s k)" using assms(1) by (simp add: ts_inv_def)
  have "set (fs_data (write_range addr tds (ts_shad s k))) \<subseteq> set tds \<union> set (fs_data (ts_shad s k))"
    using set_splice [of tds _ "fs_data (ts_shad s k)"] by (auto simp: write_range_def)
  then show "ts_inv (upd_shad k (write_range addr tds (ts_shad s k)) s)"
    using assms write_range_mem(1) [OF ok assms(2)] by (auto simp: ts_inv_def)
  show "same_shape (ts_shad s k) (write_range addr tds (ts_shad s k))"
  proof (cases "tds = []")
    case False
    have "0 \<le> fs_labels (ts_shad s k)" using ok by (simp add: fs_ok_def)
    then have "nat (fs_labels (ts_shad s k) + int (unat addr)) = nat (fs_labels (ts_shad s k)) + unat addr" by (rule pointer_nat)
    then show ?thesis using fits_bound(1) [OF ok assms(2)] False by (simp only: write_range_def same_shape_def) simp
  qed (simp add: write_range_def same_shape_def)
qed

lemma put_td_write_range:
  "put_td a td sh = (if fits a 1 sh then Inr (write_range a [td] sh) else Inl Out_of_bounds)"
proof -
  have "xs[i := td] = splice [td] i xs" if "i < length xs" for i and xs :: "TaintData list"
    using that by (simp add: splice_def upd_conv_take_nth_drop)
  then show ?thesis by (auto simp: put_td_def fits_def write_range_def Let_def)
qed

lemma td_mem_fits: "td_mem s (k, a) \<noteq> None \<longleftrightarrow> fits a 1 (ts_shad s k)"
  by (auto simp: td_mem_def query_full_def fits_def Let_def)

lemma unat_sub_less_1: "unat (a - b :: u64) < 1 \<longleftrightarrow> a = b"
  by (simp add: unat_eq_0)

lemma put_td_ok:
  assumes "ts_inv s" and "td_mem s (k, a) \<noteq> None" and "ls_valid (ts_labels s) (td_ls td)"
  obtains sh where "put_td a td (ts_shad s k) = Inr sh" and "ts_inv (upd_shad k sh s)"
    and "ts_le s (upd_shad k sh s)" and "td_mem (upd_shad k sh s) = (td_mem s)((k, a) \<mapsto> td)"
proof -
  have ok: "fs_ok (ts_shad s k)" using assms(1) by (simp add: ts_inv_def)
  have f: "fits a (length [td]) (ts_shad s k)" using assms(2) unfolding td_mem_fits by simp
  show ?thesis
  proof (rule that)
    show "put_td a td (ts_shad s k) = Inr (write_range a [td] (ts_shad s k))" using f by (simp add: put_td_write_range)
    show "td_mem (upd_shad k (write_range a [td] (ts_shad s k)) s) = (td_mem s)((k, a) \<mapsto> td)"
      unfolding write_range_mem(2) [OF ok f] using unat_sub_less_1 by (auto simp: fun_eq_iff)
    show "ts_inv (upd_shad k (write_range a [td] (ts_shad s k)) s)"
      using write_range_inv(1) [OF assms(1) f] assms(3) by simp
    show "ts_le s (upd_shad k (write_range a [td] (ts_shad s k)) s)"
      using write_range_inv(2) [OF assms(1) f] assms(3) by (auto simp: ts_le_def same_shape_def)
  qed
qed

lemma set_full_ok:
  assumes "ts_inv s" and "td_mem s (k, a) \<noteq> None" and "ls_valid (ts_labels s) (td_ls td)"
  obtains s' where "set_full k a td s = Inr s'" and "ts_inv s'" and "ts_le s s'"
    and "td_mem s' = (td_mem s)((k, a) \<mapsto> td)" and "ts_labels s' = ts_labels s"
proof -
  from assms(2) obtain old where "td_mem s (k, a) = Some old" by blast
  then have old: "query_full a (ts_shad s k) = Inr old" by (rule query_full_td_mem)
  from put_td_ok [OF assms] obtain sh where sh: "put_td a td (ts_shad s k) = Inr sh" "ts_inv (upd_shad k sh s)"
    "ts_le s (upd_shad k sh s)" "td_mem (upd_shad k sh s) = (td_mem s)((k, a) \<mapsto> td)" by blast
  show ?thesis
    by (rule that [of "note_change (td \<noteq> old) k a 1 (upd_shad k sh s)"])
      (use old sh in \<open>auto simp: set_full_def ts_le_def\<close>)
qed

lemma label_ok:
  assumes "ts_inv s" and "td_mem s (k, a) \<noteq> None" and "ls_valid (ts_labels s) ls"
  obtains s' where "label k a ls s = Inr s'" and "ts_inv s'" and "ts_le s s'"
    and "td_mem s' = (td_mem s)((k, a) \<mapsto> TaintData_ls ls)" and "ts_labels s' = ts_labels s"
proof -
  have "ls_valid (ts_labels s) (td_ls (TaintData_ls ls))" using assms(3) by (simp add: TaintData_ls_def)
  from put_td_ok [OF assms(1,2) this] obtain sh where sh: "put_td a (TaintData_ls ls) (ts_shad s k) = Inr sh"
    "ts_inv (upd_shad k sh s)" "ts_le s (upd_shad k sh s)"
    "td_mem (upd_shad k sh s) = (td_mem s)((k, a) \<mapsto> TaintData_ls ls)" by blast
  show ?thesis by (rule that [of "upd_shad k sh s"]) (use sh in \<open>auto simp: label_def\<close>)
qed

lemma make_union_ok:
  assumes "ts_inv s" and "ls_valid (ts_labels s) (td_ls td1)" and "ls_valid (ts_labels s) (td_ls td2)"
  obtains td s' where "make_union td1 td2 inc s = Inr (td, s')" and "ts_inv s'" and "ts_le s s'"
    and "td_mem s' = td_mem s" and "ls_valid (ts_labels s') (td_ls td)" and "taint_changes s' = taint_changes s"
    and "labels_of (ts_labels s') (td_ls td) = labels_of (ts_labels s) (td_ls td1) \<union> labels_of (ts_labels s) (td_ls td2)"
    and "td_cb_mask td = 0" and "td_one_mask td = 0" and "td_zero_mask td = 0"
    and "td_tcn td = (if td_ls td = None then 0 else max (td_tcn td1) (td_tcn td2) + (if inc then 1 else 0))"
proof -
  have "ls_inv (ts_labels s)" using assms(1) by (simp add: ts_inv_def)
  from lsp.union [OF this assms(2,3)] obtain r l where
    u: "label_set_union (td_ls td1) (td_ls td2) (ts_labels s) = Inr (r, l)" "ls_inv l" "ls_le (ts_labels s) l"
    "ls_valid l r" "labels_of l r = labels_of (ts_labels s) (td_ls td1) \<union> labels_of (ts_labels s) (td_ls td2)" by blast
  let ?s = "s\<lparr>ts_labels := l\<rparr>"
    and ?td = "TaintData_full r (max (td_tcn td1) (td_tcn td2) + (if inc then 1 else 0)) 0 0 0"
  have "ts_inv ?s" using assms(1) u(2) ls_le_valid [OF u(3)] by (auto simp: ts_inv_def)
  moreover have "td_mem ?s = td_mem s" by (simp add: td_mem_def [abs_def])
  moreover have "make_union td1 td2 inc s = Inr (?td, ?s)" using u(1) by (simp add: make_union_def)
  ultimately show ?thesis
    using u by (intro that [of ?td ?s]) (auto simp: ts_le_def same_shape_def TaintData_full_def)
qed

text \<open>The range check of the operations that report changes.\<close>

lemma unat_ucast_u32: "unat (ucast (i :: u32) :: u64) = unat i"
proof -
  have "unat i < 2 ^ 32" using unsigned_less [of i] by simp
  then have "unat i < 2 ^ 64" by simp
  then show ?thesis by (simp add: unsigned_ucast_eq take_bit_nat_eq_self)
qed

lemma range_loop_ok:
  assumes "\<And>j. unat i \<le> j \<Longrightarrow> j < unat limit \<Longrightarrow> query (of_nat j) sh = Inr (f j)"
    and "unat limit < 2 ^ 32" and "unat limit \<le> unat i + n"
  shows "range_loop (Suc n) i limit sh = Inr (\<exists>j. unat i \<le> j \<and> j < unat limit \<and> f j \<noteq> None)"
  using assms
proof (induction n arbitrary: i)
  case 0
  have "\<not> (ucast i :: u64) < limit" using 0 by (simp add: word_less_nat_alt unat_ucast_u32)
  then show ?case using 0 by auto
next
  case (Suc n)
  have u: "unat (ucast i :: u64) = unat i" by (rule unat_ucast_u32)
  show ?case
  proof (cases "unat i < unat limit")
    case True
    have "of_nat (unat i) = (ucast i :: u64)" by simp
    then have q: "query (ucast i) sh = Inr (f (unat i))" using Suc.prems(1) [of "unat i"] True by simp
    have i1: "unat (i + 1) = Suc (unat i)"
      using True Suc.prems(2) by (simp add: unat_word_ariths)
    have IH: "range_loop (Suc n) (i + 1) limit sh = Inr (\<exists>j. unat (i + 1) \<le> j \<and> j < unat limit \<and> f j \<noteq> None)"
      by (rule Suc.IH) (use Suc.prems True i1 in auto)
    have "(\<exists>j. unat i \<le> j \<and> j < unat limit \<and> f j \<noteq> None) \<longleftrightarrow>
        f (unat i) \<noteq> None \<or> (\<exists>j. Suc (unat i) \<le> j \<and> j < unat limit \<and> f j \<noteq> None)"
      using True by (metis Suc_leD Suc_leI le_eq_less_or_eq)
    then show ?thesis using True q u IH i1 by (simp add: word_less_nat_alt)
  next
    case False
    then show ?thesis using u by (auto simp: word_less_nat_alt)
  qed
qed

lemma range_tainted_ok:
  assumes "ts_inv s" and "fits addr (unat n) (ts_shad s k)" and "unat addr + unat n < 2 ^ 32"
  shows "range_tainted addr n (ts_shad s k) = Inr (\<exists>a td. unat (a - addr) < unat n \<and> td_mem s (k, a) = Some td \<and> td_ls td \<noteq> None)"
proof -
  let ?f = "\<lambda>j. case td_mem s (k, of_nat j) of None \<Rightarrow> None | Some td \<Rightarrow> td_ls td"
  have ok: "fs_ok (ts_shad s k)" using assms(1) by (simp add: ts_inv_def)
  have r: "unat addr + unat n \<le> 2 ^ 64" using assms(3) by simp
  have lim: "unat (addr + n) = unat addr + unat n" using assms(3) by (simp add: unat_word_ariths)
  have i: "unat (ucast addr :: u32) = unat addr" using assms(3) by (simp add: unsigned_ucast_eq take_bit_nat_eq_self)
  have q: "query (of_nat j) (ts_shad s k) = Inr (?f j)" if "unat addr \<le> j" "j < unat addr + unat n" for j
  proof -
    have u: "unat (of_nat j :: u64) = j" using that assms(3) by (simp add: unsigned_of_nat take_bit_nat_eq_self)
    have "fits (of_nat j) 1 (ts_shad s k)"
      using fits_bound(1) [OF ok assms(2)] that ok unfolding fits_def fs_ok_def u by (simp add: pointer_nat)
    then obtain td where "td_mem s (k, of_nat j) = Some td" using td_mem_fits [of s k "of_nat j"] by auto
    then show ?thesis by (simp add: query_def query_full_td_mem [where s = s])
  qed
  have "range_tainted addr n (ts_shad s k) = Inr (\<exists>j. unat addr \<le> j \<and> j < unat addr + unat n \<and> ?f j \<noteq> None)"
    using range_loop_ok [of "ucast addr" "addr + n" "ts_shad s k" ?f "2 ^ 32"] q assms(3)
    by (simp add: range_tainted_def lim i)
  also have "(\<exists>j. unat addr \<le> j \<and> j < unat addr + unat n \<and> ?f j \<noteq> None)
      \<longleftrightarrow> (\<exists>a td. unat (a - addr) < unat n \<and> td_mem s (k, a) = Some td \<and> td_ls td \<noteq> None)" (is "?L \<longleftrightarrow> ?R")
  proof
    assume ?L
    then obtain j where j: "unat addr \<le> j" "j < unat addr + unat n" "?f j \<noteq> None" by blast
    have "unat (of_nat j :: u64) = j" using j assms(3) by (simp add: unsigned_of_nat take_bit_nat_eq_self)
    then have "unat (of_nat j - addr) < unat n" using in_range_iff(1) [OF r] j by simp
    then show ?R using j(3) by (auto split: option.splits)
  next
    assume ?R
    then obtain a td where a: "unat (a - addr) < unat n" "td_mem s (k, a) = Some td" "td_ls td \<noteq> None" by blast
    then have "unat addr \<le> unat a" "unat a < unat addr + unat n" using in_range_iff(1) [OF r] by blast+
    then show ?L using a by (intro exI [of _ "unat a"]) simp
  qed
  finally show ?thesis .
qed

text \<open>Where the 32-bit counter of the range check can reach the end of the range.\<close>

definition tracked :: "'a taint_state_scheme \<Rightarrow> u64 \<Rightarrow> u64 \<Rightarrow> bool" where
  "tracked s addr n \<longleftrightarrow> (track_taint_state s \<longrightarrow> unat addr + unat n < 2 ^ 32)"

lemma read_range_ok:
  assumes "fs_ok (ts_shad s k)" and "fits src n (ts_shad s k)"
  shows "length (read_range src n (ts_shad s k)) = n"
    and "\<And>i. i < n \<Longrightarrow> td_mem s (k, src + of_nat i) = Some (read_range src n (ts_shad s k) ! i)"
proof -
  let ?sh = "ts_shad s k" and ?b = "nat (fs_labels (ts_shad s k))"
  have "0 \<le> fs_labels ?sh" using assms(1) by (simp add: fs_ok_def)
  then have r: "read_range src n ?sh = take n (drop (?b + unat src) (fs_data ?sh))"
    by (simp only: read_range_def pointer_nat)
  show "length (read_range src n ?sh) = n"
    using fits_bound(1) [OF assms] unfolding r by (cases "n = 0") simp_all
  show "td_mem s (k, src + of_nat i) = Some (read_range src n ?sh ! i)" if "i < n" for i
  proof -
    have f: "?b + unat src + n \<le> length (fs_data ?sh)" "unat src + n < 2 ^ 60"
      using fits_bound [OF assms] that by simp_all
    then have "unat (src + of_nat i) = unat src + i" using that by (intro unat_plus_of_nat) simp
    then show ?thesis using f(1) that td_mem_eq [OF assms(1), of "src + of_nat i"] by (simp add: r Let_def add.assoc)
  qed
qed

lemma fits_elems:
  assumes "fs_ok sh" and "fits a (unat n) sh"
  shows "td_elems n = unat n"
  using fits_bound(2) [OF assms] by (cases "unat n = 0") (simp_all add: td_elems_small)

lemma shad_copy_ok:
  assumes "ts_inv s" and "fits dest (unat n) (ts_shad s kd)" and "fits src (unat n) (ts_shad s ks)"
    and "tracked s dest n" and "tracked s src n"
    and "kd = ks \<Longrightarrow> unat dest + unat n \<le> unat src \<or> unat src + unat n \<le> unat dest"
  obtains s' where "shad_copy kd dest ks src n s = Inr s'" and "ts_inv s'" and "ts_le s s'" and "ts_labels s' = ts_labels s"
    and "td_mem s' = (\<lambda>(k, a). if k = kd \<and> unat (a - dest) < unat n then td_mem s (ks, src + (a - dest)) else td_mem s (k, a))"
proof -
  have ok: "fs_ok (ts_shad s kd)" "fs_ok (ts_shad s ks)" using assms(1) by (simp_all add: ts_inv_def)
  let ?tds = "read_range src (unat n) (ts_shad s ks)"
  note rd = read_range_ok [OF ok(2) assms(3)]
  have e: "td_elems n = unat n" by (rule fits_elems [OF ok(1) assms(2)])
  have f: "fits dest (length ?tds) (ts_shad s kd)" using assms(2) by (simp add: rd(1))
  have "\<exists>c. range_tainted dest n (ts_shad s kd) = Inr c" "\<exists>c. range_tainted src n (ts_shad s ks) = Inr c" if "track_taint_state s"
    using that assms(4,5) range_tainted_ok [OF assms(1,2)] range_tainted_ok [OF assms(1,3)] by (simp_all add: tracked_def)
  then have "\<exists>c. (if track_taint_state s then
              bindR (range_tainted dest n (ts_shad s kd)) (\<lambda>t. if t then Inr True else range_tainted src n (ts_shad s ks))
            else Inr False) = Inr c" by (cases "track_taint_state s") (metis bindR_simps(2))+
  then obtain c where c: "(if track_taint_state s then
              bindR (range_tainted dest n (ts_shad s kd)) (\<lambda>t. if t then Inr True else range_tainted src n (ts_shad s ks))
            else Inr False) = Inr c" ..
  have v: "\<forall>td \<in> set ?tds. ls_valid (ts_labels s) (td_ls td)"
    using assms(1) by (auto simp: ts_inv_def read_range_def dest!: in_set_takeD in_set_dropD)
  let ?s = "note_change c kd dest n (upd_shad kd (write_range dest ?tds (ts_shad s kd)) s)"
  show ?thesis
  proof (rule that [of ?s])
    have "\<not> (kd = ks \<and> unat dest < unat src + unat n \<and> unat src < unat dest + unat n)" using assms(6) by auto
    then show "shad_copy kd dest ks src n s = Inr ?s" unfolding shad_copy_def c e Let_def bindR_simps using assms(2,3) by auto
    show "ts_inv ?s" using write_range_inv(1) [OF assms(1) f v] by simp
    show "ts_le s ?s" using write_range_inv(2) [OF assms(1) f v] by (auto simp: ts_le_def same_shape_def)
    have "td_mem s (ks, src + (a - dest)) = Some (?tds ! unat (a - dest))" if "unat (a - dest) < unat n" for a
      using rd(2) [OF that] by simp
    then show "td_mem ?s = (\<lambda>(k, a). if k = kd \<and> unat (a - dest) < unat n then td_mem s (ks, src + (a - dest)) else td_mem s (k, a))"
      unfolding note_change_simps write_range_mem(2) [OF ok(1) f] rd(1) by (auto simp: fun_eq_iff)
  qed simp
qed

lemma shad_remove_ok:
  assumes "ts_inv s" and "fits addr (unat n) (ts_shad s k)" and "tracked s addr n"
  obtains s' where "shad_remove k addr n s = Inr s'" and "ts_inv s'" and "ts_le s s'" and "ts_labels s' = ts_labels s"
    and "td_mem s' = (\<lambda>(k', a). if k' = k \<and> unat (a - addr) < unat n then Some TaintData_empty else td_mem s (k', a))"
proof -
  have ok: "fs_ok (ts_shad s k)" using assms(1) by (simp add: ts_inv_def)
  let ?tds = "replicate (unat n) TaintData_empty"
  have e: "td_elems n = unat n" by (rule fits_elems [OF ok assms(2)])
  have f: "fits addr (length ?tds) (ts_shad s k)" using assms(2) by simp
  obtain c where c: "(if track_taint_state s then range_tainted addr n (ts_shad s k) else Inr False) = Inr c"
    using assms(3) range_tainted_ok [OF assms(1,2)] by (cases "track_taint_state s") (auto simp: tracked_def)
  have v: "\<forall>td \<in> set ?tds. ls_valid (ts_labels s) (td_ls td)" by (simp add: TaintData_empty_def)
  let ?s = "note_change c k addr n (upd_shad k (write_range addr ?tds (ts_shad s k)) s)"
  show ?thesis
  proof (rule that [of ?s])
    show "shad_remove k addr n s = Inr ?s" unfolding shad_remove_def c e using assms(2) by simp
    show "ts_inv ?s" using write_range_inv(1) [OF assms(1) f v] by simp
    show "ts_le s ?s" using write_range_inv(2) [OF assms(1) f v] by (auto simp: ts_le_def same_shape_def)
    show "td_mem ?s = (\<lambda>(k', a). if k' = k \<and> unat (a - addr) < unat n then Some TaintData_empty else td_mem s (k', a))"
      unfolding note_change_simps write_range_mem(2) [OF ok f] by (auto simp: fun_eq_iff)
  qed simp
qed

text \<open>Beyond \<open>2 ^ 32\<close> the range check looks at the wrong elements, and it ends only if it finds a label there.\<close>

lemma range_loop_endless:
  assumes "2 ^ 32 \<le> unat limit" and "\<And>i. query (ucast (i :: u32)) sh = Inr None"
  shows "range_loop n i limit sh = Inl Endless_loop"
proof (induction n arbitrary: i)
  case (Suc n)
  have "unat (ucast i :: u64) < 2 ^ 32" unfolding unat_ucast_u32 using unsigned_less [of i] by simp
  then have "(ucast i :: u64) < limit" using assms(1) by (simp add: word_less_nat_alt)
  then show ?case using Suc assms(2) by simp
qed simp

end
