(* ===== verification/Taint_Ops.thy ===== *)
theory Taint_Ops
  imports Fast_Shad
begin

text \<open>
  The taint operations that the LLVM pass inserts (\<^verbatim>\<open>panda_plugins/taint2/taint_ops.cpp\<close>): copies,
  parallel and mixed computations, tainted pointers, accesses to the CPU state, and the masks of
  controlled and known bits. Shifts of \<^verbatim>\<open>int\<close> values are undefined where C says so.
\<close>

section \<open>Loops\<close>

primrec foldR :: "('x \<Rightarrow> 's \<Rightarrow> rr_exit + 's) \<Rightarrow> 'x list \<Rightarrow> 's \<Rightarrow> rr_exit + 's" where
  "foldR f [] s = Inr s"
| "foldR f (x # xs) s = bindR (f x s) (foldR f xs)"

text \<open>\<^verbatim>\<open>for (uint64_t i = 0; i < n; i++)\<close> and \<^verbatim>\<open>for (unsigned i = 0; i < n; i++)\<close>, which never ends for
  bounds beyond 32 bits.\<close>

definition for_u64 :: "u64 \<Rightarrow> (u64 \<Rightarrow> 's \<Rightarrow> rr_exit + 's) \<Rightarrow> 's \<Rightarrow> rr_exit + 's" where
  "for_u64 n body s = foldR (\<lambda>i. body (of_nat i)) [0..<unat n] s"

definition for_u32 :: "u64 \<Rightarrow> (u64 \<Rightarrow> 's \<Rightarrow> rr_exit + 's) \<Rightarrow> 's \<Rightarrow> rr_exit + 's" where
  "for_u32 n body s =
     bindR (foldR (\<lambda>i. body (of_nat i)) [0..<min (unat n) (2 ^ 32)] s) (\<lambda>s.
     if unat n < 2 ^ 32 then Inr s else Inl Endless_loop)"

section \<open>The log of addresses\<close>

definition TAINT2_MEMLOG_SIZE :: u64 where
  "TAINT2_MEMLOG_SIZE = 2"

record taint2_memlog =
  ml_ring :: "u64 list"
  ml_idx :: u64

definition taint_memlog_pop :: "taint2_memlog \<Rightarrow> rr_exit + (u64 \<times> taint2_memlog)" where
  "taint_memlog_pop m =
     (if unat (ml_idx m) < length (ml_ring m)
      then Inr (ml_ring m ! unat (ml_idx m),
                m\<lparr>ml_idx := (ml_idx m + TAINT2_MEMLOG_SIZE - 1) mod TAINT2_MEMLOG_SIZE\<rparr>)
      else Inl Out_of_bounds)"

definition taint_memlog_push :: "u64 \<Rightarrow> taint2_memlog \<Rightarrow> rr_exit + taint2_memlog" where
  "taint_memlog_push val m =
     (let m = m\<lparr>ml_idx := (ml_idx m + 1) mod TAINT2_MEMLOG_SIZE\<rparr>
      in if unat (ml_idx m) < length (ml_ring m)
         then Inr (m\<lparr>ml_ring := (ml_ring m)[unat (ml_idx m) := val]\<rparr>)
         else Inl Out_of_bounds)"

section \<open>Frames\<close>

definition MAXREGSIZE :: u64 where "MAXREGSIZE = 16"
definition MAXFRAMESIZE :: u64 where "MAXFRAMESIZE = 5000"

definition taint_reset_frame :: "shad_id \<Rightarrow> 'a taint_state_scheme \<Rightarrow> 'a taint_state_scheme" where
  "taint_reset_frame k s = upd_shad k (reset_frame (ts_shad s k)) s"

definition taint_push_frame :: "shad_id \<Rightarrow> 'a taint_state_scheme \<Rightarrow> 'a taint_state_scheme" where
  "taint_push_frame k s = upd_shad k (push_frame (MAXREGSIZE * MAXFRAMESIZE) (ts_shad s k)) s"

definition taint_pop_frame :: "shad_id \<Rightarrow> 'a taint_state_scheme \<Rightarrow> 'a taint_state_scheme" where
  "taint_pop_frame k s = upd_shad k (pop_frame (MAXREGSIZE * MAXFRAMESIZE) (ts_shad s k)) s"

section \<open>Masks of controlled and known bits\<close>

record CBMasks =
  cbm_cb :: u64
  cbm_one :: u64
  cbm_zero :: u64

definition cbm_0 :: CBMasks where
  "cbm_0 = \<lparr>cbm_cb = 0, cbm_one = 0, cbm_zero = 0\<rparr>"

text \<open>\<^verbatim>\<open>for (int i = size - 1; i >= 0; i--)\<close>: the bound is truncated to an \<^verbatim>\<open>int\<close>.\<close>

definition int_bound :: "u64 \<Rightarrow> nat" where
  "int_bound sz = nat (sint (ucast (sz - 1) :: u32) + 1)"

definition compile_cb_masks :: "u64 \<Rightarrow> u64 \<Rightarrow> FastShad \<Rightarrow> rr_exit + CBMasks" where
  "compile_cb_masks addr sz sh =
     foldR (\<lambda>i m. bindR (query_full (addr + of_nat i) sh) (\<lambda>td.
        Inr \<lparr>cbm_cb = push_bit 8 (cbm_cb m) OR ucast (td_cb_mask td),
             cbm_one = push_bit 8 (cbm_one m) OR ucast (td_one_mask td),
             cbm_zero = push_bit 8 (cbm_zero m) OR ucast (td_zero_mask td)\<rparr>))
       (rev [0..<int_bound sz]) cbm_0"

definition write_cb_masks :: "shad_id \<Rightarrow> u64 \<Rightarrow> u64 \<Rightarrow> CBMasks \<Rightarrow> 'a taint_state_scheme \<Rightarrow> rr_exit + 'a taint_state_scheme" where
  "write_cb_masks k addr sz masks s =
     bindR (for_u32 sz (\<lambda>i (m, s). bindR (query_full (addr + i) (ts_shad s k)) (\<lambda>td.
        let td = td\<lparr>td_cb_mask := ucast (cbm_cb m), td_one_mask := ucast (cbm_one m), td_zero_mask := ucast (cbm_zero m)\<rparr>;
            m = \<lparr>cbm_cb = drop_bit 8 (cbm_cb m), cbm_one = drop_bit 8 (cbm_one m), cbm_zero = drop_bit 8 (cbm_zero m)\<rparr>
        in bindR (set_full k (addr + i) td s) (\<lambda>s. Inr (m, s)))) (masks, s)) (\<lambda>(m, s). Inr s)"

text \<open>
  What the operations ask of an LLVM instruction: its opcode, the value of its second operand if that
  is a constant integer, and for \<^verbatim>\<open>getelementptr\<close> whether all indices are constant.
\<close>

datatype llvm_opcode =
    Add | Sub | Xor | ZExt | IntToPtr | PtrToInt | BitCast | SExt | Store | Load | ExtractValue | InsertValue
  | Trunc | Mul | URem | SRem | UDiv | SDiv | And | Or | Shl | LShr | AShr
  | FAdd | FSub | FMul | FDiv | FRem | Call | ICmp | FCmp | GetElementPtr | Other_opcode

record Instruction =
  getOpcode :: llvm_opcode
  rhs_const :: "u64 option"
  hasAllConstantIndices :: bool

text \<open>
  \<^verbatim>\<open>__builtin_clz\<close> and \<^verbatim>\<open>__builtin_ctz\<close> take an \<^verbatim>\<open>unsigned int\<close> and are undefined at 0. \<^verbatim>\<open>(1 << n) - 1\<close> on
  \<^verbatim>\<open>int\<close> is defined below 31; \<^verbatim>\<open>1 << 31\<close> alone is the least \<^verbatim>\<open>int\<close>. Shifts of \<^verbatim>\<open>uint64_t\<close> are defined below 64.
\<close>

definition builtin_clz :: "u32 \<Rightarrow> rr_exit + u64" where
  "builtin_clz w = (if w = 0 then Inl Undefined_behaviour
     else Inr (of_nat (length (takeWhile (\<lambda>i. \<not> bit w i) (rev [0..<32])))))"

definition builtin_ctz :: "u32 \<Rightarrow> rr_exit + u64" where
  "builtin_ctz w = (if w = 0 then Inl Undefined_behaviour
     else Inr (of_nat (length (takeWhile (\<lambda>i. \<not> bit w i) [0..<32]))))"

definition int_low_mask :: "u64 \<Rightarrow> rr_exit + u64" where
  "int_low_mask n = (if n < 31 then Inr (mask (unat n)) else Inl Undefined_behaviour)"

definition int_single_bit :: "u64 \<Rightarrow> rr_exit + u64" where
  "int_single_bit n = (if n < 31 then Inr (push_bit (unat n) 1)
     else if n = 31 then Inr (NOT (mask 31)) else Inl Undefined_behaviour)"

definition shl64 :: "u64 \<Rightarrow> u64 \<Rightarrow> rr_exit + u64" where
  "shl64 v n = (if n < 64 then Inr (push_bit (unat n) v) else Inl Undefined_behaviour)"

definition shr64 :: "u64 \<Rightarrow> u64 \<Rightarrow> rr_exit + u64" where
  "shr64 v n = (if n < 64 then Inr (drop_bit (unat n) v) else Inl Undefined_behaviour)"

text \<open>The \<^verbatim>\<open>switch\<close> of \<^verbatim>\<open>update_cb\<close>; \<open>None\<close> is its default branch, which returns.\<close>

definition update_masks :: "Instruction \<Rightarrow> u64 \<Rightarrow> CBMasks \<Rightarrow> rr_exit + CBMasks option" where
  "update_masks I sz m =
     (let cb = cbm_cb m; one = cbm_one m; zero = cbm_zero m;
          literal = (case rhs_const I of Some v \<Rightarrow> v | None \<Rightarrow> - 1);
          out = (\<lambda>c o' z. Inr (Some \<lparr>cbm_cb = c, cbm_one = o', cbm_zero = z\<rparr>))
      in case getOpcode I of
        Add \<Rightarrow> bindR (builtin_clz (ucast literal)) (\<lambda>c. bindR (int_low_mask (64 - c)) (\<lambda>lm. out cb (one AND NOT lm) (zero AND NOT lm)))
      | Sub \<Rightarrow> bindR (builtin_clz (ucast literal)) (\<lambda>c. bindR (int_low_mask (64 - c)) (\<lambda>lm. out cb (one AND NOT lm) (zero AND NOT lm)))
      | Xor \<Rightarrow> out cb ((one AND NOT literal) OR (literal AND zero)) ((zero AND NOT literal) OR (literal AND one))
      | ZExt \<Rightarrow> out cb one zero
      | IntToPtr \<Rightarrow> out cb one zero
      | PtrToInt \<Rightarrow> out cb one zero
      | BitCast \<Rightarrow> out cb one zero
      | SExt \<Rightarrow> out cb one zero
      | Store \<Rightarrow> out cb one zero
      | Load \<Rightarrow> out cb one zero
      | ExtractValue \<Rightarrow> out cb one zero
      | InsertValue \<Rightarrow> out cb one zero
      | Trunc \<Rightarrow> bindR (int_low_mask (sz * 8)) (\<lambda>lm. out (cb AND lm) (one AND lm) (zero AND lm))
      | Mul \<Rightarrow> bindR (builtin_ctz (ucast literal)) (\<lambda>tz. bindR (shl64 cb tz) (\<lambda>cb. bindR (int_low_mask tz) (\<lambda>lm. out cb 0 lm)))
      | URem \<Rightarrow> bindR (builtin_clz (ucast literal)) (\<lambda>c. bindR (int_low_mask (64 - c)) (\<lambda>lm. out (cb AND lm) 0 0))
      | SRem \<Rightarrow> bindR (builtin_clz (ucast literal)) (\<lambda>c. bindR (int_low_mask (64 - c)) (\<lambda>lm. out (cb AND lm) 0 0))
      | UDiv \<Rightarrow> bindR (builtin_clz (ucast literal)) (\<lambda>c. bindR (shr64 cb (64 - c)) (\<lambda>cb. out cb 0 0))
      | SDiv \<Rightarrow> bindR (builtin_clz (ucast literal)) (\<lambda>c. bindR (shr64 cb (64 - c)) (\<lambda>cb. out cb 0 0))
      | And \<Rightarrow> out (cb AND literal) (one AND literal) (zero OR NOT literal)
      | Or \<Rightarrow> out (cb AND NOT literal) (one OR literal) (zero AND NOT literal)
      | Shl \<Rightarrow> bindR (shl64 cb literal) (\<lambda>cb'. bindR (shl64 one literal) (\<lambda>one'. bindR (shl64 zero literal) (\<lambda>zero'.
          bindR (int_low_mask literal) (\<lambda>lm. out cb' one' (zero' OR lm)))))
      | LShr \<Rightarrow> bindR (shr64 cb literal) (\<lambda>cb'. bindR (shr64 one literal) (\<lambda>one'. bindR (shr64 zero literal) (\<lambda>zero'.
          bindR (int_low_mask (64 - literal)) (\<lambda>lm. out cb' one' (zero' OR NOT lm)))))
      | AShr \<Rightarrow> bindR (shr64 cb literal) (\<lambda>cb'. bindR (shr64 one literal) (\<lambda>one'. bindR (shr64 zero literal) (\<lambda>zero'.
          bindR (int_single_bit (sz * 8 - 1)) (\<lambda>sb.
          if one AND sb \<noteq> 0 then bindR (int_low_mask (64 - literal)) (\<lambda>lm. out cb' (one' OR NOT lm) zero')
          else if zero AND sb \<noteq> 0 then bindR (int_low_mask (64 - literal)) (\<lambda>lm. out cb' one' (zero' OR NOT lm))
          else out cb' one' zero'))))
      | FAdd \<Rightarrow> out 0 0 0
      | FSub \<Rightarrow> out 0 0 0
      | FMul \<Rightarrow> out 0 0 0
      | FDiv \<Rightarrow> out 0 0 0
      | FRem \<Rightarrow> out 0 0 0
      | Call \<Rightarrow> out 0 0 0
      | ICmp \<Rightarrow> out 0 0 0
      | FCmp \<Rightarrow> out 0 0 0
      | GetElementPtr \<Rightarrow> if hasAllConstantIndices I then out cb 0 0 else out 0 0 0
      | Other_opcode \<Rightarrow> Inr None)"

definition update_cb :: "shad_id \<Rightarrow> u64 \<Rightarrow> shad_id \<Rightarrow> u64 \<Rightarrow> u64 \<Rightarrow> Instruction option
    \<Rightarrow> 'a taint_state_scheme \<Rightarrow> rr_exit + 'a taint_state_scheme" where
  "update_cb kd dest ks src sz I s =
     (case I of
        None \<Rightarrow> Inr s
      | Some I \<Rightarrow>
          bindR (compile_cb_masks src sz (ts_shad s ks)) (\<lambda>cb_masks.
          bindR (update_masks I sz cb_masks) (\<lambda>r.
          case r of None \<Rightarrow> Inr s | Some cb_masks \<Rightarrow> write_cb_masks kd dest sz cb_masks s)))"

section \<open>Taint operations\<close>

definition taint_copy :: "shad_id \<Rightarrow> u64 \<Rightarrow> shad_id \<Rightarrow> u64 \<Rightarrow> u64 \<Rightarrow> Instruction option
    \<Rightarrow> 'a taint_state_scheme \<Rightarrow> rr_exit + 'a taint_state_scheme" where
  "taint_copy kd dest ks src sz I s =
     (if dest + sz \<ge> fs_size (ts_shad s kd) \<or> src + sz \<ge> fs_size (ts_shad s ks) then Inr s
      else bindR (shad_copy kd dest ks src sz s) (\<lambda>s.
           if I \<noteq> None then update_cb kd dest ks src sz I s else Inr s))"

definition parallel_masks :: "Instruction option \<Rightarrow> CBMasks \<Rightarrow> CBMasks \<Rightarrow> CBMasks" where
  "parallel_masks I m1 m2 =
     (if I \<noteq> None \<and> getOpcode (the I) = Or then
        \<lparr>cbm_cb = (cbm_zero m1 AND cbm_cb m2) OR (cbm_zero m2 AND cbm_cb m1),
         cbm_one = cbm_one m1 OR cbm_one m2, cbm_zero = cbm_zero m1 AND cbm_zero m2\<rparr>
      else if I \<noteq> None \<and> getOpcode (the I) = And then
        \<lparr>cbm_cb = (cbm_one m1 AND cbm_cb m2) OR (cbm_one m2 AND cbm_cb m1),
         cbm_one = cbm_one m1 AND cbm_one m2, cbm_zero = cbm_zero m1 OR cbm_zero m2\<rparr>
      else cbm_0)"

definition taint_parallel_compute :: "shad_id \<Rightarrow> u64 \<Rightarrow> u64 \<Rightarrow> u64 \<Rightarrow> u64 \<Rightarrow> u64 \<Rightarrow> Instruction option
    \<Rightarrow> 'a taint_state_scheme \<Rightarrow> rr_exit + 'a taint_state_scheme" where
  "taint_parallel_compute k dest ignored src1 src2 src_size I s =
     bindR (for_u64 src_size (\<lambda>i s.
        bindR (query_full (src1 + i) (ts_shad s k)) (\<lambda>td1.
        bindR (query_full (src2 + i) (ts_shad s k)) (\<lambda>td2.
        bindR (make_union td1 td2 True s) (\<lambda>(td, s).
        set_full k (dest + i) td s)))) s) (\<lambda>s.
     bindR (compile_cb_masks src1 src_size (ts_shad s k)) (\<lambda>cb_mask_1.
     bindR (compile_cb_masks src2 src_size (ts_shad s k)) (\<lambda>cb_mask_2.
     write_cb_masks k dest src_size (parallel_masks I cb_mask_1 cb_mask_2) s)))"

definition mixed_labels :: "shad_id \<Rightarrow> u64 \<Rightarrow> u64 \<Rightarrow> bool \<Rightarrow> 'a taint_state_scheme \<Rightarrow> rr_exit + (TaintData \<times> 'a taint_state_scheme)" where
  "mixed_labels k addr sz increment s =
     bindR (query_full addr (ts_shad s k)) (\<lambda>td.
     bindR (foldR (\<lambda>i (td, s). bindR (query_full (addr + of_nat i) (ts_shad s k)) (\<lambda>t. make_union td t False s))
       [1..<unat sz] (td, s)) (\<lambda>(td, s).
     Inr (if increment then increment_tcn td else td, s)))"

definition bulk_set :: "shad_id \<Rightarrow> u64 \<Rightarrow> u64 \<Rightarrow> TaintData \<Rightarrow> 'a taint_state_scheme \<Rightarrow> rr_exit + 'a taint_state_scheme" where
  "bulk_set k addr sz td s = for_u64 sz (\<lambda>i. set_full k (addr + i) td) s"

definition taint_mix_compute :: "shad_id \<Rightarrow> u64 \<Rightarrow> u64 \<Rightarrow> u64 \<Rightarrow> u64 \<Rightarrow> u64 \<Rightarrow> Instruction option
    \<Rightarrow> 'a taint_state_scheme \<Rightarrow> rr_exit + 'a taint_state_scheme" where
  "taint_mix_compute k dest dest_size src1 src2 src_size ignored s =
     bindR (mixed_labels k src1 src_size False s) (\<lambda>(td1, s).
     bindR (mixed_labels k src2 src_size False s) (\<lambda>(td2, s).
     bindR (make_union td1 td2 True s) (\<lambda>(td, s).
     bulk_set k dest dest_size td s)))"

definition taint_delete :: "shad_id \<Rightarrow> u64 \<Rightarrow> u64 \<Rightarrow> 'a taint_state_scheme \<Rightarrow> rr_exit + 'a taint_state_scheme" where
  "taint_delete k dest sz s = (if dest \<ge> fs_size (ts_shad s k) then Inr s else shad_remove k dest sz s)"

definition taint_set :: "shad_id \<Rightarrow> u64 \<Rightarrow> u64 \<Rightarrow> shad_id \<Rightarrow> u64 \<Rightarrow> 'a taint_state_scheme \<Rightarrow> rr_exit + 'a taint_state_scheme" where
  "taint_set kd dest dest_size ks src s = bindR (query_full src (ts_shad s ks)) (\<lambda>td. bulk_set kd dest dest_size td s)"

definition taint_mix :: "shad_id \<Rightarrow> u64 \<Rightarrow> u64 \<Rightarrow> u64 \<Rightarrow> u64 \<Rightarrow> Instruction option
    \<Rightarrow> 'a taint_state_scheme \<Rightarrow> rr_exit + 'a taint_state_scheme" where
  "taint_mix k dest dest_size src src_size I s =
     bindR (mixed_labels k src src_size True s) (\<lambda>(td, s).
     bindR (bulk_set k dest dest_size td s) (\<lambda>s.
     if I \<noteq> None then update_cb k dest k src dest_size I s else Inr s))"

definition ones :: u64 where "ones = - 1"

definition taint_pointer :: "shad_id \<Rightarrow> u64 \<Rightarrow> shad_id \<Rightarrow> u64 \<Rightarrow> u64 \<Rightarrow> shad_id \<Rightarrow> u64 \<Rightarrow> u64
    \<Rightarrow> 'a taint_state_scheme \<Rightarrow> rr_exit + 'a taint_state_scheme" where
  "taint_pointer kd dest kp ptr ptr_size ks src sz s =
     (if dest + sz > fs_size (ts_shad s kd) then Inr s
      else
        let src = (if src + sz > fs_size (ts_shad s ks) then ones else src) in
        bindR (mixed_labels kp ptr ptr_size False s) (\<lambda>(ptr_td, s).
        if src = ones then bulk_set kd dest sz ptr_td s
        else for_u32 sz (\<lambda>i s.
               bindR (query_full (src + i) (ts_shad s ks)) (\<lambda>byte_td.
               bindR (make_union ptr_td byte_td False s) (\<lambda>(dest_td, s).
               set_full kd (dest + i) (dest_td\<lparr>td_cb_mask := td_cb_mask byte_td\<rparr>) s))) s))"

definition taint_sext :: "shad_id \<Rightarrow> u64 \<Rightarrow> u64 \<Rightarrow> u64 \<Rightarrow> u64 \<Rightarrow> 'a taint_state_scheme \<Rightarrow> rr_exit + 'a taint_state_scheme" where
  "taint_sext k dest dest_size src src_size s =
     bindR (shad_copy k dest k src src_size s) (\<lambda>s.
     bindR (query_full (dest + src_size - 1) (ts_shad s k)) (\<lambda>td.
     bulk_set k (dest + src_size) (dest_size - src_size) td s))"

text \<open>The variable arguments are pairs of a value and its selector; reading beyond them is undefined.\<close>

fun taint_select :: "shad_id \<Rightarrow> u64 \<Rightarrow> u64 \<Rightarrow> u64 \<Rightarrow> (u64 \<times> u64) list \<Rightarrow> 'a taint_state_scheme \<Rightarrow> rr_exit + 'a taint_state_scheme" where
  "taint_select k dest sz selector [] s = Inl Undefined_behaviour"
| "taint_select k dest sz selector ((src, srcsel) # args) s =
     (if src = ones \<and> srcsel = ones then Inr s
      else if srcsel = selector then (if src \<noteq> ones then shad_copy k dest k src sz s else Inr s)
      else taint_select k dest sz selector args s)"

section \<open>Accesses to the CPU state\<close>

text \<open>The layout of \<^verbatim>\<open>CPUState\<close> is the compiler's: offset and size of the members that are named.\<close>

record cpu_layout =
  sizeof_CPUState :: u64
  sizeof_reg :: u64
  off_regs :: "u64 \<times> u64"
  off_fpregs :: "u64 \<times> u64"
  off_xmm_regs :: "u64 \<times> u64"
  off_xmm_t0 :: "u64 \<times> u64"
  off_mmx_t0 :: "u64 \<times> u64"
  off_ymmh_regs :: "u64 \<times> u64"

definition cpu_contains :: "u64 \<times> u64 \<Rightarrow> u64 \<Rightarrow> bool" where
  "cpu_contains member offset \<longleftrightarrow> fst member \<le> offset \<and> offset < fst member + snd member"

definition find_offset :: "cpu_layout \<Rightarrow> shad_id \<Rightarrow> shad_id \<Rightarrow> u64 \<Rightarrow> u64 \<Rightarrow> shad_id \<times> u64" where
  "find_offset L greg gspec offset labels_per_reg =
     (if cpu_contains (off_regs L) offset
      then (greg, (offset - fst (off_regs L)) * labels_per_reg div sizeof_reg L)
      else (gspec, offset))"

definition is_irrelevant :: "cpu_layout \<Rightarrow> u64 \<Rightarrow> bool" where
  "is_irrelevant L offset \<longleftrightarrow>
     \<not> (cpu_contains (off_regs L) offset \<or> cpu_contains (off_fpregs L) offset \<or> cpu_contains (off_xmm_regs L) offset
        \<or> cpu_contains (off_xmm_t0 L) offset \<or> cpu_contains (off_mmx_t0 L) offset \<or> cpu_contains (off_ymmh_regs L) offset)"

definition taint_host_copy :: "cpu_layout \<Rightarrow> u64 \<Rightarrow> u64 \<Rightarrow> shad_id \<Rightarrow> u64 \<Rightarrow> shad_id \<Rightarrow> shad_id \<Rightarrow> u64 \<Rightarrow> u64 \<Rightarrow> bool
    \<Rightarrow> 'a taint_state_scheme \<Rightarrow> rr_exit + 'a taint_state_scheme" where
  "taint_host_copy L env_ptr addr llv llv_offset greg gspec sz labels_per_reg is_store s =
     (let offset = addr - env_ptr in
      if is_irrelevant L offset then Inr s
      else
        let (state_shad, state_addr) = find_offset L greg gspec offset labels_per_reg;
            shad_src = (if is_store then llv else state_shad);
            src = (if is_store then llv_offset else state_addr);
            shad_dest = (if is_store then state_shad else llv);
            dest = (if is_store then state_addr else llv_offset)
        in shad_copy shad_dest dest shad_src src sz s)"

definition outside_CPUState :: "cpu_layout \<Rightarrow> u64 \<Rightarrow> bool" where
  "outside_CPUState L offset \<longleftrightarrow> sint offset < 0 \<or> offset \<ge> sizeof_CPUState L"

definition taint_host_memcpy :: "cpu_layout \<Rightarrow> u64 \<Rightarrow> u64 \<Rightarrow> u64 \<Rightarrow> shad_id \<Rightarrow> shad_id \<Rightarrow> u64 \<Rightarrow> u64
    \<Rightarrow> 'a taint_state_scheme \<Rightarrow> rr_exit + 'a taint_state_scheme" where
  "taint_host_memcpy L env_ptr dest src greg gspec sz labels_per_reg s =
     (let dest_offset = dest - env_ptr; src_offset = src - env_ptr in
      if outside_CPUState L dest_offset \<or> outside_CPUState L src_offset then Inr s
      else
        let (shad_dest, addr_dest) = find_offset L greg gspec dest_offset labels_per_reg;
            (shad_src, addr_src) = find_offset L greg gspec src_offset labels_per_reg
        in shad_copy shad_dest addr_dest shad_src addr_src sz s)"

definition taint_host_delete :: "cpu_layout \<Rightarrow> u64 \<Rightarrow> u64 \<Rightarrow> shad_id \<Rightarrow> shad_id \<Rightarrow> u64 \<Rightarrow> u64
    \<Rightarrow> 'a taint_state_scheme \<Rightarrow> rr_exit + 'a taint_state_scheme" where
  "taint_host_delete L env_ptr dest_addr greg gspec sz labels_per_reg s =
     (let offset = dest_addr - env_ptr in
      if outside_CPUState L offset then Inr s
      else let (shad, dest) = find_offset L greg gspec offset labels_per_reg in shad_remove shad dest sz s)"

end
