(* ===== verification/Taint_Propagation.thy ===== *)
theory Taint_Propagation
  imports Taint_Ops
begin

text \<open>
  What the taint operations do to the labels of the bytes: the propagation rules that the comments of
  \<^verbatim>\<open>taint_ops.h\<close> state, proved of the operations on shadow arrays and shared label sets.
\<close>

section \<open>Loops\<close>

lemma foldR_append: "foldR f (xs @ ys) s = bindR (foldR f xs s) (foldR f ys)"
  by (induction xs arbitrary: s) (simp_all add: bindR_assoc cong: bindR_cong)

lemma foldR_upt_inv:
  assumes "Q m s" and "m \<le> n" and "\<And>i s. m \<le> i \<Longrightarrow> i < n \<Longrightarrow> Q i s \<Longrightarrow> \<exists>s'. body i s = Inr s' \<and> Q (Suc i) s'"
  shows "\<exists>s'. foldR body [m..<n] s = Inr s' \<and> Q n s'"
  using assms(2,3)
proof (induction n)
  case 0
  then show ?case using assms(1) by simp
next
  case (Suc n)
  show ?case
  proof (cases "m = Suc n")
    case True
    then show ?thesis using assms(1) by simp
  next
    case False
    then have "m \<le> n" using Suc.prems(1) by simp
    with Suc.IH Suc.prems(2) obtain s1 where 1: "foldR body [m..<n] s = Inr s1" "Q n s1"
      by (metis less_Suc_eq)
    from Suc.prems(2) [OF \<open>m \<le> n\<close> lessI 1(2)] obtain s2 where "body n s1 = Inr s2" "Q (Suc n) s2" by blast
    then show ?thesis using 1 \<open>m \<le> n\<close> by (simp add: foldR_append)
  qed
qed

lemma unat_offset_eq:
  fixes a addr :: u64
  assumes "m < 2 ^ 64"
  shows "a = addr + of_nat m \<longleftrightarrow> unat (a - addr) = m"
proof -
  have u: "unat (of_nat m :: u64) = m" using assms by (simp add: unsigned_of_nat take_bit_nat_eq_self)
  have "a = addr + of_nat m \<longleftrightarrow> a - addr = of_nat m" by (simp add: algebra_simps)
  also have "\<dots> \<longleftrightarrow> unat (a - addr) = m" using u by (metis unsigned_word_eqI)
  finally show ?thesis .
qed

lemma unat_offset_less_Suc:
  fixes a addr :: u64
  assumes "m < 2 ^ 64"
  shows "unat (a - addr) < Suc m \<longleftrightarrow> unat (a - addr) < m \<or> a = addr + of_nat m"
  using unat_offset_eq [OF assms, of a addr] by auto

lemma fits_td_mem:
  assumes "fs_ok (ts_shad s k)" and "fits addr n (ts_shad s k)" and "i < n"
  shows "\<exists>td. td_mem s (k, addr + of_nat i) = Some td"
  using read_range_ok(2) [OF assms] by blast

lemma fits_small:
  assumes "fs_ok sh" and "fits addr n sh" and "i < n"
  shows "i < 2 ^ 64"
  using fits_bound(2) [OF assms(1,2)] assms(3) by simp

lemma ts_inv_ok: "ts_inv s \<Longrightarrow> fs_ok (ts_shad s k)"
  by (simp add: ts_inv_def)

section \<open>The labels of a byte\<close>

definition lab :: "'a taint_state_scheme \<Rightarrow> shad_id \<times> u64 \<Rightarrow> u32 set" where
  "lab s ka = (case td_mem s ka of None \<Rightarrow> {} | Some td \<Rightarrow> labels_of (ts_labels s) (td_ls td))"

lemma lab_le:
  assumes "ts_inv s" and "ls_le (ts_labels s) (ts_labels s')" and "map_option td_ls (td_mem s' ka) = map_option td_ls (td_mem s ka)"
  shows "lab s' ka = lab s ka"
proof (cases "td_mem s ka")
  case (Some td)
  then obtain td' where td': "td_mem s' ka = Some td'" "td_ls td' = td_ls td" using assms(3) by (cases "td_mem s' ka") auto
  have "ls_valid (ts_labels s) (td_ls td)" using assms(1) Some by (rule td_mem_valid)
  then show ?thesis using ls_le_labels [OF assms(2)] Some td' by (simp add: lab_def)
next
  case None
  then show ?thesis using assms(3) by (cases "td_mem s' ka") (simp_all add: lab_def)
qed

lemma set_full_lab:
  assumes "ts_inv s" and "td_mem s (k, a) \<noteq> None" and "ls_valid (ts_labels s) (td_ls td)"
  obtains s' where "set_full k a td s = Inr s'" and "ts_inv s'" and "ts_le s s'"
    and "td_mem s' = (td_mem s)((k, a) \<mapsto> td)" and "lab s' = (lab s)((k, a) := labels_of (ts_labels s) (td_ls td))"
    and "ts_labels s' = ts_labels s"
proof -
  from assms obtain s' where s': "set_full k a td s = Inr s'" "ts_inv s'" "ts_le s s'"
    "td_mem s' = (td_mem s)((k, a) \<mapsto> td)" "ts_labels s' = ts_labels s" by (rule set_full_ok)
  have "lab s' = (lab s)((k, a) := labels_of (ts_labels s) (td_ls td))"
    by (auto simp: fun_eq_iff lab_def s' split: option.splits)
  with s' show ?thesis using that by blast
qed

lemma make_union_lab:
  assumes "ts_inv s" and "ls_valid (ts_labels s) (td_ls td1)" and "ls_valid (ts_labels s) (td_ls td2)"
  obtains td s' where "make_union td1 td2 inc s = Inr (td, s')" and "ts_inv s'" and "ts_le s s'" and "lab s' = lab s"
    and "td_mem s' = td_mem s" and "ls_valid (ts_labels s') (td_ls td)"
    and "labels_of (ts_labels s') (td_ls td) = labels_of (ts_labels s) (td_ls td1) \<union> labels_of (ts_labels s) (td_ls td2)"
proof -
  from make_union_ok [OF assms, of inc] obtain td s' where u: "make_union td1 td2 inc s = Inr (td, s')" "ts_inv s'" "ts_le s s'"
    "td_mem s' = td_mem s" "ls_valid (ts_labels s') (td_ls td)"
    "labels_of (ts_labels s') (td_ls td) = labels_of (ts_labels s) (td_ls td1) \<union> labels_of (ts_labels s) (td_ls td2)"
    by metis
  have "lab s' = lab s" by (rule ext, rule lab_le [OF assms(1)]) (use u(3,4) in \<open>simp_all add: ts_le_def\<close>)
  with u show ?thesis using that by blast
qed

section \<open>Writing the same data to a range\<close>

lemma bulk_set_ok:
  assumes "ts_inv s" and "fits addr (unat n) (ts_shad s k)" and "ls_valid (ts_labels s) (td_ls td)"
  obtains s' where "bulk_set k addr n td s = Inr s'" and "ts_inv s'" and "ts_le s s'" and "ts_labels s' = ts_labels s"
    and "td_mem s' = (\<lambda>(k', a). if k' = k \<and> unat (a - addr) < unat n then Some td else td_mem s (k', a))"
proof -
  let ?Q = "\<lambda>i s'. ts_inv s' \<and> ts_le s s' \<and> ts_labels s' = ts_labels s
    \<and> td_mem s' = (\<lambda>(k', a). if k' = k \<and> unat (a - addr) < i then Some td else td_mem s (k', a))"
  have "\<exists>s'. foldR (\<lambda>i. set_full k (addr + of_nat i) td) [0..<unat n] s = Inr s' \<and> ?Q (unat n) s'"
  proof (rule foldR_upt_inv [where Q = ?Q])
    show "?Q 0 s" using assms(1) by (auto simp: fun_eq_iff)
    fix i s' assume i: "i < unat n" and Q: "?Q i s'"
    have Q': "ts_inv s'" "ts_le s s'" "ts_labels s' = ts_labels s"
      "td_mem s' = (\<lambda>(k', a). if k' = k \<and> unat (a - addr) < i then Some td else td_mem s (k', a))" using Q by blast+
    have "td_mem s' (k, addr + of_nat i) \<noteq> None"
      using fits_td_mem [OF ts_inv_ok [OF assms(1)] assms(2) i] Q'(4) by auto
    moreover have "ls_valid (ts_labels s') (td_ls td)" using Q'(3) assms(3) by simp
    ultimately obtain s'' where s'': "set_full k (addr + of_nat i) td s' = Inr s''" "ts_inv s''" "ts_le s' s''"
      "td_mem s'' = (td_mem s')((k, addr + of_nat i) \<mapsto> td)" "ts_labels s'' = ts_labels s'"
      by (rule set_full_ok [OF Q'(1)])
    have "i < 2 ^ 64" using fits_small [OF ts_inv_ok [OF assms(1)] assms(2) i] .
    then have "td_mem s'' = (\<lambda>(k', a). if k' = k \<and> unat (a - addr) < Suc i then Some td else td_mem s (k', a))"
      unfolding s''(4) Q'(4) by (simp add: fun_eq_iff unat_offset_less_Suc)
    then show "\<exists>s''. set_full k (addr + of_nat i) td s' = Inr s'' \<and> ?Q (Suc i) s''"
      using s''(1,2,5) Q'(3) ts_le_trans [OF Q'(2) s''(3)] by simp
  qed simp
  then show ?thesis using that by (auto simp: bulk_set_def for_u64_def)
qed

lemma bulk_set_lab:
  assumes "ts_inv s" and "fits addr (unat n) (ts_shad s k)" and "ls_valid (ts_labels s) (td_ls td)"
  obtains s' where "bulk_set k addr n td s = Inr s'" and "ts_inv s'" and "ts_le s s'"
    and "lab s' = (\<lambda>(k', a). if k' = k \<and> unat (a - addr) < unat n then labels_of (ts_labels s) (td_ls td) else lab s (k', a))"
proof -
  from assms obtain s' where s': "bulk_set k addr n td s = Inr s'" "ts_inv s'" "ts_le s s'" "ts_labels s' = ts_labels s"
    "td_mem s' = (\<lambda>(k', a). if k' = k \<and> unat (a - addr) < unat n then Some td else td_mem s (k', a))" by (rule bulk_set_ok)
  then show ?thesis by (intro that [of s']) (auto simp: fun_eq_iff lab_def split: option.splits)
qed

section \<open>Mixing the labels of a range\<close>

lemma mixed_labels_ok:
  assumes "ts_inv s" and "fits addr (unat n) (ts_shad s k)" and "n \<noteq> 0"
  obtains td s' where "mixed_labels k addr n inc s = Inr (td, s')" and "ts_inv s'" and "ts_le s s'" and "lab s' = lab s"
    and "td_mem s' = td_mem s" and "ls_valid (ts_labels s') (td_ls td)"
    and "labels_of (ts_labels s') (td_ls td) = (\<Union>i < unat n. lab s (k, addr + of_nat i))"
proof -
  have n: "0 < unat n" using assms(3) by (simp add: unat_eq_0 word_neq_0_conv unat_gt_0)
  note mem = fits_td_mem [OF ts_inv_ok [OF assms(1)] assms(2)]
  obtain td0 where td0: "td_mem s (k, addr) = Some td0" using mem [OF n] by auto
  have q0: "query_full addr (ts_shad s k) = Inr td0" using td0 by (rule query_full_td_mem)
  let ?Q = "\<lambda>i (td :: TaintData, s'). ts_inv s' \<and> ts_le s s' \<and> lab s' = lab s \<and> td_mem s' = td_mem s \<and> ls_valid (ts_labels s') (td_ls td)
    \<and> labels_of (ts_labels s') (td_ls td) = (\<Union>j < i. lab s (k, addr + of_nat j))"
  let ?body = "\<lambda>i (td, s). bindR (query_full (addr + of_nat i) (ts_shad s k)) (\<lambda>t. make_union td t False s)"
  have "\<exists>r. foldR ?body [1..<unat n] (td0, s) = Inr r \<and> ?Q (unat n) r"
  proof (rule foldR_upt_inv [where Q = ?Q])
    show "?Q 1 (td0, s)" using assms(1) td_mem_valid [OF assms(1) td0] by (simp add: lab_def td0 lessThan_Suc)
    fix i r assume i: "1 \<le> i" "i < unat n" and Q: "?Q i r"
    obtain td s' where r: "r = (td, s')" by (cases r)
    have Q': "ts_inv s'" "ts_le s s'" "lab s' = lab s" "td_mem s' = td_mem s" "ls_valid (ts_labels s') (td_ls td)"
      "labels_of (ts_labels s') (td_ls td) = (\<Union>j < i. lab s (k, addr + of_nat j))" using Q by (simp_all add: r)
    obtain t where t: "td_mem s' (k, addr + of_nat i) = Some t" using mem [OF i(2)] Q'(4) by auto
    have tv: "ls_valid (ts_labels s') (td_ls t)" using Q'(1) t by (rule td_mem_valid)
    from make_union_lab [OF Q'(1,5) tv, of False] obtain td' s'' where u: "make_union td t False s' = Inr (td', s'')" "ts_inv s''"
      "ts_le s' s''" "lab s'' = lab s'" "td_mem s'' = td_mem s'" "ls_valid (ts_labels s'') (td_ls td')"
      "labels_of (ts_labels s'') (td_ls td') = labels_of (ts_labels s') (td_ls td) \<union> labels_of (ts_labels s') (td_ls t)" by blast
    have "labels_of (ts_labels s') (td_ls t) = lab s (k, addr + of_nat i)" using t Q'(3) by (simp add: lab_def flip: Q'(3))
    then have "labels_of (ts_labels s'') (td_ls td') = (\<Union>j < Suc i. lab s (k, addr + of_nat j))"
      using u(7) Q'(6) by (simp add: lessThan_Suc Un_commute)
    then show "\<exists>r'. ?body i r = Inr r' \<and> ?Q (Suc i) r'"
      using u Q' ts_le_trans query_full_td_mem [OF t] by (auto simp: r)
  qed (use n in simp)
  then obtain td s' where r: "foldR ?body [1..<unat n] (td0, s) = Inr (td, s')" "?Q (unat n) (td, s')" by auto
  have "mixed_labels k addr n inc s = Inr (if inc then increment_tcn td else td, s')"
    using q0 r(1) by (simp add: mixed_labels_def)
  moreover have "td_ls (if inc then increment_tcn td else td) = td_ls td" by (simp add: increment_tcn_def)
  ultimately show ?thesis using r(2) by (intro that [of "if inc then increment_tcn td else td" s']) simp_all
qed

section \<open>Reading and writing masks\<close>

text \<open>The masks of a range are the little-endian words of the masks of its bytes.\<close>

lemma foldR_compile:
  assumes "\<And>i. i \<in> set xs \<Longrightarrow> query_full (addr + of_nat i) sh = Inr (td i)"
  shows "foldR (\<lambda>i m. bindR (query_full (addr + of_nat i) sh) (\<lambda>td.
        Inr \<lparr>cbm_cb = push_bit 8 (cbm_cb m) OR ucast (td_cb_mask td),
             cbm_one = push_bit 8 (cbm_one m) OR ucast (td_one_mask td),
             cbm_zero = push_bit 8 (cbm_zero m) OR ucast (td_zero_mask td)\<rparr>)) (rev xs) cbm_0
    = Inr \<lparr>cbm_cb = le_word (map (td_cb_mask \<circ> td) xs), cbm_one = le_word (map (td_one_mask \<circ> td) xs),
          cbm_zero = le_word (map (td_zero_mask \<circ> td) xs)\<rparr>"
  using assms by (induction xs) (simp_all add: cbm_0_def foldR_append or.commute)

lemma int_bound_small:
  assumes "unat n < 2 ^ 31"
  shows "int_bound n = unat n"
proof (cases "n = 0")
  case True
  have "(ucast (- 1 :: u64) :: u32) = - 1" by (rule bit_word_eqI) (simp add: bit_simps)
  then show ?thesis using True by (simp add: int_bound_def)
next
  case False
  then have p: "unat (n - 1) = unat n - 1" "0 < unat n" by (simp_all add: unat_minus_one unat_gt_0)
  obtain x where x: "unat n = Suc x" using p(2) by (cases "unat n") auto
  let ?w = "ucast (n - 1) :: u32"
  have "unat ?w = x" using p(1) x assms by (simp add: unsigned_ucast_eq take_bit_nat_eq_self)
  then have w: "uint ?w = int x" by (metis uint_nat)
  have "sint ?w = signed_take_bit 31 (int x)" unfolding sint_uint w by simp
  also have "\<dots> = int x" using x assms by (intro signed_take_bit_int_eq_self) simp_all
  finally show ?thesis by (simp add: int_bound_def x)
qed

definition masks_at :: "'a taint_state_scheme \<Rightarrow> shad_id \<Rightarrow> u64 \<Rightarrow> nat \<Rightarrow> CBMasks" where
  "masks_at s k addr n =
     (let tds = map (\<lambda>i. the (td_mem s (k, addr + of_nat i))) [0..<n]
      in \<lparr>cbm_cb = le_word (map td_cb_mask tds), cbm_one = le_word (map td_one_mask tds), cbm_zero = le_word (map td_zero_mask tds)\<rparr>)"

lemma compile_cb_masks_ok:
  assumes "ts_inv s" and "fits addr (unat n) (ts_shad s k)" and "unat n < 2 ^ 31"
  shows "compile_cb_masks addr n (ts_shad s k) = Inr (masks_at s k addr (unat n))"
proof -
  have "query_full (addr + of_nat i) (ts_shad s k) = Inr (the (td_mem s (k, addr + of_nat i)))" if "i \<in> set [0..<unat n]" for i
    using fits_td_mem [OF ts_inv_ok [OF assms(1)] assms(2), of i] that query_full_td_mem [where s = s] by fastforce
  then have "\<And>i. i \<in> set [0..<unat n] \<Longrightarrow>
      query_full (addr + of_nat i) (ts_shad s k) = Inr ((\<lambda>i. the (td_mem s (k, addr + of_nat i))) i)" by blast
  from foldR_compile [of "[0..<unat n]" addr "ts_shad s k", OF this] show ?thesis
    unfolding compile_cb_masks_def int_bound_small [OF assms(3)] masks_at_def Let_def by (simp add: comp_def)
qed

definition put_masks :: "CBMasks \<Rightarrow> nat \<Rightarrow> TaintData \<Rightarrow> TaintData" where
  "put_masks m i td = td\<lparr>td_cb_mask := ucast (drop_bit (8 * i) (cbm_cb m)), td_one_mask := ucast (drop_bit (8 * i) (cbm_one m)),
     td_zero_mask := ucast (drop_bit (8 * i) (cbm_zero m))\<rparr>"

lemma write_cb_masks_ok:
  assumes "ts_inv s" and "fits addr (unat n) (ts_shad s k)" and "unat n < 2 ^ 32"
  obtains s' where "write_cb_masks k addr n m s = Inr s'" and "ts_inv s'" and "ts_le s s'" and "ts_labels s' = ts_labels s"
    and "td_mem s' = (\<lambda>(k', a). if k' = k \<and> unat (a - addr) < unat n
      then map_option (put_masks m (unat (a - addr))) (td_mem s (k', a)) else td_mem s (k', a))"
proof -
  let ?after = "\<lambda>i (k', a). if k' = k \<and> unat (a - addr) < i
      then map_option (put_masks m (unat (a - addr))) (td_mem s (k', a)) else td_mem s (k', a)"
  let ?m = "\<lambda>i. \<lparr>cbm_cb = drop_bit (8 * i) (cbm_cb m), cbm_one = drop_bit (8 * i) (cbm_one m), cbm_zero = drop_bit (8 * i) (cbm_zero m)\<rparr>"
  let ?Q = "\<lambda>i (m', s'). m' = ?m i \<and> ts_inv s' \<and> ts_le s s' \<and> ts_labels s' = ts_labels s \<and> td_mem s' = ?after i"
  let ?body = "\<lambda>i (m, s). bindR (query_full (addr + of_nat i) (ts_shad s k)) (\<lambda>td.
        let td = td\<lparr>td_cb_mask := ucast (cbm_cb m), td_one_mask := ucast (cbm_one m), td_zero_mask := ucast (cbm_zero m)\<rparr>;
            m = \<lparr>cbm_cb = drop_bit 8 (cbm_cb m), cbm_one = drop_bit 8 (cbm_one m), cbm_zero = drop_bit 8 (cbm_zero m)\<rparr>
        in bindR (set_full k (addr + of_nat i) td s) (\<lambda>s. Inr (m, s)))"
  have "\<exists>r. foldR ?body [0..<unat n] (m, s) = Inr r \<and> ?Q (unat n) r"
  proof (rule foldR_upt_inv [where Q = ?Q])
    show "?Q 0 (m, s)" using assms(1) by (auto simp: fun_eq_iff)
    fix i r assume i: "i < unat n" and Q: "?Q i r"
    obtain m' s' where r: "r = (m', s')" by (cases r)
    have Q': "m' = ?m i" "ts_inv s'" "ts_le s s'" "ts_labels s' = ts_labels s" "td_mem s' = ?after i" using Q by (simp_all add: r)
    have small: "i < 2 ^ 64" using fits_small [OF ts_inv_ok [OF assms(1)] assms(2) i] .
    then have ui: "unat ((addr + of_nat i) - addr) = i" using unat_offset_eq [of i "addr + of_nat i" addr] by simp
    obtain td where td: "td_mem s (k, addr + of_nat i) = Some td" using fits_td_mem [OF ts_inv_ok [OF assms(1)] assms(2) i] by blast
    then have td': "td_mem s' (k, addr + of_nat i) = Some td" using Q'(5) ui by simp
    let ?td = "put_masks m i td"
    have "ls_valid (ts_labels s') (td_ls ?td)" using td_mem_valid [OF Q'(2) td'] by (simp add: put_masks_def)
    then obtain s'' where s'': "set_full k (addr + of_nat i) ?td s' = Inr s''" "ts_inv s''" "ts_le s' s''"
      "td_mem s'' = (td_mem s')((k, addr + of_nat i) \<mapsto> ?td)" "ts_labels s'' = ts_labels s'"
      using td' by (metis set_full_ok [OF Q'(2)] option.distinct(1))
    have "?body i r = Inr (?m (Suc i), s'')"
      using query_full_td_mem [OF td'] s''(1) by (simp add: r Q'(1) put_masks_def add.commute)
    moreover have "td_mem s'' = ?after (Suc i)"
      unfolding s''(4) Q'(5) using small td ui by (auto simp: fun_eq_iff unat_offset_less_Suc)
    ultimately show "\<exists>r'. ?body i r = Inr r' \<and> ?Q (Suc i) r'"
      using s''(2,5) Q'(4) ts_le_trans [OF Q'(3) s''(3)] by simp
  qed simp
  then obtain m' s' where r: "foldR ?body [0..<unat n] (m, s) = Inr (m', s')" "?Q (unat n) (m', s')" by auto
  have "min (unat n) (2 ^ 32) = unat n" using assms(3) by simp
  then have "write_cb_masks k addr n m s = Inr s'"
    using r(1) assms(3) by (simp add: write_cb_masks_def for_u32_def)
  then show ?thesis using r(2) by (intro that [of s']) simp_all
qed

lemma write_cb_masks_lab:
  assumes "ts_inv s" and "fits addr (unat n) (ts_shad s k)" and "unat n < 2 ^ 32"
  obtains s' where "write_cb_masks k addr n m s = Inr s'" and "ts_inv s'" and "ts_le s s'" and "lab s' = lab s"
proof -
  from write_cb_masks_ok [OF assms, of m] obtain s' where s': "write_cb_masks k addr n m s = Inr s'" "ts_inv s'" "ts_le s s'"
    "td_mem s' = (\<lambda>(k', a). if k' = k \<and> unat (a - addr) < unat n
      then map_option (put_masks m (unat (a - addr))) (td_mem s (k', a)) else td_mem s (k', a))" by blast
  have "lab s' = lab s"
  proof (rule ext, rule lab_le [OF assms(1)])
    show "ls_le (ts_labels s) (ts_labels s')" using s'(3) by (simp add: ts_le_def)
    show "map_option td_ls (td_mem s' ka) = map_option td_ls (td_mem s ka)" for ka
      by (cases ka) (simp add: s'(4) option.map_comp comp_def put_masks_def)
  qed
  with s' show ?thesis using that by blast
qed

section \<open>Operations byte by byte\<close>

text \<open>
  A loop that computes a byte of the destination from a byte of the source reads bytes it has not
  written when the arrays differ, when the destination does not start after the source, or when the ranges
  are disjoint.
\<close>

definition unwritten :: "shad_id \<Rightarrow> u64 \<Rightarrow> shad_id \<Rightarrow> u64 \<Rightarrow> nat \<Rightarrow> bool" where
  "unwritten kd dest ks src n \<longleftrightarrow> kd \<noteq> ks \<or> unat dest \<le> unat src \<or> unat src + n \<le> unat dest"

lemma unwrittenD:
  assumes "unwritten k dest k src n" and "fs_ok sh" and "fits src n sh" and "fits dest n sh" and "i < n"
  shows "\<not> unat (src + of_nat i - dest) < i"
proof -
  have n: "n \<noteq> 0" using assms(5) by simp
  have "unat src + n < 2 ^ 60" "unat dest + n < 2 ^ 60"
    using fits_bound(2) [OF assms(2,3) n] fits_bound(2) [OF assms(2,4) n] .
  then have "unat (src + of_nat i) = unat src + i" and "unat dest + i \<le> 2 ^ 64"
    using assms(5) by (auto intro: unat_plus_of_nat)
  then show ?thesis using in_range_iff(1) [of dest i "src + of_nat i"] assms(1,5) by (auto simp: unwritten_def)
qed

text \<open>One such loop, for any function \<open>f\<close> that computes the labels of the destination byte.\<close>

lemma byte_loop_lab:
  fixes s :: "'a taint_state_scheme"
  assumes "ts_inv s" and "fits dest n (ts_shad s k)"
    and step: "\<And>i s'. i < n \<Longrightarrow> ts_inv s' \<Longrightarrow> ts_le s s' \<Longrightarrow>
      (\<And>k' a. \<not> (k' = k \<and> unat (a - dest) < i) \<Longrightarrow> td_mem s' (k', a) = td_mem s (k', a)) \<Longrightarrow>
      \<exists>td s''. body i s' = set_full k (dest + of_nat i) td s'' \<and> ts_inv s'' \<and> ts_le s' s'' \<and> td_mem s'' = td_mem s'
        \<and> ls_valid (ts_labels s'') (td_ls td) \<and> labels_of (ts_labels s'') (td_ls td) = f i"
  obtains s' where "foldR body [0..<n] s = Inr s'" and "ts_inv s'" and "ts_le s s'"
    and "lab s' = (\<lambda>(k', a). if k' = k \<and> unat (a - dest) < n then f (unat (a - dest)) else lab s (k', a))"
proof -
  let ?Q = "\<lambda>i s'. ts_inv s' \<and> ts_le s s'
    \<and> (\<forall>k' a. \<not> (k' = k \<and> unat (a - dest) < i) \<longrightarrow> td_mem s' (k', a) = td_mem s (k', a))
    \<and> lab s' = (\<lambda>(k', a). if k' = k \<and> unat (a - dest) < i then f (unat (a - dest)) else lab s (k', a))"
  note ok = ts_inv_ok [OF assms(1)]
  have "\<exists>s'. foldR body [0..<n] s = Inr s' \<and> ?Q n s'"
  proof (rule foldR_upt_inv [where Q = ?Q])
    show "?Q 0 s" using assms(1) by (auto simp: fun_eq_iff)
    fix i s' assume i: "i < n" and Q: "?Q i s'"
    have Q': "ts_inv s'" "ts_le s s'" "\<And>k' a. \<not> (k' = k \<and> unat (a - dest) < i) \<Longrightarrow> td_mem s' (k', a) = td_mem s (k', a)"
      "lab s' = (\<lambda>(k', a). if k' = k \<and> unat (a - dest) < i then f (unat (a - dest)) else lab s (k', a))" using Q by blast+
    have small: "i < 2 ^ 64" using fits_small [OF ok assms(2) i] .
    then have ui: "unat ((dest + of_nat i) - dest) = i" using unat_offset_eq [of i "dest + of_nat i" dest] by simp
    from step [OF i Q'(1-3)] obtain td s1 where b: "body i s' = set_full k (dest + of_nat i) td s1" "ts_inv s1" "ts_le s' s1"
      "td_mem s1 = td_mem s'" "ls_valid (ts_labels s1) (td_ls td)" "labels_of (ts_labels s1) (td_ls td) = f i" by blast
    have "td_mem s1 (k, dest + of_nat i) \<noteq> None" using fits_td_mem [OF ok assms(2) i] Q'(3) [of k "dest + of_nat i"] b(4) ui by auto
    from set_full_lab [OF b(2) this b(5)] obtain s'' where s'': "set_full k (dest + of_nat i) td s1 = Inr s''" "ts_inv s''" "ts_le s1 s''"
      "td_mem s'' = (td_mem s1)((k, dest + of_nat i) \<mapsto> td)"
      "lab s'' = (lab s1)((k, dest + of_nat i) := labels_of (ts_labels s1) (td_ls td))" by blast
    have "lab s1 = lab s'"
      by (rule ext, rule lab_le [OF Q'(1)]) (use b(3,4) in \<open>simp_all add: ts_le_def\<close>)
    then have "lab s'' = (\<lambda>(k', a). if k' = k \<and> unat (a - dest) < Suc i then f (unat (a - dest)) else lab s (k', a))"
      unfolding s''(5) b(6) using small ui by (auto simp: Q'(4) fun_eq_iff unat_offset_less_Suc)
    moreover have "td_mem s'' (k', a) = td_mem s (k', a)" if "\<not> (k' = k \<and> unat (a - dest) < Suc i)" for k' a
      using that Q'(3) [of k' a] small by (auto simp: s''(4) b(4) unat_offset_less_Suc)
    ultimately show "\<exists>s''. body i s' = Inr s'' \<and> ?Q (Suc i) s''"
      using b(1) s''(1,2) ts_le_trans [OF Q'(2) ts_le_trans [OF b(3) s''(3)]] by auto
  qed simp
  then show ?thesis using that by blast
qed

lemma update_cb_lab:
  assumes "ts_inv s" and "fits dest (unat n) (ts_shad s kd)" and "fits src (unat n) (ts_shad s ks)" and "unat n < 2 ^ 31"
    and "update_cb kd dest ks src n I s = Inr s'"
  shows "ts_inv s' \<and> ts_le s s' \<and> lab s' = lab s"
proof (cases I)
  case None
  then show ?thesis using assms(1,5) by (simp add: update_cb_def)
next
  case (Some J)
  obtain r where r: "update_masks J n (masks_at s ks src (unat n)) = Inr r"
    "(case r of None \<Rightarrow> Inr s | Some m \<Rightarrow> write_cb_masks kd dest n m s) = Inr s'"
    using assms(5) compile_cb_masks_ok [OF assms(1,3,4)] by (auto simp: update_cb_def Some)
  show ?thesis
  proof (cases r)
    case None
    then show ?thesis using r(2) assms(1) by simp
  next
    case (Some m)
    have "unat n < 2 ^ 32" using assms(4) by simp
    from write_cb_masks_lab [OF assms(1,2) this, of m] obtain s1 where
      "write_cb_masks kd dest n m s = Inr s1" "ts_inv s1" "ts_le s s1" "lab s1 = lab s" by blast
    then show ?thesis using r(2) Some by simp
  qed
qed

lemma taint_mix_compute_lab:
  assumes "ts_inv s" and "fits dest (unat dn) (ts_shad s k)" and "fits src1 (unat sn) (ts_shad s k)"
    and "fits src2 (unat sn) (ts_shad s k)" and "sn \<noteq> 0"
  obtains s' where "taint_mix_compute k dest dn src1 src2 sn I s = Inr s'" and "ts_inv s'"
    and "lab s' = (\<lambda>(k', a). if k' = k \<and> unat (a - dest) < unat dn
      then (\<Union>i < unat sn. lab s (k, src1 + of_nat i) \<union> lab s (k, src2 + of_nat i)) else lab s (k', a))"
proof -
  obtain td1 s1 where 1: "mixed_labels k src1 sn False s = Inr (td1, s1)"
    "ts_inv s1" "ts_le s s1" "lab s1 = lab s" "td_mem s1 = td_mem s" "ls_valid (ts_labels s1) (td_ls td1)"
    "labels_of (ts_labels s1) (td_ls td1) = (\<Union>i < unat sn. lab s (k, src1 + of_nat i))"
    by (rule mixed_labels_ok [OF assms(1,3,5)])
  have f2: "fits src2 (unat sn) (ts_shad s1 k)" using assms(4) ts_le_fits [OF 1(3)] by blast
  obtain td2 s2 where 2: "mixed_labels k src2 sn False s1 = Inr (td2, s2)"
    "ts_inv s2" "ts_le s1 s2" "lab s2 = lab s1" "td_mem s2 = td_mem s1" "ls_valid (ts_labels s2) (td_ls td2)"
    "labels_of (ts_labels s2) (td_ls td2) = (\<Union>i < unat sn. lab s1 (k, src2 + of_nat i))"
    by (rule mixed_labels_ok [OF 1(2) f2 assms(5)])
  have le: "ls_le (ts_labels s1) (ts_labels s2)" using 2(3) by (simp add: ts_le_def)
  obtain td s3 where
    3: "make_union td1 td2 True s2 = Inr (td, s3)" "ts_inv s3" "ts_le s2 s3" "lab s3 = lab s2" "td_mem s3 = td_mem s2"
    "ls_valid (ts_labels s3) (td_ls td)"
    "labels_of (ts_labels s3) (td_ls td) = labels_of (ts_labels s2) (td_ls td1) \<union> labels_of (ts_labels s2) (td_ls td2)"
    by (rule make_union_lab [OF 2(2) ls_le_valid [OF le 1(6)] 2(6)])
  have "fits dest (unat dn) (ts_shad s3 k)"
    using assms(2) ts_le_fits [OF ts_le_trans [OF 1(3) ts_le_trans [OF 2(3) 3(3)]]] by blast
  then obtain s4 where 4: "bulk_set k dest dn td s3 = Inr s4" "ts_inv s4" "ts_le s3 s4"
    "lab s4 = (\<lambda>(k', a). if k' = k \<and> unat (a - dest) < unat dn then labels_of (ts_labels s3) (td_ls td) else lab s3 (k', a))"
    by (rule bulk_set_lab [OF 3(2) _ 3(6)])
  have labs: "labels_of (ts_labels s3) (td_ls td) = (\<Union>i < unat sn. lab s (k, src1 + of_nat i) \<union> lab s (k, src2 + of_nat i))"
    unfolding 3(7) ls_le_labels [OF le 1(6)] 1(7) 2(7) 1(4) by (rule UN_Un_distrib [symmetric])
  show ?thesis
  proof (rule that)
    show "taint_mix_compute k dest dn src1 src2 sn I s = Inr s4" using 1(1) 2(1) 3(1) 4(1) by (simp add: taint_mix_compute_def)
    show "lab s4 = (\<lambda>(k', a). if k' = k \<and> unat (a - dest) < unat dn
      then (\<Union>i < unat sn. lab s (k, src1 + of_nat i) \<union> lab s (k, src2 + of_nat i)) else lab s (k', a))"
      unfolding 4(4) labs 3(4) 2(4) 1(4) ..
  qed (rule 4(2))
qed

lemma taint_parallel_compute_lab:
  assumes "ts_inv s" and "fits dest (unat n) (ts_shad s k)" and "fits src1 (unat n) (ts_shad s k)"
    and "fits src2 (unat n) (ts_shad s k)" and "unat n < 2 ^ 31"
    and "unwritten k dest k src1 (unat n)" and "unwritten k dest k src2 (unat n)"
  obtains s' where "taint_parallel_compute k dest ignored src1 src2 n I s = Inr s'" and "ts_inv s'"
    and "lab s' = (\<lambda>(k', a). if k' = k \<and> unat (a - dest) < unat n
      then lab s (k, src1 + (a - dest)) \<union> lab s (k, src2 + (a - dest)) else lab s (k', a))"
proof -
  let ?body = "\<lambda>i s. bindR (query_full (src1 + of_nat i) (ts_shad s k)) (\<lambda>td1.
        bindR (query_full (src2 + of_nat i) (ts_shad s k)) (\<lambda>td2.
        bindR (make_union td1 td2 True s) (\<lambda>(td, s). set_full k (dest + of_nat i) td s)))"
  let ?f = "\<lambda>i. lab s (k, src1 + of_nat i) \<union> lab s (k, src2 + of_nat i)"
  note ok = ts_inv_ok [OF assms(1)]
  obtain s1 where 1: "foldR ?body [0..<unat n] s = Inr s1" "ts_inv s1" "ts_le s s1"
    "lab s1 = (\<lambda>(k', a). if k' = k \<and> unat (a - dest) < unat n then ?f (unat (a - dest)) else lab s (k', a))"
  proof (rule byte_loop_lab [OF assms(1,2), of ?body ?f])
    fix i s' assume i: "i < unat n" and s': "ts_inv s'" "ts_le s s'"
      and old: "\<And>k' a. \<not> (k' = k \<and> unat (a - dest) < i) \<Longrightarrow> td_mem s' (k', a) = td_mem s (k', a)"
    have e: "td_mem s' (k, src1 + of_nat i) = td_mem s (k, src1 + of_nat i)" "td_mem s' (k, src2 + of_nat i) = td_mem s (k, src2 + of_nat i)"
      using old unwrittenD [OF assms(6) ok assms(3,2) i] unwrittenD [OF assms(7) ok assms(4,2) i] by blast+
    obtain td1 td2 where td: "td_mem s' (k, src1 + of_nat i) = Some td1" "td_mem s' (k, src2 + of_nat i) = Some td2"
      using e fits_td_mem [OF ok assms(3) i] fits_td_mem [OF ok assms(4) i] by auto
    obtain td s'' where
      u: "make_union td1 td2 True s' = Inr (td, s'')" "ts_inv s''" "ts_le s' s''" "lab s'' = lab s'" "td_mem s'' = td_mem s'"
      "ls_valid (ts_labels s'') (td_ls td)"
      "labels_of (ts_labels s'') (td_ls td) = labels_of (ts_labels s') (td_ls td1) \<union> labels_of (ts_labels s') (td_ls td2)"
      by (rule make_union_lab [OF s'(1) td_mem_valid [OF s'(1) td(1)] td_mem_valid [OF s'(1) td(2)]])
    have le: "ls_le (ts_labels s) (ts_labels s')" using s'(2) by (simp add: ts_le_def)
    have "lab s' (k, src1 + of_nat i) = lab s (k, src1 + of_nat i)" "lab s' (k, src2 + of_nat i) = lab s (k, src2 + of_nat i)"
      by (rule lab_le [OF assms(1) le]; simp add: e)+
    then have "labels_of (ts_labels s'') (td_ls td) = ?f i" using u(7) td by (simp add: lab_def)
    moreover have "?body i s' = set_full k (dest + of_nat i) td s''"
      using u(1) query_full_td_mem [OF td(1)] query_full_td_mem [OF td(2)] by simp
    ultimately show "\<exists>td s''. ?body i s' = set_full k (dest + of_nat i) td s'' \<and> ts_inv s'' \<and> ts_le s' s'' \<and> td_mem s'' = td_mem s'
        \<and> ls_valid (ts_labels s'') (td_ls td) \<and> labels_of (ts_labels s'') (td_ls td) = ?f i" using u(2,3,5,6) by blast
  qed
  have f: "fits dest (unat n) (ts_shad s1 k)" "fits src1 (unat n) (ts_shad s1 k)" "fits src2 (unat n) (ts_shad s1 k)"
    using assms(2-4) ts_le_fits [OF 1(3)] by blast+
  have n: "unat n < 2 ^ 32" using assms(5) by simp
  obtain s2 where
    2: "write_cb_masks k dest n (parallel_masks I (masks_at s1 k src1 (unat n)) (masks_at s1 k src2 (unat n))) s1 = Inr s2"
      "ts_inv s2" "ts_le s1 s2" "lab s2 = lab s1" by (rule write_cb_masks_lab [OF 1(2) f(1) n])
  have "taint_parallel_compute k dest ignored src1 src2 n I s = Inr s2"
    using 1(1) 2(1) compile_cb_masks_ok [OF 1(2) f(2) assms(5)] compile_cb_masks_ok [OF 1(2) f(3) assms(5)]
    by (simp add: taint_parallel_compute_def for_u64_def)
  then show ?thesis
  proof (rule that)
    show "lab s2 = (\<lambda>(k', a). if k' = k \<and> unat (a - dest) < unat n
      then lab s (k, src1 + (a - dest)) \<union> lab s (k, src2 + (a - dest)) else lab s (k', a))"
      unfolding 2(4) 1(4) by (simp add: fun_eq_iff)
  qed (rule 2(2))
qed

lemma taint_copy_lab:
  assumes "ts_inv s" and "fits dest (unat n) (ts_shad s kd)" and "fits src (unat n) (ts_shad s ks)" and "unat n < 2 ^ 31"
    and "tracked s dest n" and "tracked s src n"
    and "kd = ks \<Longrightarrow> unat dest + unat n \<le> unat src \<or> unat src + unat n \<le> unat dest"
    and io: "dest + n < fs_size (ts_shad s kd)" "src + n < fs_size (ts_shad s ks)"
  obtains s' where "taint_copy kd dest ks src n None s = Inr s'" and "ts_inv s'" and "ts_labels s' = ts_labels s"
    and "td_mem s' = (\<lambda>(k, a). if k = kd \<and> unat (a - dest) < unat n then td_mem s (ks, src + (a - dest)) else td_mem s (k, a))"
    and "\<And>I t. taint_copy kd dest ks src n I s = Inr t \<Longrightarrow> ts_inv t \<and>
      lab t = (\<lambda>(k, a). if k = kd \<and> unat (a - dest) < unat n then lab s (ks, src + (a - dest)) else lab s (k, a))"
proof -
  obtain s' where c: "shad_copy kd dest ks src n s = Inr s'" "ts_inv s'" "ts_le s s'" "ts_labels s' = ts_labels s"
    "td_mem s' = (\<lambda>(k, a). if k = kd \<and> unat (a - dest) < unat n then td_mem s (ks, src + (a - dest)) else td_mem s (k, a))"
    by (rule shad_copy_ok [OF assms(1-3,5,6,7)])
  have f: "fits dest (unat n) (ts_shad s' kd)" "fits src (unat n) (ts_shad s' ks)"
    using assms(2,3) ts_le_fits [OF c(3)] by blast+
  have lab': "lab s' = (\<lambda>(k, a). if k = kd \<and> unat (a - dest) < unat n then lab s (ks, src + (a - dest)) else lab s (k, a))"
    by (simp add: fun_eq_iff lab_def c(4,5) split: option.splits)
  have nio: "\<not> (dest + n \<ge> fs_size (ts_shad s kd) \<or> src + n \<ge> fs_size (ts_shad s ks))" using io by auto
  show ?thesis
  proof (rule that [OF _ c(2,4,5)])
    show "taint_copy kd dest ks src n None s = Inr s'" using nio c(1) by (simp add: taint_copy_def)
    fix I t assume t: "taint_copy kd dest ks src n I s = Inr t"
    have "(if I \<noteq> None then update_cb kd dest ks src n I s' else Inr s') = Inr t"
      using t nio c(1) by (auto simp: taint_copy_def)
    then have "ts_inv t \<and> lab t = lab s'"
      using update_cb_lab [OF c(2) f assms(4), of I t] c(2) by (cases I) auto
    then show "ts_inv t \<and> lab t = (\<lambda>(k, a). if k = kd \<and> unat (a - dest) < unat n then lab s (ks, src + (a - dest)) else lab s (k, a))"
      using lab' by simp
  qed
qed

lemma taint_pointer_lab:
  assumes "ts_inv s" and "fits dest (unat n) (ts_shad s kd)" and "fits ptr (unat pn) (ts_shad s kp)" and "pn \<noteq> 0"
    and io: "dest + n \<le> fs_size (ts_shad s kd)"
    and src: "src + n \<le> fs_size (ts_shad s ks) \<Longrightarrow> src \<noteq> ones \<Longrightarrow> fits src (unat n) (ts_shad s ks)"
    and "unat n < 2 ^ 32" and "unwritten kd dest ks src (unat n)"
  obtains s' where "taint_pointer kd dest kp ptr pn ks src n s = Inr s'" and "ts_inv s'"
    and "lab s' = (\<lambda>(k, a). if k = kd \<and> unat (a - dest) < unat n then (\<Union>i < unat pn. lab s (kp, ptr + of_nat i))
      \<union> (if src + n > fs_size (ts_shad s ks) \<or> src = ones then {} else lab s (ks, src + (a - dest))) else lab s (k, a))"
proof -
  let ?P = "\<Union>i < unat pn. lab s (kp, ptr + of_nat i)"
  obtain td s1 where 1: "mixed_labels kp ptr pn False s = Inr (td, s1)"
    "ts_inv s1" "ts_le s s1" "lab s1 = lab s" "td_mem s1 = td_mem s" "ls_valid (ts_labels s1) (td_ls td)"
    "labels_of (ts_labels s1) (td_ls td) = ?P" by (rule mixed_labels_ok [OF assms(1,3,4)])
  have fd: "fits dest (unat n) (ts_shad s1 kd)" using assms(2) ts_le_fits [OF 1(3)] by blast
  have dst: "\<not> dest + n > fs_size (ts_shad s kd)" using io by auto
  show ?thesis
  proof (cases "src + n > fs_size (ts_shad s ks) \<or> src = ones")
    case True
    obtain s2 where 2: "bulk_set kd dest n td s1 = Inr s2" "ts_inv s2" "ts_le s1 s2"
      "lab s2 = (\<lambda>(k', a). if k' = kd \<and> unat (a - dest) < unat n then labels_of (ts_labels s1) (td_ls td) else lab s1 (k', a))"
      by (rule bulk_set_lab [OF 1(2) fd 1(6)])
    show ?thesis
    proof (rule that)
      show "taint_pointer kd dest kp ptr pn ks src n s = Inr s2" using True dst 1(1) 2(1) by (auto simp: taint_pointer_def Let_def)
      show "lab s2 = (\<lambda>(k, a). if k = kd \<and> unat (a - dest) < unat n then ?P
        \<union> (if src + n > fs_size (ts_shad s ks) \<or> src = ones then {} else lab s (ks, src + (a - dest))) else lab s (k, a))"
        unfolding 2(4) 1(4,7) using True by (simp add: fun_eq_iff)
    qed (rule 2(2))
  next
    case False
    let ?body = "\<lambda>i s. bindR (query_full (src + of_nat i) (ts_shad s ks)) (\<lambda>byte_td.
               bindR (make_union td byte_td False s) (\<lambda>(dest_td, s).
               set_full kd (dest + of_nat i) (dest_td\<lparr>td_cb_mask := td_cb_mask byte_td\<rparr>) s))"
    let ?f = "\<lambda>i. ?P \<union> lab s (ks, src + of_nat i)"
    have fs: "fits src (unat n) (ts_shad s1 ks)" using src False ts_le_fits [OF 1(3)] by auto
    obtain s2 where 2: "foldR ?body [0..<unat n] s1 = Inr s2" "ts_inv s2" "ts_le s1 s2"
      "lab s2 = (\<lambda>(k', a). if k' = kd \<and> unat (a - dest) < unat n then ?f (unat (a - dest)) else lab s1 (k', a))"
    proof (rule byte_loop_lab [OF 1(2) fd, of ?body ?f])
      fix i s' assume i: "i < unat n" and s': "ts_inv s'" "ts_le s1 s'"
        and old: "\<And>k' a. \<not> (k' = kd \<and> unat (a - dest) < i) \<Longrightarrow> td_mem s' (k', a) = td_mem s1 (k', a)"
      have e: "td_mem s' (ks, src + of_nat i) = td_mem s1 (ks, src + of_nat i)"
      proof (cases "ks = kd")
        case True
        then have "\<not> unat (src + of_nat i - dest) < i"
          using unwrittenD [of kd dest src "unat n" "ts_shad s1 kd" i] assms(8) ts_inv_ok [OF 1(2)] fs fd i by auto
        then show ?thesis using old by blast
      qed (use old in blast)
      obtain bt where bt: "td_mem s' (ks, src + of_nat i) = Some bt"
        using e fits_td_mem [OF ts_inv_ok [OF 1(2)] fs i] by auto
      have le: "ls_le (ts_labels s1) (ts_labels s')" using s'(2) by (simp add: ts_le_def)
      obtain dt s'' where u: "make_union td bt False s' = Inr (dt, s'')" "ts_inv s''" "ts_le s' s''" "lab s'' = lab s'" "td_mem s'' = td_mem s'"
        "ls_valid (ts_labels s'') (td_ls dt)"
        "labels_of (ts_labels s'') (td_ls dt) = labels_of (ts_labels s') (td_ls td) \<union> labels_of (ts_labels s') (td_ls bt)"
        by (rule make_union_lab [OF s'(1) ls_le_valid [OF le 1(6)] td_mem_valid [OF s'(1) bt]])
      have "lab s' (ks, src + of_nat i) = lab s1 (ks, src + of_nat i)" by (rule lab_le [OF 1(2) le]) (simp add: e)
      then have "labels_of (ts_labels s'') (td_ls dt) = ?f i"
        using u(7) bt ls_le_labels [OF le 1(6)] 1(4,7) by (simp add: lab_def [of s'])
      moreover have "?body i s' = set_full kd (dest + of_nat i) (dt\<lparr>td_cb_mask := td_cb_mask bt\<rparr>) s''"
        using u(1) query_full_td_mem [OF bt] by simp
      ultimately show "\<exists>td s''. ?body i s' = set_full kd (dest + of_nat i) td s'' \<and> ts_inv s'' \<and> ts_le s' s'' \<and> td_mem s'' = td_mem s'
          \<and> ls_valid (ts_labels s'') (td_ls td) \<and> labels_of (ts_labels s'') (td_ls td) = ?f i"
        using u(2,3,5,6) by (intro exI [of _ "dt\<lparr>td_cb_mask := td_cb_mask bt\<rparr>"] exI [of _ s'']) simp
    qed
    have mn: "min (unat n) (2 ^ 32) = unat n" using assms(7) by simp
    show ?thesis
    proof (rule that)
      show "taint_pointer kd dest kp ptr pn ks src n s = Inr s2"
        using False dst 1(1) 2(1) assms(7) by (simp add: taint_pointer_def for_u32_def mn)
      show "lab s2 = (\<lambda>(k, a). if k = kd \<and> unat (a - dest) < unat n then ?P
        \<union> (if src + n > fs_size (ts_shad s ks) \<or> src = ones then {} else lab s (ks, src + (a - dest))) else lab s (k, a))"
        unfolding 2(4) 1(4) using False by (simp add: fun_eq_iff)
    qed (rule 2(2))
  qed
qed

section \<open>A state to evaluate\<close>

text \<open>Two labels on the first two bytes of every array.\<close>

definition a_taint :: taint_state where
  "a_taint =
     (let (p, l) = label_set_singleton 1 (init_labels id); (q, l) = label_set_singleton 2 l
      in \<lparr>ts_labels = l,
          ts_shad = (\<lambda>k. \<lparr>fs_name = ''a'', fs_size = 16, fs_labels = 0,
            fs_data = TaintData_ls p # TaintData_ls q # replicate 14 TaintData_empty\<rparr>),
          track_taint_state = True, taint_changes = []\<rparr>)"

lemma a_taint_inv: "ts_inv a_taint"
proof -
  obtain p l where p: "label_set_singleton 1 (init_labels id) = (p, l)" "ls_inv l" "ls_le (init_labels id) l" "ls_valid l p" "labels_of l p = {1}"
    by (rule label_set_singleton_ok [OF ls_inv_init [OF inj_on_id]])
  obtain q l' where q: "label_set_singleton 2 l = (q, l')" "ls_inv l'" "ls_le l l'" "ls_valid l' q" "labels_of l' q = {2}"
    by (rule label_set_singleton_ok [OF p(2)])
  have "ls_valid l' p" using ls_le_valid [OF q(3) p(4)] .
  then show ?thesis
    using q(2,4) by (auto simp: a_taint_def p(1) q(1) ts_inv_def fs_ok_def TaintData_ls_def TaintData_empty_def)
qed

lemma a_taint_simps [simp]:
  "fits a n (ts_shad a_taint k) \<longleftrightarrow> n = 0 \<or> unat a + n \<le> 16" "fs_size (ts_shad a_taint k) = 16"
  "tracked a_taint a m \<longleftrightarrow> unat a + unat m < 2 ^ 32"
proof -
  have "fits a n (ts_shad a_taint k) \<longleftrightarrow> n = 0 \<or> int (unat a) + int n \<le> 16"
    by (auto simp: a_taint_def fits_def label_set_singleton_def ls_new_def Let_def)
  also have "\<dots> \<longleftrightarrow> n = 0 \<or> unat a + n \<le> 16" by linarith
  finally show "fits a n (ts_shad a_taint k) \<longleftrightarrow> n = 0 \<or> unat a + n \<le> 16" .
qed (simp_all add: a_taint_def tracked_def label_set_singleton_def ls_new_def Let_def)

lemma a_taint_lab: "lab a_taint (k, 0) = {1}" "lab a_taint (k, 1) = {2}"
  by (simp_all add: lab_def td_mem_def query_full_def a_taint_def label_set_singleton_def ls_new_def init_labels_def
    TaintData_ls_def labels_of_def Let_def)

section \<open>Properties\<close>

text \<open>
  C27: A parallel computation (a bitwise operation) unites the labels byte by byte: each byte of
  the destination gets the labels of the two source bytes at its position, and no other byte changes,
  for any source that the loop does not overwrite before reading it.
\<close>

theorem taint_parallel_compute_labels:
  assumes "ts_inv s" and "fits dest (unat n) (ts_shad s k)" and "fits src1 (unat n) (ts_shad s k)"
    and "fits src2 (unat n) (ts_shad s k)" and "unat n < 2 ^ 31"
    and "unwritten k dest k src1 (unat n)" and "unwritten k dest k src2 (unat n)"
  shows "\<exists>s'. taint_parallel_compute k dest ignored src1 src2 n I s = Inr s' \<and> ts_inv s'
    \<and> lab s' = (\<lambda>(k', a). if k' = k \<and> unat (a - dest) < unat n
        then lab s (k, src1 + (a - dest)) \<union> lab s (k, src2 + (a - dest)) else lab s (k', a))"
  by (rule taint_parallel_compute_lab [OF assms]; assumption?) (intro exI conjI)

theorem taint_parallel_compute_labels_witness:
  "\<exists>s'. taint_parallel_compute Llv_shad 8 0 0 1 1 None a_taint = Inr s' \<and> lab s' (Llv_shad, 8) = {1, 2}"
proof -
  have "\<exists>s'. taint_parallel_compute Llv_shad 8 0 0 1 1 None a_taint = Inr s' \<and> ts_inv s'
    \<and> lab s' = (\<lambda>(k', a). if k' = Llv_shad \<and> unat (a - 8) < unat (1 :: u64)
        then lab a_taint (Llv_shad, 0 + (a - 8)) \<union> lab a_taint (Llv_shad, 1 + (a - 8)) else lab a_taint (k', a))"
    by (rule taint_parallel_compute_labels [OF a_taint_inv]) (simp_all add: unwritten_def)
  then obtain s' where s': "taint_parallel_compute Llv_shad 8 0 0 1 1 None a_taint = Inr s'"
    "lab s' = (\<lambda>(k', a). if k' = Llv_shad \<and> unat (a - 8) < unat (1 :: u64)
        then lab a_taint (Llv_shad, 0 + (a - 8)) \<union> lab a_taint (Llv_shad, 1 + (a - 8)) else lab a_taint (k', a))" by (elim exE conjE)
  have "lab s' (Llv_shad, 8) = {1, 2}" unfolding s'(2) by (simp add: a_taint_lab lessThan_Suc ones_def insert_commute)
  with s'(1) show ?thesis by (intro exI conjI)
qed

text \<open>
  C28: A mixed computation (arithmetic) gives every byte of the destination the labels of all bytes of both
  sources, and changes no other byte.
\<close>

theorem taint_mix_compute_labels:
  assumes "ts_inv s" and "fits dest (unat dn) (ts_shad s k)" and "fits src1 (unat sn) (ts_shad s k)"
    and "fits src2 (unat sn) (ts_shad s k)" and "sn \<noteq> 0"
  shows "\<exists>s'. taint_mix_compute k dest dn src1 src2 sn I s = Inr s' \<and> ts_inv s'
    \<and> lab s' = (\<lambda>(k', a). if k' = k \<and> unat (a - dest) < unat dn
        then (\<Union>i < unat sn. lab s (k, src1 + of_nat i) \<union> lab s (k, src2 + of_nat i)) else lab s (k', a))"
  by (rule taint_mix_compute_lab [OF assms]; assumption?) (intro exI conjI)

theorem taint_mix_compute_labels_witness:
  "\<exists>s'. taint_mix_compute Llv_shad 8 4 0 1 1 None a_taint = Inr s' \<and> lab s' (Llv_shad, 11) = {1, 2}"
proof -
  have "\<exists>s'. taint_mix_compute Llv_shad 8 4 0 1 1 None a_taint = Inr s' \<and> ts_inv s'
    \<and> lab s' = (\<lambda>(k', a). if k' = Llv_shad \<and> unat (a - 8) < unat (4 :: u64)
        then (\<Union>i < unat (1 :: u64). lab a_taint (Llv_shad, 0 + of_nat i) \<union> lab a_taint (Llv_shad, 1 + of_nat i))
        else lab a_taint (k', a))"
    by (rule taint_mix_compute_labels [OF a_taint_inv]) (simp_all add: unwritten_def)
  then obtain s' where s': "taint_mix_compute Llv_shad 8 4 0 1 1 None a_taint = Inr s'"
    "lab s' = (\<lambda>(k', a). if k' = Llv_shad \<and> unat (a - 8) < unat (4 :: u64)
        then (\<Union>i < unat (1 :: u64). lab a_taint (Llv_shad, 0 + of_nat i) \<union> lab a_taint (Llv_shad, 1 + of_nat i))
        else lab a_taint (k', a))" by (elim exE conjE)
  have "lab s' (Llv_shad, 11) = {1, 2}" unfolding s'(2) by (simp add: a_taint_lab lessThan_Suc ones_def insert_commute)
  with s'(1) show ?thesis by (intro exI conjI)
qed

text \<open>
  C29: A load or store through a tainted pointer gives each byte of the destination the labels of all bytes
  of the pointer together with those of the byte copied; a source outside its array contributes nothing.
\<close>

theorem taint_pointer_labels:
  assumes "ts_inv s" and "fits dest (unat n) (ts_shad s kd)" and "fits ptr (unat pn) (ts_shad s kp)" and "pn \<noteq> 0"
    and "dest + n \<le> fs_size (ts_shad s kd)"
    and "src + n \<le> fs_size (ts_shad s ks) \<Longrightarrow> src \<noteq> ones \<Longrightarrow> fits src (unat n) (ts_shad s ks)"
    and "unat n < 2 ^ 32" and "unwritten kd dest ks src (unat n)"
  shows "\<exists>s'. taint_pointer kd dest kp ptr pn ks src n s = Inr s' \<and> ts_inv s'
    \<and> lab s' = (\<lambda>(k, a). if k = kd \<and> unat (a - dest) < unat n then (\<Union>i < unat pn. lab s (kp, ptr + of_nat i))
      \<union> (if src + n > fs_size (ts_shad s ks) \<or> src = ones then {} else lab s (ks, src + (a - dest))) else lab s (k, a))"
  by (rule taint_pointer_lab [OF assms]; assumption?) (intro exI conjI)

theorem taint_pointer_labels_witness:
  "\<exists>s'. taint_pointer Llv_shad 8 Llv_shad 0 1 Ram_shad 1 2 a_taint = Inr s' \<and> lab s' (Llv_shad, 8) = {1, 2}"
proof -
  have "\<exists>s'. taint_pointer Llv_shad 8 Llv_shad 0 1 Ram_shad 1 2 a_taint = Inr s' \<and> ts_inv s'
    \<and> lab s' = (\<lambda>(k, a). if k = Llv_shad \<and> unat (a - 8) < unat (2 :: u64) then (\<Union>i < unat (1 :: u64). lab a_taint (Llv_shad, 0 + of_nat i))
      \<union> (if 1 + (2 :: u64) > fs_size (ts_shad a_taint Ram_shad) \<or> (1 :: u64) = ones then {} else lab a_taint (Ram_shad, 1 + (a - 8)))
      else lab a_taint (k, a))"
    by (rule taint_pointer_labels [OF a_taint_inv]) (simp_all add: unwritten_def)
  then obtain s' where s': "taint_pointer Llv_shad 8 Llv_shad 0 1 Ram_shad 1 2 a_taint = Inr s'"
    "lab s' = (\<lambda>(k, a). if k = Llv_shad \<and> unat (a - 8) < unat (2 :: u64) then (\<Union>i < unat (1 :: u64). lab a_taint (Llv_shad, 0 + of_nat i))
      \<union> (if 1 + (2 :: u64) > fs_size (ts_shad a_taint Ram_shad) \<or> (1 :: u64) = ones then {} else lab a_taint (Ram_shad, 1 + (a - 8)))
      else lab a_taint (k, a))" by (elim exE conjE)
  have "lab s' (Llv_shad, 8) = {1, 2}" unfolding s'(2) by (simp add: a_taint_lab lessThan_Suc ones_def insert_commute)
  with s'(1) show ?thesis by (intro exI conjI)
qed



end
