(* ===== verification/Taint_Masks.thy ===== *)
theory Taint_Masks
  imports Taint_Propagation
begin

text \<open>
  The masks of known bits are sound: with the value of an operand known to have ones and zeroes where its
  masks say, the value of the result has them where the updated masks say. And the branches of
  \<^verbatim>\<open>update_cb\<close> that always shift too far. Also the ring of recent addresses.
\<close>

section \<open>Known bits\<close>

text \<open>The values that agree with the masks.\<close>

definition known :: "CBMasks \<Rightarrow> u64 \<Rightarrow> bool" where
  "known m v \<longleftrightarrow> v AND cbm_one m = cbm_one m \<and> v AND cbm_zero m = 0"

lemma known_iff: "known m v \<longleftrightarrow> (\<forall>n. (bit (cbm_one m) n \<longrightarrow> bit v n) \<and> (bit (cbm_zero m) n \<longrightarrow> \<not> bit v n))"
  using bit_u64_less by (auto simp: known_def bit_eq_iff bit_simps)

text \<open>The value of an instruction with a constant second operand, where the masks are followed through it.\<close>

definition insn_value :: "llvm_opcode \<Rightarrow> u64 \<Rightarrow> u64 \<Rightarrow> u64 \<Rightarrow> u64 option" where
  "insn_value op sz literal v =
     (case op of
        Add \<Rightarrow> Some (v + literal)
      | Sub \<Rightarrow> Some (v - literal)
      | Xor \<Rightarrow> Some (v XOR literal)
      | And \<Rightarrow> Some (v AND literal)
      | Or \<Rightarrow> Some (v OR literal)
      | Mul \<Rightarrow> Some (v * literal)
      | URem \<Rightarrow> Some (v mod literal)
      | UDiv \<Rightarrow> Some (v div literal)
      | Shl \<Rightarrow> Some (push_bit (unat literal) v)
      | LShr \<Rightarrow> Some (drop_bit (unat literal) v)
      | Trunc \<Rightarrow> Some (take_bit (unat (sz * 8)) v)
      | ZExt \<Rightarrow> Some v
      | IntToPtr \<Rightarrow> Some v
      | PtrToInt \<Rightarrow> Some v
      | BitCast \<Rightarrow> Some v
      | Store \<Rightarrow> Some v
      | Load \<Rightarrow> Some v
      | _ \<Rightarrow> None)"

lemma known_nothing [simp]: "known \<lparr>cbm_cb = c, cbm_one = 0, cbm_zero = 0\<rparr> v"
  by (simp add: known_def)

lemma takeWhile_less:
  assumes "x \<in> set xs" and "\<not> P x"
  shows "length (takeWhile P xs) < length xs"
proof -
  have "takeWhile P xs \<noteq> xs" using assms by (metis set_takeWhileD)
  then show ?thesis by (metis append_self_conv length_append le_add1 le_neq_implies_less
    takeWhile_dropWhile_id length_0_conv add_cancel_left_right)
qed

lemma word_bit_ex:
  assumes "w \<noteq> (0 :: u32)"
  shows "\<exists>i < 32. bit w i"
proof (rule ccontr)
  assume "\<not> ?thesis"
  then have "w = 0" by (intro bit_word_eqI) simp
  with assms show False by simp
qed

lemma builtin_clz_range:
  assumes "builtin_clz w = Inr c"
  shows "unat c < 32"
proof -
  have w: "w \<noteq> 0" and c: "c = of_nat (length (takeWhile (\<lambda>i. \<not> bit w i) (rev [0..<32])))"
    using assms by (auto simp: builtin_clz_def split: if_splits)
  from word_bit_ex [OF w] obtain i where "i < 32" "bit w i" by blast
  then have "length (takeWhile (\<lambda>i. \<not> bit w i) (rev [0..<32])) < length (rev [0..<32 :: nat])"
    by (intro takeWhile_less [of i]) auto
  then have "length (takeWhile (\<lambda>i. \<not> bit w i) (rev [0..<32])) < 32" by simp
  then show ?thesis unfolding c by (simp add: unsigned_of_nat take_bit_nat_eq_self)
qed

lemma builtin_ctz_bits:
  assumes "builtin_ctz w = Inr c" and "i < unat c"
  shows "\<not> bit w i"
proof -
  let ?t = "takeWhile (\<lambda>i. \<not> bit w i) [0..<32]"
  have c: "c = of_nat (length ?t)" using assms by (auto simp: builtin_ctz_def split: if_splits)
  have le: "length ?t \<le> 32" using length_takeWhile_le [of "\<lambda>i. \<not> bit w i" "[0..<32]"] by simp
  then have "unat c = length ?t" unfolding c by (simp add: unsigned_of_nat take_bit_nat_eq_self)
  with assms(2) have i: "i < length ?t" by simp
  then have "?t ! i = [0..<32] ! i" by (rule takeWhile_nth)
  also have "\<dots> = i" using i le by simp
  finally show "\<not> bit w i" using nth_mem [OF i] by (auto dest: set_takeWhileD)
qed

lemma low_mask_of_clz: "builtin_clz w = Inr c \<Longrightarrow> int_low_mask (64 - c) = Inl Undefined_behaviour"
proof -
  assume "builtin_clz w = Inr c"
  then have c: "unat c < 32" by (rule builtin_clz_range)
  then have "c \<le> 64" by (simp add: word_le_nat_alt)
  then have "unat (64 - c) = 64 - unat c" by (simp add: unat_sub)
  then show ?thesis using c by (simp add: int_low_mask_def word_less_nat_alt)
qed

lemma bit_mult_low:
  fixes v w :: "'a::len word"
  assumes "\<And>i. i < k \<Longrightarrow> \<not> bit w i" and "n < k"
  shows "\<not> bit (v * w) n"
proof -
  have "take_bit k w = 0" by (rule bit_eqI) (use assms(1) in \<open>auto simp: bit_simps\<close>)
  then have "w = push_bit k (drop_bit k w)" using bits_ident [of k w] by simp
  then have "v * w = push_bit k (v * drop_bit k w)" by (metis mult.assoc push_bit_eq_mult)
  then show ?thesis using assms(2) by (simp add: bit_simps)
qed

lemma update_masks_known:
  assumes "known m v" and "update_masks I sz m = Inr (Some m')" and "rhs_const I = Some literal"
    and "insn_value (getOpcode I) sz literal v = Some v'"
  shows "known m' v'"
proof (cases "getOpcode I")
  case Mul
  then obtain tz where tz: "builtin_ctz (ucast literal) = Inr tz" and m': "cbm_one m' = 0" "cbm_zero m' = mask (unat tz)"
    using assms(2,3) by (auto simp: update_masks_def int_low_mask_def shl64_def split: if_splits)
  have "\<not> bit literal i" if "i < unat tz" for i
  proof -
    have "unat tz < 31" using assms(2,3) tz Mul by (auto simp: update_masks_def int_low_mask_def word_less_nat_alt split: if_splits)
    then show ?thesis using builtin_ctz_bits [OF tz that] that by (simp add: bit_simps)
  qed
  then have "\<not> bit (v * literal) n" if "n < unat tz" for n using that by (rule bit_mult_low)
  then show ?thesis using m' assms(4) Mul by (auto simp: known_iff insn_value_def bit_simps)
next
  case Add
  then show ?thesis using assms(2,3) low_mask_of_clz by (auto simp: update_masks_def bindR_Inr_iff)
next
  case Sub
  then show ?thesis using assms(2,3) low_mask_of_clz by (auto simp: update_masks_def bindR_Inr_iff)
next
  case URem
  then show ?thesis using assms(2,3) low_mask_of_clz by (auto simp: update_masks_def bindR_Inr_iff)
next
  case Shl
  then have l: "literal < 31" and m': "m' = \<lparr>cbm_cb = push_bit (unat literal) (cbm_cb m), cbm_one = push_bit (unat literal) (cbm_one m),
      cbm_zero = push_bit (unat literal) (cbm_zero m) OR mask (unat literal)\<rparr>"
    using assms(2,3) by (auto simp: update_masks_def shl64_def int_low_mask_def split: if_splits)
  then show ?thesis using assms(1,4) Shl by (auto simp: known_iff insn_value_def bit_simps)
next
  case LShr
  then have l: "literal < 64" "64 - literal < 31" and m': "m' = \<lparr>cbm_cb = drop_bit (unat literal) (cbm_cb m),
      cbm_one = drop_bit (unat literal) (cbm_one m), cbm_zero = drop_bit (unat literal) (cbm_zero m) OR NOT (mask (unat (64 - literal)))\<rparr>"
    using assms(2,3) by (auto simp: update_masks_def shr64_def int_low_mask_def split: if_splits)
  have "unat (64 - literal) = 64 - unat literal" using l(1) by (simp add: unat_sub word_less_nat_alt word_le_nat_alt)
  moreover have "\<not> bit v (unat literal + n)" if "\<not> n < 64 - unat literal" for n
    using bit_u64_less [of v "unat literal + n"] that by linarith
  ultimately show ?thesis using assms(1,4) LShr l(1) m'
    by (auto simp: known_iff insn_value_def bit_simps)
next
  case Xor
  then have "m' = \<lparr>cbm_cb = cbm_cb m, cbm_one = (cbm_one m AND NOT literal) OR (literal AND cbm_zero m),
      cbm_zero = (cbm_zero m AND NOT literal) OR (literal AND cbm_one m)\<rparr>"
    using assms(2,3) by (simp add: update_masks_def Let_def)
  then show ?thesis using assms(1,4) Xor by (auto simp: known_iff insn_value_def bit_simps)
qed (use assms in \<open>auto simp: update_masks_def known_iff insn_value_def bit_simps int_low_mask_def shr64_def Let_def split: if_splits\<close>)

text \<open>The same through the shadow arrays: what is written is what is read back.\<close>

lemma le_word_le_bytes_take: "le_word (le_bytes n w) = take_bit (8 * n) (w :: u64)"
proof (rule bit_word_eqI)
  fix k
  assume "k < LENGTH(64)"
  moreover have "8 * (k div 8) + k mod 8 = k" by simp
  moreover have "k div 8 < n \<longleftrightarrow> k < 8 * n" by (simp add: div_less_iff_less_mult mult.commute)
  ultimately show "bit (le_word (le_bytes n w) :: u64) k \<longleftrightarrow> bit (take_bit (8 * n) w) k"
    by (auto simp: bit_le_word le_bytes_def bit_simps)
qed

lemma write_cb_masks_masks:
  assumes "ts_inv s" and "fits addr (unat n) (ts_shad s k)" and "unat n < 2 ^ 32" and "write_cb_masks k addr n m s = Inr s'"
  shows "masks_at s' k addr (unat n) = \<lparr>cbm_cb = take_bit (8 * unat n) (cbm_cb m), cbm_one = take_bit (8 * unat n) (cbm_one m),
    cbm_zero = take_bit (8 * unat n) (cbm_zero m)\<rparr>"
proof -
  obtain t where t: "write_cb_masks k addr n m s = Inr t" "ts_inv t" "ts_le s t" "ts_labels t = ts_labels s"
    "td_mem t = (\<lambda>(k', a). if k' = k \<and> unat (a - addr) < unat n
      then map_option (put_masks m (unat (a - addr))) (td_mem s (k', a)) else td_mem s (k', a))"
    by (rule write_cb_masks_ok [OF assms(1-3)])
  have td: "\<exists>td. td_mem s' (k, addr + of_nat i) = Some (put_masks m i td)" if "i < unat n" for i
  proof -
    have "unat ((addr + of_nat i) - addr) = i"
      using unat_offset_eq [of i "addr + of_nat i" addr] fits_small [OF ts_inv_ok [OF assms(1)] assms(2) that] by simp
    then show ?thesis using fits_td_mem [OF ts_inv_ok [OF assms(1)] assms(2) that] t(1,5) assms(4) that by auto
  qed
  have "map (\<lambda>i. f (the (td_mem s' (k, addr + of_nat i)))) [0..<unat n] = le_bytes (unat n) w"
    if "\<And>i td. f (put_masks m i td) = ucast (drop_bit (8 * i) w)" for f and w :: u64
    using td that by (fastforce simp: le_bytes_def)
  then show ?thesis
    by (simp add: masks_at_def Let_def comp_def put_masks_def flip: le_word_le_bytes_take)
qed

lemma known_take:
  assumes "known m v"
  shows "known \<lparr>cbm_cb = c, cbm_one = take_bit n (cbm_one m), cbm_zero = take_bit n (cbm_zero m)\<rparr> v"
  using assms by (simp add: known_iff bit_simps)

lemma update_cb_known:
  assumes "ts_inv s" and "fits dest (unat n) (ts_shad s kd)" and "fits src (unat n) (ts_shad s ks)" and "unat n < 2 ^ 31"
    and "rhs_const I = Some literal" and "insn_value (getOpcode I) n literal v = Some v'"
    and "known (masks_at s ks src (unat n)) v" and "update_cb kd dest ks src n (Some I) s = Inr s'"
  shows "known (masks_at s' kd dest (unat n)) v'"
proof -
  obtain r where r: "update_masks I n (masks_at s ks src (unat n)) = Inr r"
    "(case r of None \<Rightarrow> Inr s | Some m \<Rightarrow> write_cb_masks kd dest n m s) = Inr s'"
    using assms(8) compile_cb_masks_ok [OF assms(1,3,4)] by (auto simp: update_cb_def)
  have "getOpcode I \<noteq> Other_opcode" using assms(6) by (auto simp: insn_value_def)
  then have "r \<noteq> None" using r(1) by (cases "getOpcode I") (auto simp: update_masks_def Let_def split: if_splits)
  then obtain m where m: "r = Some m" by blast
  have "known m v'" using update_masks_known [OF assms(7) _ assms(5,6)] r(1) m by simp
  moreover have "unat n < 2 ^ 32" using assms(4) by simp
  ultimately show ?thesis using write_cb_masks_masks [OF assms(1,2)] r(2) m by (simp add: known_take)
qed

lemma parallel_masks_known:
  assumes "known m1 v1" and "known m2 v2"
  shows "known (parallel_masks (Some \<lparr>getOpcode = Or, rhs_const = r, hasAllConstantIndices = c\<rparr>) m1 m2) (v1 OR v2)"
    and "known (parallel_masks (Some \<lparr>getOpcode = And, rhs_const = r, hasAllConstantIndices = c\<rparr>) m1 m2) (v1 AND v2)"
  using assms by (auto simp: known_iff parallel_masks_def bit_simps)

section \<open>Properties\<close>


definition or_insn :: Instruction where
  "or_insn = \<lparr>getOpcode = Or, rhs_const = Some 5, hasAllConstantIndices = False\<rparr>"

lemma a_taint_masks: "masks_at a_taint k 0 1 = \<lparr>cbm_cb = 0xFF, cbm_one = 0, cbm_zero = 0\<rparr>"
  by (simp add: masks_at_def td_mem_def query_full_def a_taint_def label_set_singleton_def ls_new_def init_labels_def
    TaintData_ls_def Let_def)


text \<open>
  For additions, subtractions and remainders by a constant \<^verbatim>\<open>update_cb\<close> always executes an undefined shift: the
  leading zeroes are counted in 32 bits and subtracted from 64, and an \<^verbatim>\<open>int\<close> is shifted by the result.
\<close>

theorem arithmetic_masks_undefined:
  assumes "getOpcode I \<in> {Add, Sub, URem, SRem}"
  shows "update_masks I sz m = Inl Undefined_behaviour"
proof -
  have "bindR (builtin_clz w) (\<lambda>c. bindR (int_low_mask (64 - c)) f) = Inl Undefined_behaviour" for w and f :: "u64 \<Rightarrow> rr_exit + CBMasks option"
    using low_mask_of_clz by (cases "builtin_clz w") (auto simp: builtin_clz_def split: if_splits)
  then show ?thesis using assms by (auto simp: update_masks_def Let_def)
qed

theorem arithmetic_masks_undefined_witness:
  "update_masks \<lparr>getOpcode = Add, rhs_const = Some 4, hasAllConstantIndices = False\<rparr> 4 cbm_0 = Inl Undefined_behaviour"
  by (rule arithmetic_masks_undefined) simp

text \<open>
  The log of recent addresses is a stack of two: what was pushed last is popped first, and the two latest addresses come back
  in reverse order, whatever the log held before.
\<close>

theorem memlog_lifo:
  assumes "length (ml_ring m) = 2" and "ml_idx m < 2"
  shows "\<exists>m1 m2 m3 m4. taint_memlog_push a m = Inr m1 \<and> taint_memlog_push b m1 = Inr m2
    \<and> taint_memlog_pop m2 = Inr (b, m3) \<and> taint_memlog_pop m3 = Inr (a, m4)
    \<and> ml_idx m4 = ml_idx m \<and> length (ml_ring m4) = 2"
proof -
  have "ml_idx m = 0 \<or> ml_idx m = 1"
    using assms(2) by (auto simp: word_less_nat_alt less_2_cases_iff word_unat_eq_iff)
  then show ?thesis
    using assms(1) by (auto simp: taint_memlog_push_def taint_memlog_pop_def TAINT2_MEMLOG_SIZE_def Let_def)
qed

theorem memlog_lifo_witness:
  "\<exists>m1 m2 m3 m4. taint_memlog_push 10 \<lparr>ml_ring = [0, 0], ml_idx = 0\<rparr> = Inr m1 \<and> taint_memlog_push 20 m1 = Inr m2
    \<and> taint_memlog_pop m2 = Inr (20, m3) \<and> taint_memlog_pop m3 = Inr (10, m4)"
  using memlog_lifo [of "\<lparr>ml_ring = [0, 0], ml_idx = 0\<rparr>" 10 20] by auto

end
