(* ===== verification/Taint_Processor.thy ===== *)
theory Taint_Processor
  imports Taint_Propagation Shad_Dir_32 Shad_Dir_64
begin

text \<open>
  The shadow memory as a whole (\<^verbatim>\<open>panda_plugins/taint2/taint_processor.cpp\<close>): addresses of several kinds
  (\<^verbatim>\<open>panda/panda_addr.h\<close>), the shadow directories and arrays they select, labelling, querying and deleting.
  The number of registers and the word size are those of the guest (\<^verbatim>\<open>panda/guestarch.h\<close>).
\<close>

section \<open>Addresses\<close>

datatype target = TARGET_I386 | TARGET_X86_64 | TARGET_ARM

fun NUMREGS :: "target \<Rightarrow> u64" where
  "NUMREGS TARGET_I386 = 12"
| "NUMREGS TARGET_X86_64 = 20"
| "NUMREGS TARGET_ARM = 16"

fun WORDSIZE :: "target \<Rightarrow> u64" where
  "WORDSIZE TARGET_I386 = 4"
| "WORDSIZE TARGET_X86_64 = 8"
| "WORDSIZE TARGET_ARM = 4"

definition FUNCTIONFRAMES :: u64 where "FUNCTIONFRAMES = 10"

datatype AddrType = HADDR | MADDR | IADDR | PADDR | LADDR | GREG | GSPEC | UNK | CONST_typ | RET

text \<open>All members of the union \<^verbatim>\<open>val\<close> are 64 bits wide.\<close>

record Addr =
  addr_typ :: AddrType
  addr_val :: u64
  addr_off :: u16
  addr_flag :: u32

definition make_haddr :: "u64 \<Rightarrow> Addr" where
  "make_haddr a = \<lparr>addr_typ = HADDR, addr_val = a, addr_off = 0, addr_flag = 0\<rparr>"

definition make_maddr :: "u64 \<Rightarrow> Addr" where
  "make_maddr a = \<lparr>addr_typ = MADDR, addr_val = a, addr_off = 0, addr_flag = 0\<rparr>"

definition make_laddr :: "u64 \<Rightarrow> u64 \<Rightarrow> Addr" where
  "make_laddr a off = \<lparr>addr_typ = LADDR, addr_val = a, addr_off = ucast off, addr_flag = 0\<rparr>"

definition make_iaddr :: "u64 \<Rightarrow> Addr" where
  "make_iaddr a = \<lparr>addr_typ = IADDR, addr_val = a, addr_off = 0, addr_flag = 0\<rparr>"

definition make_paddr :: "u64 \<Rightarrow> Addr" where
  "make_paddr a = \<lparr>addr_typ = PADDR, addr_val = a, addr_off = 0, addr_flag = 0\<rparr>"

definition make_greg :: "u64 \<Rightarrow> u16 \<Rightarrow> Addr" where
  "make_greg r off = \<lparr>addr_typ = GREG, addr_val = r, addr_off = off, addr_flag = 0\<rparr>"

section \<open>The shadow memory\<close>

datatype TaintLabelMode = TAINT_BINARY_LABEL | TAINT_BYTE_LABEL

datatype TaintGranularity = TAINT_GRANULARITY_BYTE | TAINT_GRANULARITY_WORD

text \<open>
  The five arrays are those of the taint state. \<open>labels_applied\<close> is a global next to the shadow memory.
  The members that nothing writes or reads are left out.
\<close>

record Shad = taint_state +
  port_size :: u32
  num_vals :: u32
  guest_regs :: u32
  shad_hd :: SdDir64
  shad_io :: SdDir64
  shad_ports :: SdDir32
  shad_mode :: TaintLabelMode
  shad_granularity :: TaintGranularity
  labels_applied :: "u32 set"

text \<open>The undefined member \<^verbatim>\<open>dir_mask\<close> of a new directory (see \<open>Shad_Dir_64\<close>) is \<open>u\<close>; each array may have its own allocator.\<close>

definition tp_init :: "target \<Rightarrow> cpu_layout \<Rightarrow> (shad_id \<Rightarrow> shad_host) \<Rightarrow> u64 \<Rightarrow> u64
    \<Rightarrow> TaintLabelMode \<Rightarrow> TaintGranularity \<Rightarrow> 'a Shad_scheme \<Rightarrow> rr_exit + 'a Shad_scheme" where
  "tp_init T L h u ram_size mode granularity s =
     bindR (shad_dir_new_64 u 12 12 16) (\<lambda>hd.
     bindR (shad_dir_new_64 u 12 12 16) (\<lambda>io.
     bindR (shad_dir_new_32 10 10 12) (\<lambda>ports.
     let byte = (granularity = TAINT_GRANULARITY_BYTE) in
     bindR (FastShad_new (h Ram_shad) ''RAM'' (if byte then ram_size else ram_size div WORDSIZE T)) (\<lambda>ram.
     bindR (FastShad_new (h Llv_shad) ''LLVM''
       (if byte then MAXFRAMESIZE * FUNCTIONFRAMES * MAXREGSIZE else MAXFRAMESIZE * FUNCTIONFRAMES)) (\<lambda>llv.
     bindR (FastShad_new (h Ret_shad) ''Ret'' (if byte then MAXREGSIZE else 1)) (\<lambda>ret.
     bindR (FastShad_new (h Grv_shad) ''Reg'' (if byte then NUMREGS T * WORDSIZE T else NUMREGS T)) (\<lambda>grv.
     bindR (FastShad_new (h Gsv_shad) ''CPUState'' (sizeof_CPUState L)) (\<lambda>gsv.
     Inr (s\<lparr>port_size := 0xffff * 4, num_vals := ucast MAXFRAMESIZE, guest_regs := ucast (NUMREGS T),
       shad_hd := hd, shad_io := io, shad_ports := ports, shad_granularity := granularity, shad_mode := mode,
       ts_shad := (\<lambda>k. case k of Ram_shad \<Rightarrow> ram | Llv_shad \<Rightarrow> llv | Ret_shad \<Rightarrow> ret | Grv_shad \<Rightarrow> grv
         | Gsv_shad \<Rightarrow> gsv)\<rparr>)))))))))"

text \<open>The calls that release memory: of directories, by their blocks, and of arrays.\<close>

datatype tp_free_call = Free_hd sd_block | Free_io sd_block | Free_ports sd_block | Delete_array shad_id | Free_shad

definition tp_free :: "'a Shad_scheme \<Rightarrow> tp_free_call list" where
  "tp_free s =
     map Free_hd (shad_dir_free_64 (shad_hd s)) @ [Delete_array Ram_shad]
     @ map Free_io (shad_dir_free_64 (shad_io s)) @ map Free_ports (shad_dir_free_32 (shad_ports s))
     @ [Delete_array Llv_shad, Delete_array Ret_shad, Delete_array Grv_shad, Delete_array Gsv_shad, Free_shad]"

section \<open>Queries\<close>

definition tp_labelset_get :: "target \<Rightarrow> Addr \<Rightarrow> 'a Shad_scheme \<Rightarrow> rr_exit + LabelSetP" where
  "tp_labelset_get T a s =
     (let v = addr_val a; off = ucast (addr_off a) in
      case addr_typ a of
        HADDR \<Rightarrow> Inr (shad_dir_find_64 (shad_hd s) (v + off))
      | MADDR \<Rightarrow> query (v + off) (ts_shad s Ram_shad)
      | IADDR \<Rightarrow> Inr (shad_dir_find_64 (shad_io s) (v + off))
      | PADDR \<Rightarrow> Inr (shad_dir_find_32 (shad_ports s) (ucast (v + off)))
      | LADDR \<Rightarrow> query (v * MAXREGSIZE + off) (ts_shad s Llv_shad)
      | GREG \<Rightarrow> query (v * WORDSIZE T + off) (ts_shad s Grv_shad)
      | GSPEC \<Rightarrow> query (v - NUMREGS T + off) (ts_shad s Gsv_shad)
      | CONST_typ \<Rightarrow> Inr None
      | RET \<Rightarrow> query off (ts_shad s Ret_shad)
      | UNK \<Rightarrow> Inl (Assert_fail ''false''))"

definition tp_query_full :: "target \<Rightarrow> Addr \<Rightarrow> 'a Shad_scheme \<Rightarrow> rr_exit + TaintData" where
  "tp_query_full T a s =
     (let v = addr_val a; off = ucast (addr_off a) in
      case addr_typ a of
        HADDR \<Rightarrow> Inr TaintData_empty
      | MADDR \<Rightarrow> query_full (v + off) (ts_shad s Ram_shad)
      | IADDR \<Rightarrow> Inr TaintData_empty
      | PADDR \<Rightarrow> Inr TaintData_empty
      | LADDR \<Rightarrow> query_full (v * MAXREGSIZE + off) (ts_shad s Llv_shad)
      | GREG \<Rightarrow> query_full (v * WORDSIZE T + off) (ts_shad s Grv_shad)
      | GSPEC \<Rightarrow> query_full (v - NUMREGS T + off) (ts_shad s Gsv_shad)
      | CONST_typ \<Rightarrow> Inr TaintData_empty
      | RET \<Rightarrow> query_full off (ts_shad s Ret_shad)
      | UNK \<Rightarrow> Inl (Assert_fail ''false''))"

definition tp_query :: "target \<Rightarrow> Addr \<Rightarrow> 'a Shad_scheme \<Rightarrow> rr_exit + LabelSetP" where
  "tp_query T a s = tp_labelset_get T a s"

text \<open>An \<^verbatim>\<open>int\<close> is passed as a \<^verbatim>\<open>uint64_t\<close> by sign extension and as a \<^verbatim>\<open>uint16_t\<close> by truncation.\<close>

definition tp_query_ram :: "target \<Rightarrow> u64 \<Rightarrow> 'a Shad_scheme \<Rightarrow> rr_exit + LabelSetP" where
  "tp_query_ram T pa s = tp_query T (make_maddr pa) s"

definition tp_query_reg :: "target \<Rightarrow> u32 \<Rightarrow> u32 \<Rightarrow> 'a Shad_scheme \<Rightarrow> rr_exit + LabelSetP" where
  "tp_query_reg T reg_num offset s = tp_query T (make_greg (scast reg_num) (ucast offset)) s"

definition tp_query_llvm :: "target \<Rightarrow> u32 \<Rightarrow> u32 \<Rightarrow> 'a Shad_scheme \<Rightarrow> rr_exit + LabelSetP" where
  "tp_query_llvm T reg_num offset s = tp_query T (make_laddr (scast reg_num) (scast offset)) s"

definition tp_query_tcn :: "target \<Rightarrow> Addr \<Rightarrow> 'a Shad_scheme \<Rightarrow> rr_exit + u32" where
  "tp_query_tcn T a s = bindR (tp_query_full T a s) (\<lambda>td. Inr (td_tcn td))"

definition tp_query_tcn_ram :: "target \<Rightarrow> u64 \<Rightarrow> 'a Shad_scheme \<Rightarrow> rr_exit + u32" where
  "tp_query_tcn_ram T pa s = tp_query_tcn T (make_maddr pa) s"

definition tp_query_tcn_reg :: "target \<Rightarrow> u32 \<Rightarrow> u32 \<Rightarrow> 'a Shad_scheme \<Rightarrow> rr_exit + u32" where
  "tp_query_tcn_reg T reg_num offset s = tp_query_tcn T (make_greg (scast reg_num) (ucast offset)) s"

definition tp_query_tcn_llvm :: "target \<Rightarrow> u32 \<Rightarrow> u32 \<Rightarrow> 'a Shad_scheme \<Rightarrow> rr_exit + u32" where
  "tp_query_tcn_llvm T reg_num offset s = tp_query_tcn T (make_laddr (scast reg_num) (scast offset)) s"

text \<open>
  The mask of a byte is promoted to \<^verbatim>\<open>int\<close> before it is shifted: by 32 or more that is undefined, and a shift
  into the sign bit makes the operand of \<^verbatim>\<open>|=\<close> negative.
\<close>

definition int_shl :: "u8 \<Rightarrow> nat \<Rightarrow> rr_exit + u64" where
  "int_shl b n = (if n < 32 then Inr (scast (push_bit n (ucast b) :: u32)) else Inl Undefined_behaviour)"

definition tp_query_cb_mask :: "target \<Rightarrow> Addr \<Rightarrow> u8 \<Rightarrow> 'a Shad_scheme \<Rightarrow> rr_exit + u64" where
  "tp_query_cb_mask T a sz s =
     foldR (\<lambda>i cb_mask.
       bindR (tp_query_full T (a\<lparr>addr_off := addr_off a + of_nat i\<rparr>) s) (\<lambda>td.
       bindR (int_shl (td_cb_mask td) (i * 8)) (\<lambda>m. Inr (cb_mask OR m)))) [0..<unat sz] 0"

definition ls_card :: "LabelSetP \<Rightarrow> label_state \<Rightarrow> rr_exit + u32" where
  "ls_card ls l = bindR (label_set_render_set ls l) (\<lambda>L. Inr (of_nat (card L)))"

text \<open>Iteration over the labels in increasing order, until the function applied returns something else than 0.\<close>

definition tp_lsr_iter :: "u32 set \<Rightarrow> (u32 \<Rightarrow> 's \<Rightarrow> int \<times> 's) \<Rightarrow> 's \<Rightarrow> 's" where
  "tp_lsr_iter rendered app stuff2 = snd (iter_until app (sorted_list_of_set rendered) stuff2)"

definition tp_ls_iter :: "LabelSetP \<Rightarrow> label_state \<Rightarrow> (u32 \<Rightarrow> 's \<Rightarrow> int \<times> 's) \<Rightarrow> 's \<Rightarrow> rr_exit + 's" where
  "tp_ls_iter ls l app stuff2 = bindR (label_set_render_set ls l) (\<lambda>rendered. Inr (tp_lsr_iter rendered app stuff2))"

definition tp_ls_a_iter :: "target \<Rightarrow> Addr \<Rightarrow> (u32 \<Rightarrow> 's \<Rightarrow> int \<times> 's) \<Rightarrow> 's \<Rightarrow> 'a Shad_scheme \<Rightarrow> rr_exit + 's" where
  "tp_ls_a_iter T a app stuff2 s =
     bindR (tp_labelset_get T a s) (\<lambda>ls.
     if ls = None then Inr stuff2 else tp_ls_iter ls (ts_labels s) app stuff2)"

definition tp_ls_ram_iter :: "target \<Rightarrow> u64 \<Rightarrow> (u32 \<Rightarrow> 's \<Rightarrow> int \<times> 's) \<Rightarrow> 's \<Rightarrow> 'a Shad_scheme \<Rightarrow> rr_exit + 's" where
  "tp_ls_ram_iter T pa app stuff2 s = tp_ls_a_iter T (make_maddr pa) app stuff2 s"

definition tp_ls_reg_iter :: "target \<Rightarrow> u32 \<Rightarrow> u32 \<Rightarrow> (u32 \<Rightarrow> 's \<Rightarrow> int \<times> 's) \<Rightarrow> 's \<Rightarrow> 'a Shad_scheme \<Rightarrow> rr_exit + 's" where
  "tp_ls_reg_iter T reg_num offset app stuff2 s = tp_ls_a_iter T (make_greg (scast reg_num) (ucast offset)) app stuff2 s"

definition tp_ls_llvm_iter :: "target \<Rightarrow> u32 \<Rightarrow> u32 \<Rightarrow> (u32 \<Rightarrow> 's \<Rightarrow> int \<times> 's) \<Rightarrow> 's \<Rightarrow> 'a Shad_scheme \<Rightarrow> rr_exit + 's" where
  "tp_ls_llvm_iter T reg_num offset app stuff2 s = tp_ls_a_iter T (make_laddr (scast reg_num) (scast offset)) app stuff2 s"

section \<open>Updates\<close>

text \<open>The sizes are differences of \<^verbatim>\<open>int\<close>s passed as \<^verbatim>\<open>uint64_t\<close>: beyond a word they wrap around.\<close>

definition tp_delete :: "target \<Rightarrow> Addr \<Rightarrow> 'a Shad_scheme \<Rightarrow> rr_exit + 'a Shad_scheme" where
  "tp_delete T a s =
     (let v = addr_val a; off = ucast (addr_off a) in
      case addr_typ a of
        HADDR \<Rightarrow> bindR (shad_dir_remove_64 (shad_hd s) (v + off)) (\<lambda>d. Inr (s\<lparr>shad_hd := d\<rparr>))
      | MADDR \<Rightarrow> shad_remove Ram_shad (v + off) (WORDSIZE T - off) s
      | IADDR \<Rightarrow> bindR (shad_dir_remove_64 (shad_io s) (v + off)) (\<lambda>d. Inr (s\<lparr>shad_io := d\<rparr>))
      | PADDR \<Rightarrow> bindR (shad_dir_remove_32 (shad_ports s) (ucast (v + off))) (\<lambda>d. Inr (s\<lparr>shad_ports := d\<rparr>))
      | LADDR \<Rightarrow> shad_remove Llv_shad (v * MAXREGSIZE + off) (MAXREGSIZE - off) s
      | GREG \<Rightarrow> shad_remove Grv_shad (v * WORDSIZE T + off) (WORDSIZE T - off) s
      | GSPEC \<Rightarrow> shad_remove Gsv_shad (v - NUMREGS T + off) (WORDSIZE T - off) s
      | RET \<Rightarrow> shad_remove Ret_shad off MAXREGSIZE s
      | _ \<Rightarrow> Inl (Assert_fail ''1==0''))"

definition tp_labelset_put :: "target \<Rightarrow> Addr \<Rightarrow> LabelSetP \<Rightarrow> 'a Shad_scheme \<Rightarrow> rr_exit + 'a Shad_scheme" where
  "tp_labelset_put T a ls s =
     (let v = addr_val a; off = ucast (addr_off a) in
      case addr_typ a of
        HADDR \<Rightarrow> Inr (s\<lparr>shad_hd := shad_dir_add_64 (shad_hd s) (v + off) ls\<rparr>)
      | MADDR \<Rightarrow> label Ram_shad (v + off) ls s
      | IADDR \<Rightarrow> Inr (s\<lparr>shad_io := shad_dir_add_64 (shad_io s) (v + off) ls\<rparr>)
      | PADDR \<Rightarrow> Inr (s\<lparr>shad_ports := shad_dir_add_32 (shad_ports s) (ucast (v + off)) ls\<rparr>)
      | LADDR \<Rightarrow> label Llv_shad (v * MAXREGSIZE + off) ls s
      | GREG \<Rightarrow> label Grv_shad (v * WORDSIZE T + off) ls s
      | GSPEC \<Rightarrow> label Gsv_shad (v - NUMREGS T + off) ls s
      | RET \<Rightarrow> label Ret_shad off ls s
      | _ \<Rightarrow> Inl (Assert_fail ''1==0''))"

definition tp_label :: "target \<Rightarrow> Addr \<Rightarrow> u32 \<Rightarrow> 'a Shad_scheme \<Rightarrow> rr_exit + 'a Shad_scheme" where
  "tp_label T a l s =
     (let (ls, L) = label_set_singleton l (ts_labels s) in
      bindR (tp_labelset_put T a ls (s\<lparr>ts_labels := L\<rparr>)) (\<lambda>s.
      Inr (s\<lparr>labels_applied := insert l (labels_applied s)\<rparr>)))"

definition tp_labels_applied :: "'a Shad_scheme \<Rightarrow> u32 list" where
  "tp_labels_applied s = sorted_list_of_set (labels_applied s)"

definition tp_num_labels_applied :: "'a Shad_scheme \<Rightarrow> u32" where
  "tp_num_labels_applied s = of_nat (card (labels_applied s))"

definition tp_label_ram :: "target \<Rightarrow> u64 \<Rightarrow> u32 \<Rightarrow> 'a Shad_scheme \<Rightarrow> rr_exit + 'a Shad_scheme" where
  "tp_label_ram T pa l s = tp_label T (make_maddr pa) l s"

definition tp_delete_ram :: "target \<Rightarrow> u64 \<Rightarrow> 'a Shad_scheme \<Rightarrow> rr_exit + 'a Shad_scheme" where
  "tp_delete_ram T pa s = tp_delete T (make_maddr pa) s"

section \<open>The cells of the shadow memory\<close>

text \<open>What an address selects; and the label set there, \<open>None\<close> outside an array.\<close>

datatype cell = Hd_cell u64 | Io_cell u64 | Port_cell u32 | Shad_cell shad_id u64

definition cell_of :: "target \<Rightarrow> Addr \<Rightarrow> cell option" where
  "cell_of T a =
     (let v = addr_val a; off = ucast (addr_off a) in
      case addr_typ a of
        HADDR \<Rightarrow> Some (Hd_cell (v + off))
      | MADDR \<Rightarrow> Some (Shad_cell Ram_shad (v + off))
      | IADDR \<Rightarrow> Some (Io_cell (v + off))
      | PADDR \<Rightarrow> Some (Port_cell (ucast (v + off)))
      | LADDR \<Rightarrow> Some (Shad_cell Llv_shad (v * MAXREGSIZE + off))
      | GREG \<Rightarrow> Some (Shad_cell Grv_shad (v * WORDSIZE T + off))
      | GSPEC \<Rightarrow> Some (Shad_cell Gsv_shad (v - NUMREGS T + off))
      | RET \<Rightarrow> Some (Shad_cell Ret_shad off)
      | _ \<Rightarrow> None)"

fun cell_ls :: "'a Shad_scheme \<Rightarrow> cell \<Rightarrow> LabelSetP option" where
  "cell_ls s (Hd_cell a) = Some (shad_dir_find_64 (shad_hd s) a)"
| "cell_ls s (Io_cell a) = Some (shad_dir_find_64 (shad_io s) a)"
| "cell_ls s (Port_cell a) = Some (shad_dir_find_32 (shad_ports s) a)"
| "cell_ls s (Shad_cell k a) = map_option td_ls (td_mem s (k, a))"

definition labels_at :: "'a Shad_scheme \<Rightarrow> cell \<Rightarrow> u32 set option" where
  "labels_at s c = map_option (labels_of (ts_labels s)) (cell_ls s c)"

definition shad_inv :: "'a Shad_scheme \<Rightarrow> bool" where
  "shad_inv s \<longleftrightarrow> ts_inv s \<and> sd64_inv (shad_hd s) \<and> sd64_inv (shad_io s) \<and> sd32_inv (shad_ports s)
     \<and> (\<forall>c ls. cell_ls s c = Some ls \<longrightarrow> ls_valid (ts_labels s) ls)"

text \<open>A query for an address with its label set rendered, as the plugin's interface does it.\<close>

definition queried :: "target \<Rightarrow> Addr \<Rightarrow> 'a Shad_scheme \<Rightarrow> rr_exit + u32 set" where
  "queried T a s = bindR (tp_query T a s) (\<lambda>ls. label_set_render_set ls (ts_labels s))"

lemma cell_fun_eq: "f = g \<longleftrightarrow> (\<forall>a. f (Hd_cell a) = g (Hd_cell a)) \<and> (\<forall>a. f (Io_cell a) = g (Io_cell a))
    \<and> (\<forall>a. f (Port_cell a) = g (Port_cell a)) \<and> (\<forall>k a. f (Shad_cell k a) = g (Shad_cell k a))"
proof
  assume *: "(\<forall>a. f (Hd_cell a) = g (Hd_cell a)) \<and> (\<forall>a. f (Io_cell a) = g (Io_cell a))
    \<and> (\<forall>a. f (Port_cell a) = g (Port_cell a)) \<and> (\<forall>k a. f (Shad_cell k a) = g (Shad_cell k a))"
  show "f = g"
  proof
    fix c
    show "f c = g c" using * by (cases c) simp_all
  qed
qed simp

lemma query_td_mem: "query a (ts_shad s k) = (case td_mem s (k, a) of None \<Rightarrow> Inl Out_of_bounds | Some td \<Rightarrow> Inr (td_ls td))"
  by (simp add: query_def td_mem_def query_full_def Let_def)

lemma tp_labelset_get_cell:
  "tp_labelset_get T a s = (case cell_of T a of
     None \<Rightarrow> (if addr_typ a = CONST_typ then Inr None else Inl (Assert_fail ''false''))
   | Some c \<Rightarrow> (case cell_ls s c of None \<Rightarrow> Inl Out_of_bounds | Some ls \<Rightarrow> Inr ls))"
  by (cases "addr_typ a") (auto simp: tp_labelset_get_def cell_of_def Let_def query_td_mem split: option.splits)

lemma queried_cell:
  assumes "shad_inv s"
  shows "queried T a s = (case cell_of T a of
     None \<Rightarrow> (if addr_typ a = CONST_typ then Inr {} else Inl (Assert_fail ''false''))
   | Some c \<Rightarrow> (case labels_at s c of None \<Rightarrow> Inl Out_of_bounds | Some L \<Rightarrow> Inr L))"
proof -
  have "ls_valid (ts_labels s) ls" if "cell_ls s c = Some ls" for c ls using assms that by (auto simp: shad_inv_def)
  then show ?thesis
    by (auto simp: queried_def tp_query_def tp_labelset_get_cell labels_at_def label_set_render_ok split: option.splits)
qed

lemma Shad_more:
  assumes "taint_state.more s' = taint_state.more s"
  shows "shad_hd s' = shad_hd s" and "shad_io s' = shad_io s" and "shad_ports s' = shad_ports s"
    and "labels_applied s' = labels_applied s"
  using assms by (cases s; cases s'; simp)+

lemma Shad_upd [simp]:
  "ts_inv (s\<lparr>shad_hd := d\<rparr>) = ts_inv s" "td_mem (s\<lparr>shad_hd := d\<rparr>) = td_mem s"
  "ts_inv (s\<lparr>shad_io := d\<rparr>) = ts_inv s" "td_mem (s\<lparr>shad_io := d\<rparr>) = td_mem s"
  "ts_inv (s\<lparr>shad_ports := e\<rparr>) = ts_inv s" "td_mem (s\<lparr>shad_ports := e\<rparr>) = td_mem s"
  "ts_inv (s\<lparr>labels_applied := A\<rparr>) = ts_inv s" "td_mem (s\<lparr>labels_applied := A\<rparr>) = td_mem s"
  "td_mem (s\<lparr>ts_labels := L\<rparr>) = td_mem s"
  by (simp_all add: ts_inv_def td_mem_def [abs_def])

lemma cell_ls_upd [simp]:
  "cell_ls (s\<lparr>ts_labels := L\<rparr>) = cell_ls s" "cell_ls (s\<lparr>labels_applied := A\<rparr>) = cell_ls s"
  by (simp_all add: cell_fun_eq)

lemma shad_inv_labels:
  assumes "shad_inv s" and "ls_inv L" and "ls_le (ts_labels s) L"
  shows "shad_inv (s\<lparr>ts_labels := L\<rparr>)" and "cell_ls s c = Some ls \<Longrightarrow> labels_of L ls = labels_of (ts_labels s) ls"
  using assms ls_le_labels [OF assms(3)] by (auto simp: shad_inv_def ts_inv_def intro: ls_le_valid)

lemma shad_inv_cellI:
  assumes "shad_inv s" and "ts_inv s'" and "sd64_inv (shad_hd s')" and "sd64_inv (shad_io s')" and "sd32_inv (shad_ports s')"
    and "ts_labels s' = ts_labels s" and "\<And>c. cell_ls s' c = cell_ls s c \<or> (\<exists>ls. cell_ls s' c = Some ls \<and> ls_valid (ts_labels s) ls)"
  shows "shad_inv s'"
proof -
  have "ls_valid (ts_labels s) ls" if "cell_ls s' c = Some ls" for c ls
    using assms(1) assms(7) [of c] that by (auto simp: shad_inv_def)
  then show ?thesis using assms(2-6) by (simp add: shad_inv_def)
qed

lemma label_cell:
  assumes "shad_inv s" and "td_mem s (k, a) \<noteq> None" and "ls_valid (ts_labels s) ls"
  obtains s' where "label k a ls s = Inr s'" and "shad_inv s'" and "ts_labels s' = ts_labels s"
    and "labels_applied s' = labels_applied s" and "cell_ls s' = (cell_ls s)(Shad_cell k a \<mapsto> ls)"
proof -
  have inv: "ts_inv s" using assms(1) by (simp add: shad_inv_def)
  obtain s' where s': "label k a ls s = Inr s'" "ts_inv s'" "ts_le s s'"
    "td_mem s' = (td_mem s)((k, a) \<mapsto> TaintData_ls ls)" "ts_labels s' = ts_labels s"
    by (rule label_ok [OF inv assms(2,3)])
  have m: "taint_state.more s' = taint_state.more s" using s'(3) by (simp add: ts_le_def)
  have c: "cell_ls s' = (cell_ls s)(Shad_cell k a \<mapsto> ls)"
    by (auto simp: cell_fun_eq Shad_more [OF m] s'(4) TaintData_ls_def)
  have "shad_inv s'"
    by (rule shad_inv_cellI [OF assms(1) s'(2) _ _ _ s'(5)])
      (use assms c in \<open>auto simp: shad_inv_def Shad_more [OF m]\<close>)
  then show ?thesis using that s'(1,5) c Shad_more [OF m] by blast
qed

lemma tp_labelset_put_cell:
  assumes "shad_inv s" and "cell_of T a = Some c" and "cell_ls s c \<noteq> None" and "ls_valid (ts_labels s) (Some p)"
  obtains s' where "tp_labelset_put T a (Some p) s = Inr s'" and "shad_inv s'" and "ts_labels s' = ts_labels s"
    and "labels_applied s' = labels_applied s" and "cell_ls s' = (cell_ls s)(c \<mapsto> Some p)"
proof (cases c)
  case (Shad_cell k x)
  have "td_mem s (k, x) \<noteq> None" using assms(3) Shad_cell by simp
  moreover have "tp_labelset_put T a (Some p) s = label k x (Some p) s"
    using assms(2) Shad_cell by (cases "addr_typ a") (auto simp: tp_labelset_put_def cell_of_def Let_def)
  ultimately show ?thesis
    using label_cell [OF assms(1) _ assms(4), of k x] that Shad_cell by metis
next
  case (Hd_cell x)
  let ?s = "s\<lparr>shad_hd := shad_dir_add_64 (shad_hd s) x (Some p)\<rparr>"
  have d: "sd64_inv (shad_hd s)" using assms(1) by (simp add: shad_inv_def)
  have c: "cell_ls ?s = (cell_ls s)(c \<mapsto> Some p)" by (auto simp: cell_fun_eq Hd_cell shad_dir_add_64_ok [OF d])
  have "tp_labelset_put T a (Some p) s = Inr ?s"
    using assms(2) Hd_cell by (cases "addr_typ a") (auto simp: tp_labelset_put_def cell_of_def Let_def)
  moreover have "shad_inv ?s"
    by (rule shad_inv_cellI [OF assms(1)]) (use assms c shad_dir_add_64_ok [OF d] in \<open>auto simp: shad_inv_def\<close>)
  ultimately show ?thesis using that c by simp
next
  case (Io_cell x)
  let ?s = "s\<lparr>shad_io := shad_dir_add_64 (shad_io s) x (Some p)\<rparr>"
  have d: "sd64_inv (shad_io s)" using assms(1) by (simp add: shad_inv_def)
  have c: "cell_ls ?s = (cell_ls s)(c \<mapsto> Some p)" by (auto simp: cell_fun_eq Io_cell shad_dir_add_64_ok [OF d])
  have "tp_labelset_put T a (Some p) s = Inr ?s"
    using assms(2) Io_cell by (cases "addr_typ a") (auto simp: tp_labelset_put_def cell_of_def Let_def)
  moreover have "shad_inv ?s"
    by (rule shad_inv_cellI [OF assms(1)]) (use assms c shad_dir_add_64_ok [OF d] in \<open>auto simp: shad_inv_def\<close>)
  ultimately show ?thesis using that c by simp
next
  case (Port_cell x)
  let ?s = "s\<lparr>shad_ports := shad_dir_add_32 (shad_ports s) x (Some p)\<rparr>"
  have d: "sd32_inv (shad_ports s)" using assms(1) by (simp add: shad_inv_def)
  have c: "cell_ls ?s = (cell_ls s)(c \<mapsto> Some p)" by (auto simp: cell_fun_eq Port_cell shad_dir_add_32_ok [OF d])
  have "tp_labelset_put T a (Some p) s = Inr ?s"
    using assms(2) Port_cell by (cases "addr_typ a") (auto simp: tp_labelset_put_def cell_of_def Let_def)
  moreover have "shad_inv ?s"
    by (rule shad_inv_cellI [OF assms(1)]) (use assms c shad_dir_add_32_ok [OF d] in \<open>auto simp: shad_inv_def\<close>)
  ultimately show ?thesis using that c by simp
qed

lemma tp_label_cell:
  assumes "shad_inv s" and "cell_of T a = Some c" and "cell_ls s c \<noteq> None"
  obtains s' where "tp_label T a l s = Inr s'" and "shad_inv s'" and "labels_applied s' = insert l (labels_applied s)"
    and "labels_at s' = (labels_at s)(c \<mapsto> {l})"
proof -
  have "ls_inv (ts_labels s)" using assms(1) by (simp add: shad_inv_def ts_inv_def)
  then obtain ls L where L: "label_set_singleton l (ts_labels s) = (ls, L)" "ls_inv L" "ls_le (ts_labels s) L"
    "ls_valid L ls" "labels_of L ls = {l}" by (rule label_set_singleton_ok)
  obtain p where p: "ls = Some p" using L(5) by (cases ls) auto
  let ?s = "s\<lparr>ts_labels := L\<rparr>"
  note i = shad_inv_labels [OF assms(1) L(2,3)]
  have v: "ls_valid (ts_labels ?s) (Some p)" and n: "cell_ls ?s c \<noteq> None" using L(4) p assms(3) by simp_all
  obtain s' where s': "tp_labelset_put T a (Some p) ?s = Inr s'" "shad_inv s'" "ts_labels s' = ts_labels ?s"
    "labels_applied s' = labels_applied ?s" "cell_ls s' = (cell_ls ?s)(c \<mapsto> Some p)"
    by (rule tp_labelset_put_cell [OF i(1) assms(2) n v])
  let ?t = "s'\<lparr>labels_applied := insert l (labels_applied s')\<rparr>"
  have "tp_label T a l s = Inr ?t" using L(1) p s'(1) by (simp add: tp_label_def)
  moreover have "shad_inv ?t" using s'(2) by (simp add: shad_inv_def)
  moreover have "labels_at ?t = (labels_at s)(c \<mapsto> {l})"
  proof
    fix c'
    show "labels_at ?t c' = ((labels_at s)(c \<mapsto> {l})) c'"
      using L(5) p s'(3,5) i(2) [of c'] by (cases "cell_ls s c'") (auto simp: labels_at_def)
  qed
  ultimately show ?thesis using that s'(4) by simp
qed

section \<open>Deleting\<close>

text \<open>The cells that a deletion clears: one of a directory, up to a word or register of an array.\<close>

definition delete_range :: "target \<Rightarrow> Addr \<Rightarrow> (shad_id \<times> u64 \<times> u64) option" where
  "delete_range T a =
     (let v = addr_val a; off = ucast (addr_off a) in
      case addr_typ a of
        MADDR \<Rightarrow> Some (Ram_shad, v + off, WORDSIZE T - off)
      | LADDR \<Rightarrow> Some (Llv_shad, v * MAXREGSIZE + off, MAXREGSIZE - off)
      | GREG \<Rightarrow> Some (Grv_shad, v * WORDSIZE T + off, WORDSIZE T - off)
      | GSPEC \<Rightarrow> Some (Gsv_shad, v - NUMREGS T + off, WORDSIZE T - off)
      | RET \<Rightarrow> Some (Ret_shad, off, MAXREGSIZE)
      | _ \<Rightarrow> None)"

definition deleted_cells :: "target \<Rightarrow> Addr \<Rightarrow> cell set" where
  "deleted_cells T a = (case delete_range T a of
     Some (k, x, n) \<Rightarrow> {Shad_cell k y | y. unat (y - x) < unat n}
   | None \<Rightarrow> {c. cell_of T a = Some c})"

definition deletable :: "target \<Rightarrow> Addr \<Rightarrow> 'a Shad_scheme \<Rightarrow> bool" where
  "deletable T a s \<longleftrightarrow> (case delete_range T a of
     Some (k, x, n) \<Rightarrow> fits x (unat n) (ts_shad s k) \<and> tracked s x n
   | None \<Rightarrow> cell_of T a \<noteq> None)"

lemma tp_delete_array:
  assumes "delete_range T a = Some (k, x, n)"
  shows "tp_delete T a s = shad_remove k x n s"
  using assms by (cases "addr_typ a") (auto simp: tp_delete_def delete_range_def Let_def)

lemma tp_delete_array_cell:
  assumes "shad_inv s" and "fits x (unat n) (ts_shad s k)" and "tracked s x n"
  obtains s' where "shad_remove k x n s = Inr s'" and "shad_inv s'" and "labels_applied s' = labels_applied s"
    and "labels_at s' = (\<lambda>c. if c \<in> {Shad_cell k y | y. unat (y - x) < unat n} then Some {} else labels_at s c)"
proof -
  have inv: "ts_inv s" using assms(1) by (simp add: shad_inv_def)
  obtain s' where s': "shad_remove k x n s = Inr s'" "ts_inv s'" "ts_le s s'" "ts_labels s' = ts_labels s"
    "td_mem s' = (\<lambda>(k', a). if k' = k \<and> unat (a - x) < unat n then Some TaintData_empty else td_mem s (k', a))"
    by (rule shad_remove_ok [OF inv assms(2,3)])
  have m: "taint_state.more s' = taint_state.more s" using s'(3) by (simp add: ts_le_def)
  have c: "cell_ls s' c = (if c \<in> {Shad_cell k y | y. unat (y - x) < unat n} then Some None else cell_ls s c)" for c
    by (cases c) (auto simp: Shad_more [OF m] s'(5) TaintData_empty_def)
  have "shad_inv s'"
    by (rule shad_inv_cellI [OF assms(1) s'(2) _ _ _ s'(4)]) (use assms c in \<open>auto simp: shad_inv_def Shad_more [OF m]\<close>)
  moreover have "labels_at s' = (\<lambda>c. if c \<in> {Shad_cell k y | y. unat (y - x) < unat n} then Some {} else labels_at s c)"
    unfolding labels_at_def c s'(4) by (auto simp: fun_eq_iff)
  ultimately show ?thesis using that s'(1) Shad_more [OF m] by blast
qed

lemma tp_delete_dir_cell:
  assumes "shad_inv s" and "delete_range T a = None" and "cell_of T a = Some c"
  obtains s' where "tp_delete T a s = Inr s'" and "shad_inv s'" and "labels_applied s' = labels_applied s"
    and "labels_at s' = (labels_at s)(c \<mapsto> {})"
proof -
  have d: "sd64_inv (shad_hd s)" "sd64_inv (shad_io s)" "sd32_inv (shad_ports s)" using assms(1) by (simp_all add: shad_inv_def)
  have "\<exists>s'. tp_delete T a s = Inr s' \<and> ts_inv s' \<and> sd64_inv (shad_hd s') \<and> sd64_inv (shad_io s') \<and> sd32_inv (shad_ports s')
    \<and> ts_labels s' = ts_labels s \<and> labels_applied s' = labels_applied s \<and> cell_ls s' = (cell_ls s)(c \<mapsto> None)"
  proof (cases "addr_typ a")
    case HADDR
    with assms(3) shad_dir_remove_64_ok [OF d(1), of "addr_val a + ucast (addr_off a)"] show ?thesis
      using assms(1) by (auto simp: tp_delete_def cell_of_def Let_def shad_inv_def cell_fun_eq)
  next
    case IADDR
    with assms(3) shad_dir_remove_64_ok [OF d(2), of "addr_val a + ucast (addr_off a)"] show ?thesis
      using assms(1) by (auto simp: tp_delete_def cell_of_def Let_def shad_inv_def cell_fun_eq)
  next
    case PADDR
    with assms(3) shad_dir_remove_32_ok [OF d(3), of "ucast (addr_val a + ucast (addr_off a))"] show ?thesis
      using assms(1) by (auto simp: tp_delete_def cell_of_def Let_def shad_inv_def cell_fun_eq)
  qed (use assms in \<open>auto simp: delete_range_def cell_of_def Let_def\<close>)
  then obtain s' where s': "tp_delete T a s = Inr s'" "ts_inv s'" "sd64_inv (shad_hd s')" "sd64_inv (shad_io s')"
    "sd32_inv (shad_ports s')" "ts_labels s' = ts_labels s" "labels_applied s' = labels_applied s"
    "cell_ls s' = (cell_ls s)(c \<mapsto> None)" by blast
  have "shad_inv s'" by (rule shad_inv_cellI [OF assms(1) s'(2-6)]) (auto simp: s'(8))
  moreover have "labels_at s' = (labels_at s)(c \<mapsto> {})" using s'(6,8) by (auto simp: labels_at_def fun_eq_iff)
  ultimately show ?thesis using that s'(1,7) by blast
qed

lemma tp_delete_cell:
  assumes "shad_inv s" and "deletable T a s"
  obtains s' where "tp_delete T a s = Inr s'" and "shad_inv s'" and "labels_applied s' = labels_applied s"
    and "labels_at s' = (\<lambda>c. if c \<in> deleted_cells T a then Some {} else labels_at s c)"
proof (cases "delete_range T a")
  case None
  then obtain c where c: "cell_of T a = Some c" using assms(2) by (auto simp: deletable_def)
  obtain s' where s': "tp_delete T a s = Inr s'" "shad_inv s'" "labels_applied s' = labels_applied s"
    "labels_at s' = (labels_at s)(c \<mapsto> {})" by (rule tp_delete_dir_cell [OF assms(1) None c])
  show ?thesis by (rule that [OF s'(1-3)]) (use s'(4) None c in \<open>auto simp: deleted_cells_def fun_eq_iff\<close>)
next
  case (Some r)
  obtain k x n where r: "r = (k, x, n)" by (cases r)
  with Some assms(2) have f: "fits x (unat n) (ts_shad s k)" "tracked s x n" by (simp_all add: deletable_def)
  obtain s' where s': "shad_remove k x n s = Inr s'" "shad_inv s'" "labels_applied s' = labels_applied s"
    "labels_at s' = (\<lambda>c. if c \<in> {Shad_cell k y | y. unat (y - x) < unat n} then Some {} else labels_at s c)"
    by (rule tp_delete_array_cell [OF assms(1) f])
  show ?thesis
    by (rule that [OF _ s'(2,3)]) (use s'(1,4) Some r in \<open>simp_all add: deleted_cells_def tp_delete_array\<close>)
qed

section \<open>A new shadow memory\<close>

definition host_ok :: "shad_host \<Rightarrow> bool" where
  "host_ok h \<longleftrightarrow> malloc_ok h \<and> (mmap_hugetlb_ok h \<or> mmap_ok h)"

fun shad_cells :: "target \<Rightarrow> cpu_layout \<Rightarrow> u64 \<Rightarrow> shad_id \<Rightarrow> nat" where
  "shad_cells T L ram_size Ram_shad = unat ram_size"
| "shad_cells T L ram_size Llv_shad = 800000"
| "shad_cells T L ram_size Ret_shad = 16"
| "shad_cells T L ram_size Grv_shad = unat (NUMREGS T * WORDSIZE T)"
| "shad_cells T L ram_size Gsv_shad = unat (sizeof_CPUState L)"

lemma FastShad_new_ok:
  assumes "host_ok h" and "unat n < 2 ^ 60"
  shows "FastShad_new h name n = Inr \<lparr>fs_name = name, fs_size = n, fs_labels = 0, fs_data = replicate (unat n) TaintData_empty\<rparr>"
  using assms by (auto simp: FastShad_new_def host_ok_def td_elems_small rr_assert_def)

lemma tp_init_ok:
  assumes "\<And>k. host_ok (h k)" and "ls_inv (ts_labels s)" and "unat ram_size < 2 ^ 60" and "unat (sizeof_CPUState L) < 2 ^ 60"
  obtains s' where "tp_init T L h u ram_size mode TAINT_GRANULARITY_BYTE s = Inr s'" and "shad_inv s'"
    and "ts_labels s' = ts_labels s" and "labels_applied s' = labels_applied s" and "track_taint_state s' = track_taint_state s"
    and "\<And>k. fs_labels (ts_shad s' k) = 0 \<and> fs_data (ts_shad s' k) = replicate (shad_cells T L ram_size k) TaintData_empty"
    and "\<And>a. cell_ls s' (Hd_cell a) = Some None \<and> cell_ls s' (Io_cell a) = Some None"
    and "\<And>a. cell_ls s' (Port_cell a) = Some None"
proof -
  have regs: "unat (NUMREGS T * WORDSIZE T) < 2 ^ 60" by (cases T) simp_all
  obtain d where d: "shad_dir_new_64 u 12 12 16 = Inr d" by (simp add: shad_dir_new_64_def int_one_shl_def rr_assert_def)
  obtain e where e: "shad_dir_new_32 10 10 12 = Inr e" by (simp add: shad_dir_new_32_def int_one_shl_def rr_assert_def Let_def)
  note dd = shad_dir_new_64_ok [OF d] and ee = shad_dir_new_32_ok [OF e]
  have n: "FastShad_new (h k) nm n = Inr \<lparr>fs_name = nm, fs_size = n, fs_labels = 0, fs_data = replicate (unat n) TaintData_empty\<rparr>"
    if "unat n < 2 ^ 60" for k nm n using that assms(1) by (rule_tac FastShad_new_ok)
  have m: "MAXFRAMESIZE * FUNCTIONFRAMES * MAXREGSIZE = 800000" by (simp add: MAXFRAMESIZE_def FUNCTIONFRAMES_def MAXREGSIZE_def)
  have r: "unat MAXREGSIZE < 2 ^ 60" by (simp add: MAXREGSIZE_def)
  obtain s' where s': "tp_init T L h u ram_size mode TAINT_GRANULARITY_BYTE s = Inr s'"
    "ts_labels s' = ts_labels s" "labels_applied s' = labels_applied s" "track_taint_state s' = track_taint_state s"
    "\<And>k. fs_labels (ts_shad s' k) = 0 \<and> fs_data (ts_shad s' k) = replicate (shad_cells T L ram_size k) TaintData_empty"
    "shad_hd s' = d" "shad_io s' = d" "shad_ports s' = e"
  proof (rule that)
    show "tp_init T L h u ram_size mode TAINT_GRANULARITY_BYTE s = Inr (s\<lparr>port_size := 0xffff * 4, num_vals := ucast MAXFRAMESIZE,
       guest_regs := ucast (NUMREGS T), shad_hd := d, shad_io := d, shad_ports := e, shad_granularity := TAINT_GRANULARITY_BYTE,
       shad_mode := mode, ts_shad := (\<lambda>k. case k of
         Ram_shad \<Rightarrow> \<lparr>fs_name = ''RAM'', fs_size = ram_size, fs_labels = 0, fs_data = replicate (unat ram_size) TaintData_empty\<rparr>
       | Llv_shad \<Rightarrow> \<lparr>fs_name = ''LLVM'', fs_size = 800000, fs_labels = 0, fs_data = replicate (unat (800000 :: u64)) TaintData_empty\<rparr>
       | Ret_shad \<Rightarrow> \<lparr>fs_name = ''Ret'', fs_size = MAXREGSIZE, fs_labels = 0, fs_data = replicate (unat MAXREGSIZE) TaintData_empty\<rparr>
       | Grv_shad \<Rightarrow> \<lparr>fs_name = ''Reg'', fs_size = NUMREGS T * WORDSIZE T, fs_labels = 0,
           fs_data = replicate (unat (NUMREGS T * WORDSIZE T)) TaintData_empty\<rparr>
       | Gsv_shad \<Rightarrow> \<lparr>fs_name = ''CPUState'', fs_size = sizeof_CPUState L, fs_labels = 0,
           fs_data = replicate (unat (sizeof_CPUState L)) TaintData_empty\<rparr>)\<rparr>)"
      using assms(3,4) regs r by (simp add: tp_init_def d e n m)
  qed (simp_all add: MAXREGSIZE_def split: shad_id.split)
  have "shad_cells T L ram_size k < 2 ^ 60" for k using assms(3,4) regs by (cases k) simp_all
  then have i: "ts_inv s'" using s'(2,5) assms(2) by (auto simp: ts_inv_def fs_ok_def TaintData_empty_def)
  have c: "cell_ls s' (Hd_cell a) = Some None \<and> cell_ls s' (Io_cell a) = Some None" "cell_ls s' (Port_cell b) = Some None" for a b
    using dd(2) ee(2) s' by simp_all
  have "ls_valid (ts_labels s') ls" if "cell_ls s' c = Some ls" for c ls
    using that c td_mem_valid [OF i] by (cases c) auto
  then have "shad_inv s'" using i dd(1) ee(1) s'(6-8) by (simp add: shad_inv_def)
  with that s'(1-5) c show ?thesis by blast
qed

section \<open>The masks of a range\<close>

lemma le_word_snoc: "(le_word (bs @ [b]) :: 'a::len word) = le_word bs OR push_bit (8 * length bs) (ucast b)"
  by (induction bs) (simp_all add: push_bit_or add.commute or.assoc)

lemma cb_mask_loop:
  assumes "n \<le> 4" and "\<And>i. i < n \<Longrightarrow> tp_query_full T (a\<lparr>addr_off := addr_off a + of_nat i\<rparr>) s = Inr (td i)"
  shows "foldR (\<lambda>i cb_mask. bindR (tp_query_full T (a\<lparr>addr_off := addr_off a + of_nat i\<rparr>) s) (\<lambda>td.
       bindR (int_shl (td_cb_mask td) (i * 8)) (\<lambda>m. Inr (cb_mask OR m)))) [0..<n] 0
    = Inr (scast (le_word (map (td_cb_mask \<circ> td) [0..<n]) :: u32))"
  using assms
proof (induction n)
  case (Suc n)
  then show ?case by (simp add: foldR_append le_word_snoc int_shl_def signed_or_eq mult.commute)
qed simp

lemma scast_le_word:
  assumes "length bs < 4"
  shows "(scast (le_word bs :: u32) :: u64) = le_word bs"
proof (rule bit_word_eqI)
  fix k
  assume "k < LENGTH(64)"
  then show "bit (scast (le_word bs :: u32) :: u64) k = bit (le_word bs :: u64) k"
    using assms by (auto simp: bit_signed_iff bit_le_word min_def not_le)
qed

section \<open>Properties\<close>

text \<open>
  C33: A new shadow memory with byte granularity holds exactly the cells of the machine, one per byte of RAM, of the
  registers, of the CPU state and of the LLVM values, and none is tainted; labels applied earlier stay counted.
\<close>

theorem tp_init_untainted:
  assumes "\<And>k. host_ok (h k)" and "ls_inv (ts_labels s)" and "unat ram_size < 2 ^ 60" and "unat (sizeof_CPUState L) < 2 ^ 60"
  shows "\<exists>s'. tp_init T L h u ram_size mode TAINT_GRANULARITY_BYTE s = Inr s' \<and> shad_inv s'
    \<and> labels_applied s' = labels_applied s
    \<and> (\<forall>k a. labels_at s' (Shad_cell k a) = (if unat a < shad_cells T L ram_size k then Some {} else None))
    \<and> (\<forall>a b. labels_at s' (Hd_cell a) = Some {} \<and> labels_at s' (Io_cell a) = Some {} \<and> labels_at s' (Port_cell b) = Some {})"
proof (rule tp_init_ok [OF assms(1,2,3,4)])
  fix s'
  assume s': "tp_init T L h u ram_size mode TAINT_GRANULARITY_BYTE s = Inr s'" "shad_inv s'" "labels_applied s' = labels_applied s"
    "\<And>k. fs_labels (ts_shad s' k) = 0 \<and> fs_data (ts_shad s' k) = replicate (shad_cells T L ram_size k) TaintData_empty"
    "\<And>a. cell_ls s' (Hd_cell a) = Some None \<and> cell_ls s' (Io_cell a) = Some None" "\<And>a. cell_ls s' (Port_cell a) = Some None"
  have "labels_at s' (Shad_cell k a) = (if unat a < shad_cells T L ram_size k then Some {} else None)" for k a
  proof -
    have "fs_ok (ts_shad s' k)" using s'(2) by (simp add: shad_inv_def ts_inv_def)
    then show ?thesis using td_mem_eq [of s' k a] s'(4) [of k] by (auto simp: labels_at_def Let_def TaintData_empty_def)
  qed
  moreover have "labels_at s' (Hd_cell a) = Some {} \<and> labels_at s' (Io_cell a) = Some {} \<and> labels_at s' (Port_cell b) = Some {}" for a b
    using s'(5) [of a] s'(6) [of b] by (simp add: labels_at_def del: cell_ls.simps)
  ultimately show ?thesis using s'(1-3) by blast
qed

definition a_layout :: cpu_layout where
  "a_layout = \<lparr>sizeof_CPUState = 64, sizeof_reg = 4, off_regs = (0, 32), off_fpregs = (32, 8), off_xmm_regs = (40, 8),
     off_xmm_t0 = (48, 4), off_mmx_t0 = (52, 4), off_ymmh_regs = (56, 8)\<rparr>"

definition a_shad_host :: shad_host where
  "a_shad_host = \<lparr>malloc_ok = True, mmap_hugetlb_ok = False, mmap_ok = True\<rparr>"

definition no_shad :: Shad where
  "no_shad = \<lparr>ts_labels = init_labels id, ts_shad = (\<lambda>_. \<lparr>fs_name = '''', fs_size = 0, fs_labels = 0, fs_data = []\<rparr>),
     track_taint_state = False, taint_changes = [], port_size = 0, num_vals = 0, guest_regs = 0,
     shad_hd = a_dir_64, shad_io = a_dir_64, shad_ports = a_dir_32, shad_mode = TAINT_BYTE_LABEL,
     shad_granularity = TAINT_GRANULARITY_BYTE, labels_applied = {}\<rparr>"

definition a_shad :: Shad where
  "a_shad = (case tp_init TARGET_I386 a_layout (\<lambda>_. a_shad_host) 0 4096 TAINT_BYTE_LABEL TAINT_GRANULARITY_BYTE no_shad of Inr s \<Rightarrow> s)"

lemma a_shad_hyps: "host_ok a_shad_host" "ls_inv (ts_labels no_shad)" "unat (4096 :: u64) < 2 ^ 60"
    "unat (sizeof_CPUState a_layout) < 2 ^ 60"
  by (simp_all add: host_ok_def a_shad_host_def no_shad_def a_layout_def)

theorem tp_init_untainted_witness:
  "\<exists>s'. tp_init TARGET_I386 a_layout (\<lambda>_. a_shad_host) 0 4096 TAINT_BYTE_LABEL TAINT_GRANULARITY_BYTE no_shad = Inr s'
    \<and> labels_at s' (Shad_cell Ram_shad 4095) = Some {} \<and> labels_at s' (Shad_cell Ram_shad 4096) = None"
proof -
  from tp_init_untainted [where h = "\<lambda>_. a_shad_host", OF a_shad_hyps, of TARGET_I386 0 TAINT_BYTE_LABEL] obtain s' where
    "tp_init TARGET_I386 a_layout (\<lambda>_. a_shad_host) 0 4096 TAINT_BYTE_LABEL TAINT_GRANULARITY_BYTE no_shad = Inr s'"
    "\<forall>k a. labels_at s' (Shad_cell k a) = (if unat a < shad_cells TARGET_I386 a_layout 4096 k then Some {} else None)" by blast
  then show ?thesis by (intro exI [of _ s']) simp
qed

lemma a_shad_ok: "shad_inv a_shad" "labels_applied a_shad = {}" "\<not> track_taint_state a_shad"
  "fs_labels (ts_shad a_shad k) = 0" "fs_data (ts_shad a_shad k) = replicate (shad_cells TARGET_I386 a_layout 4096 k) TaintData_empty"
proof -
  obtain s' where s': "tp_init TARGET_I386 a_layout (\<lambda>_. a_shad_host) 0 4096 TAINT_BYTE_LABEL TAINT_GRANULARITY_BYTE no_shad = Inr s'"
    "shad_inv s'" "labels_applied s' = labels_applied no_shad" "track_taint_state s' = track_taint_state no_shad"
    "\<And>k. fs_labels (ts_shad s' k) = 0 \<and> fs_data (ts_shad s' k) = replicate (shad_cells TARGET_I386 a_layout 4096 k) TaintData_empty"
    by (rule tp_init_ok [where h = "\<lambda>_. a_shad_host", OF a_shad_hyps, of TARGET_I386 0 TAINT_BYTE_LABEL]) blast
  have "a_shad = s'" by (simp add: a_shad_def s'(1))
  then show "shad_inv a_shad" "labels_applied a_shad = {}" "\<not> track_taint_state a_shad" "fs_labels (ts_shad a_shad k) = 0"
    "fs_data (ts_shad a_shad k) = replicate (shad_cells TARGET_I386 a_layout 4096 k) TaintData_empty"
    using s'(2-5) by (simp_all add: no_shad_def)
qed

text \<open>
  C32: Labelling and querying through addresses of every kind. After a label is put on an address, a query of any
  address that selects the same cell gives exactly that label, and a query of any other address what it gave before.
\<close>

theorem tp_label_then_query:
  assumes "shad_inv s" and "queried T a s = Inr old" and "addr_typ a \<noteq> CONST_typ"
  shows "\<exists>s'. tp_label T a l s = Inr s' \<and> shad_inv s' \<and> labels_applied s' = insert l (labels_applied s)
    \<and> (\<forall>b. queried T b s' = (if cell_of T b = cell_of T a then Inr {l} else queried T b s))"
proof -
  obtain c where c: "cell_of T a = Some c" "cell_ls s c \<noteq> None"
    using assms(2,3) by (auto simp: queried_cell [OF assms(1)] labels_at_def split: option.splits if_splits)
  obtain s' where s': "tp_label T a l s = Inr s'" "shad_inv s'" "labels_applied s' = insert l (labels_applied s)"
    "labels_at s' = (labels_at s)(c \<mapsto> {l})" by (rule tp_label_cell [OF assms(1) c])
  have "queried T b s' = (if cell_of T b = cell_of T a then Inr {l} else queried T b s)" for b
    unfolding queried_cell [OF assms(1)] queried_cell [OF s'(2)] s'(4) using c(1) by (auto split: option.splits)
  with s'(1-3) show ?thesis by blast
qed

theorem tp_label_then_query_witness:
  "\<exists>s'. tp_label TARGET_I386 (make_greg 3 2) 7 a_shad = Inr s' \<and> queried TARGET_I386 (make_greg 2 6) s' = Inr {7}"
proof -
  have "fs_ok (ts_shad a_shad Grv_shad)" using a_shad_ok(1) by (simp add: shad_inv_def ts_inv_def)
  then have "td_mem a_shad (Grv_shad, 14) \<noteq> None" using td_mem_eq [of a_shad Grv_shad 14] a_shad_ok(4,5) [of Grv_shad] by simp
  then have "queried TARGET_I386 (make_greg 3 2) a_shad \<noteq> Inl e" for e
    by (auto simp: queried_cell [OF a_shad_ok(1)] cell_of_def make_greg_def labels_at_def)
  then obtain old where "queried TARGET_I386 (make_greg 3 2) a_shad = Inr old" by (cases "queried TARGET_I386 (make_greg 3 2) a_shad") auto
  from tp_label_then_query [OF a_shad_ok(1) this, of 7] obtain s' where
    "tp_label TARGET_I386 (make_greg 3 2) 7 a_shad = Inr s'"
    "\<forall>b. queried TARGET_I386 b s' = (if cell_of TARGET_I386 b = cell_of TARGET_I386 (make_greg 3 2) then Inr {7} else queried TARGET_I386 b a_shad)"
    by (auto simp: make_greg_def)
  then show ?thesis by (intro exI [of _ s']) (simp add: cell_of_def make_greg_def)
qed

text \<open>
  Deleting an address clears one cell of a directory and the rest of a word or register of an array, from the
  address on; every other cell keeps its labels, and the labels applied stay counted.
\<close>

theorem tp_delete_clears:
  assumes "shad_inv s" and "deletable T a s"
  shows "\<exists>s'. tp_delete T a s = Inr s' \<and> shad_inv s' \<and> labels_applied s' = labels_applied s
    \<and> labels_at s' = (\<lambda>c. if c \<in> deleted_cells T a then Some {} else labels_at s c)"
  by (rule tp_delete_cell [OF assms]) blast

theorem tp_delete_clears_witness:
  "\<exists>s'. tp_delete_ram TARGET_I386 100 a_shad = Inr s' \<and> labels_at s' (Shad_cell Ram_shad 103) = Some {}"
proof -
  have "deletable TARGET_I386 (make_maddr 100) a_shad"
    using a_shad_ok(3) a_shad_ok(4,5) [of Ram_shad] by (simp add: deletable_def delete_range_def make_maddr_def fits_def tracked_def)
  from tp_delete_clears [OF a_shad_ok(1) this] obtain s' where
    "tp_delete TARGET_I386 (make_maddr 100) a_shad = Inr s'"
    "labels_at s' = (\<lambda>c. if c \<in> deleted_cells TARGET_I386 (make_maddr 100) then Some {} else labels_at a_shad c)" by blast
  then show ?thesis by (intro exI [of _ s']) (simp add: tp_delete_ram_def deleted_cells_def delete_range_def make_maddr_def)
qed

text \<open>
  The bit masks of a range of bytes. Up to three bytes the query gives the masks as a little-endian word; of four
  bytes the word is sign-extended to 64 bits; with five bytes or more the query shifts too far, whatever the masks are.
\<close>

theorem tp_query_cb_mask_ranges:
  assumes "\<And>i. i < unat sz \<Longrightarrow> tp_query_full T (a\<lparr>addr_off := addr_off a + of_nat i\<rparr>) s = Inr (td i)"
  shows "tp_query_cb_mask T a sz s =
    (if sz < 4 then Inr (le_word (map (td_cb_mask \<circ> td) [0..<unat sz]))
     else if sz = 4 then Inr (scast (le_word (map (td_cb_mask \<circ> td) [0..<4]) :: u32))
     else Inl Undefined_behaviour)"
proof (cases "unat sz \<le> 4")
  case True
  have sz: "sz < 4 \<longleftrightarrow> unat sz < 4" "sz = 4 \<longleftrightarrow> unat sz = 4" by (simp_all add: word_less_nat_alt word_unat_eq_iff)
  show ?thesis
    using cb_mask_loop [OF True assms] True scast_le_word [of "map (td_cb_mask \<circ> td) [0..<unat sz]"]
    by (auto simp: tp_query_cb_mask_def sz)
next
  case False
  then have sz: "\<not> sz < 4" "sz \<noteq> 4" by (auto simp: word_less_nat_alt)
  have split: "[0..<unat sz] = [0..<4] @ 4 # [5..<unat sz]"
    using False upt_add_eq_append [of 0 4 "unat sz - 4"] upt_conv_Cons [of 4 "unat sz"] by simp
  have "tp_query_full T (a\<lparr>addr_off := addr_off a + of_nat i\<rparr>) s = Inr (td i)" if "i < 5" for i
    using assms [of i] that False by simp
  from cb_mask_loop [of 4, OF _ this] this [of 4] show ?thesis
    unfolding tp_query_cb_mask_def split by (simp add: foldR_append int_shl_def sz)
qed

lemma upt_4: "[0..<4] = [0, 1, 2, 3 :: nat]"
  by (simp add: upt_rec)

theorem tp_query_cb_mask_ranges_witness:
  "\<exists>s'. label Ram_shad 3 (Some 0) a_shad = Inr s' \<and> tp_query_cb_mask TARGET_I386 (make_maddr 0) 4 s' = Inr 0xFFFFFFFFFF000000"
proof -
  let ?tds = "(replicate 4096 TaintData_empty)[3 := TaintData_ls (Some 0)]"
  let ?s = "upd_shad Ram_shad ((ts_shad a_shad Ram_shad)\<lparr>fs_data := ?tds\<rparr>) a_shad"
  have l: "label Ram_shad 3 (Some 0) a_shad = Inr ?s"
    using a_shad_ok(4,5) [of Ram_shad] by (simp add: label_def put_td_def)
  have q: "tp_query_full TARGET_I386 ((make_maddr 0)\<lparr>addr_off := addr_off (make_maddr 0) + of_nat i\<rparr>) ?s = Inr (?tds ! i)"
    if "i < unat (4 :: u8)" for i
  proof -
    have i: "i = 0 \<or> i = 1 \<or> i = 2 \<or> i = 3" using that by auto
    show ?thesis using a_shad_ok(4) [of Ram_shad] i
      by (auto simp: tp_query_full_def make_maddr_def query_full_def Let_def)
  qed
  have "tp_query_cb_mask TARGET_I386 (make_maddr 0) 4 ?s =
      (if (4 :: u8) < 4 then Inr (le_word (map (td_cb_mask \<circ> (!) ?tds) [0..<unat (4 :: u8)]))
       else if (4 :: u8) = 4 then Inr (scast (le_word (map (td_cb_mask \<circ> (!) ?tds) [0..<4]) :: u32)) else Inl Undefined_behaviour)"
    by (rule tp_query_cb_mask_ranges) (rule q)
  also have "map (td_cb_mask \<circ> (!) ?tds) [0..<4] = [0, 0, 0, 0xFF]"
    unfolding upt_4 by (simp add: TaintData_empty_def TaintData_ls_def)
  finally have "tp_query_cb_mask TARGET_I386 (make_maddr 0) 4 ?s = Inr 0xFFFFFFFFFF000000" by simp
  then show ?thesis using l by blast
qed

end
