(* ===== verification/Guest_Memory.thy ===== *)
theory Guest_Memory
  imports Panda_Prelude
begin

text \<open>
  How plugins reach the guest's memory: the page-table walk of \<^verbatim>\<open>target-i386/helper.c\<close> for an x86-64 guest, the
  translation of virtual addresses, and reading and writing physical and virtual memory without touching
  devices (\<^verbatim>\<open>panda_physical_memory_rw\<close> and \<^verbatim>\<open>panda_virtual_memory_rw\<close> of \<^verbatim>\<open>exec.c\<close>).
\<close>

section \<open>Physical memory\<close>

text \<open>
  The table of pages, the contents of RAM by RAM address, and what devices answer to a load; whether a page of
  RAM is dirty (no code was translated from it). Calls of plugins and of the recorder are listed in their order.
\<close>

datatype mem_event =
    Before_mem_rw_ram bool u64 nat
  | After_mem_rw_ram bool u64 nat
  | Tb_invalidate_phys_page_range u64 nat
  | Device_mem_rw_call_record u64 "u8 list"

record guest_mem =
  phys_page_find :: "u64 \<Rightarrow> u64 option"
  ram :: "u64 \<Rightarrow> u8"
  io_ldl :: "u64 \<Rightarrow> u32"
  io_ldq :: "u64 \<Rightarrow> u64"
  ram_is_dirty :: "u64 \<Rightarrow> bool"
  mem_replay :: bool
  mem_record :: bool
  mem_events :: "mem_event list"

definition TARGET_PAGE_MASK :: u64 where "TARGET_PAGE_MASK = NOT 0xFFF"
definition IO_MEM_RAM :: u64 where "IO_MEM_RAM = 0"
definition IO_MEM_ROM :: u64 where "IO_MEM_ROM = 8"
definition IO_MEM_UNASSIGNED :: u64 where "IO_MEM_UNASSIGNED = 16"
definition IO_MEM_ROMD :: u64 where "IO_MEM_ROMD = 1"

definition page_desc :: "guest_mem \<Rightarrow> u64 \<Rightarrow> u64" where
  "page_desc G addr = (case phys_page_find G (drop_bit 12 addr) of None \<Rightarrow> IO_MEM_UNASSIGNED | Some pd \<Rightarrow> pd)"

definition is_io_read :: "u64 \<Rightarrow> bool" where
  "is_io_read pd \<longleftrightarrow> pd AND NOT TARGET_PAGE_MASK > IO_MEM_ROM \<and> pd AND IO_MEM_ROMD = 0"

definition ram_addr :: "u64 \<Rightarrow> u64 \<Rightarrow> u64" where
  "ram_addr pd addr = (pd AND TARGET_PAGE_MASK) + (addr AND NOT TARGET_PAGE_MASK)"

definition ram_bytes :: "guest_mem \<Rightarrow> u64 \<Rightarrow> nat \<Rightarrow> u8 list" where
  "ram_bytes G a n = map (\<lambda>i. ram G (a + of_nat i)) [0..<n]"

definition ldl_phys :: "guest_mem \<Rightarrow> u64 \<Rightarrow> u32" where
  "ldl_phys G addr =
     (let pd = page_desc G addr
      in if is_io_read pd then io_ldl G addr else le_word (ram_bytes G (ram_addr pd addr) 4))"

definition ldq_phys :: "guest_mem \<Rightarrow> u64 \<Rightarrow> u64" where
  "ldq_phys G addr =
     (let pd = page_desc G addr
      in if is_io_read pd then io_ldq G addr else le_word (ram_bytes G (ram_addr pd addr) 8))"

text \<open>The part of a range that lies in the first page: \<^verbatim>\<open>l = (page + TARGET_PAGE_SIZE) - addr; if (l > len) l = len\<close>.\<close>

definition page_chunk :: "u64 \<Rightarrow> nat \<Rightarrow> nat" where
  "page_chunk addr len = min len (unat ((addr AND TARGET_PAGE_MASK) + 0x1000 - addr))"

lemma page_split: "(addr AND TARGET_PAGE_MASK) + (addr AND 0xFFF) = addr"
proof -
  have "(addr AND TARGET_PAGE_MASK) + (addr AND 0xFFF) = (addr AND TARGET_PAGE_MASK) OR (addr AND 0xFFF)"
    by (rule disjunctive_add) (auto simp: TARGET_PAGE_MASK_def bit_simps)
  also have "\<dots> = addr" by (rule bit_word_eqI) (auto simp: TARGET_PAGE_MASK_def bit_simps)
  finally show ?thesis .
qed

lemma page_offset_less: "unat (addr AND 0xFFF :: u64) < 4096"
proof -
  have "(0xFFF :: u64) = mask 12" by (simp add: mask_eq_exp_minus_1)
  then have "addr AND 0xFFF = take_bit 12 addr" by (simp add: take_bit_eq_mask)
  then have "unat (addr AND 0xFFF) = take_bit 12 (unat addr)" by (simp only: unsigned_take_bit_eq)
  then show ?thesis by (simp only: take_bit_eq_mod) simp
qed

lemma page_chunk_eq: "page_chunk addr len = min len (4096 - unat (addr AND 0xFFF))"
proof -
  have "addr AND 0xFFF \<le> (0x1000 :: u64)" using page_offset_less [of addr] by (simp add: word_le_nat_alt)
  then have "unat (0x1000 - (addr AND 0xFFF)) = 4096 - unat (addr AND 0xFFF)" by (simp add: unat_sub)
  moreover have "(addr AND TARGET_PAGE_MASK) + 0x1000 - addr = 0x1000 - (addr AND 0xFFF)"
    using page_split [of addr] by (metis add_diff_cancel_left)
  ultimately show ?thesis by (simp only: page_chunk_def)
qed

lemma page_chunk_pos: "len > 0 \<Longrightarrow> 0 < page_chunk addr len" "page_chunk addr len \<le> len"
  using page_offset_less [of addr] by (simp_all add: page_chunk_eq)

lemma page_chunk_decr: "0 < len \<Longrightarrow> len - page_chunk addr len < len"
  using page_chunk_pos [where len = len and addr = addr] by simp

text \<open>Reading: a page that would need a device ends it with -1. What was read so far is in the buffer.\<close>

definition note_mem_rw :: "bool \<Rightarrow> u64 \<Rightarrow> nat \<Rightarrow> guest_mem \<Rightarrow> guest_mem" where
  "note_mem_rw is_write a l G =
     (if mem_replay G then G\<lparr>mem_events := mem_events G @ [Before_mem_rw_ram is_write a l, After_mem_rw_ram is_write a l]\<rparr> else G)"

function panda_physical_memory_read :: "u64 \<Rightarrow> nat \<Rightarrow> guest_mem \<Rightarrow> int \<times> u8 list \<times> guest_mem" where
  "panda_physical_memory_read addr len G =
     (if len = 0 then (0, [], G)
      else
        let l = page_chunk addr len; pd = page_desc G addr
        in if is_io_read pd then (-1, [], G)
           else
             let bytes = ram_bytes G (ram_addr pd addr) l;
                 (ret, bs, G) = panda_physical_memory_read (addr + of_nat l) (len - l) (note_mem_rw False (ram_addr pd addr) l G)
             in (ret, bytes @ bs, G))"
  by pat_completeness auto
termination
  by (relation "measure (\<lambda>(addr, len, G). len)") (auto simp: page_chunk_decr)

text \<open>Writing: the bytes, then the code that was translated from them, then the record of the call, which holds all that is left.\<close>

definition ram_upd :: "u64 \<Rightarrow> u8 list \<Rightarrow> (u64 \<Rightarrow> u8) \<Rightarrow> u64 \<Rightarrow> u8" where
  "ram_upd a bs m = (\<lambda>x. if unat (x - a) < length bs then bs ! unat (x - a) else m x)"

definition ram_store :: "u64 \<Rightarrow> u8 list \<Rightarrow> guest_mem \<Rightarrow> guest_mem" where
  "ram_store a bs G = G\<lparr>ram := ram_upd a bs (ram G)\<rparr>"

definition note_mem_write :: "u64 \<Rightarrow> u64 \<Rightarrow> nat \<Rightarrow> u8 list \<Rightarrow> guest_mem \<Rightarrow> guest_mem" where
  "note_mem_write addr a l buf G =
     G\<lparr>mem_events := mem_events G @ (if ram_is_dirty G a then [] else [Tb_invalidate_phys_page_range a l])
       @ (if mem_record G then [Device_mem_rw_call_record addr buf] else [])\<rparr>"

function panda_physical_memory_write :: "u64 \<Rightarrow> u8 list \<Rightarrow> guest_mem \<Rightarrow> int \<times> guest_mem" where
  "panda_physical_memory_write addr buf G =
     (if buf = [] then (0, G)
      else
        let l = page_chunk addr (length buf); pd = page_desc G addr
        in if pd AND NOT TARGET_PAGE_MASK \<noteq> IO_MEM_RAM then (-1, G)
           else
             let a = ram_addr pd addr;
                 G = ram_store a (take l buf) (note_mem_rw True a l G)
             in panda_physical_memory_write (addr + of_nat l) (drop l buf) (note_mem_write addr a l buf G))"
  by pat_completeness auto
termination
  by (relation "measure (\<lambda>(addr, buf, G). length buf)") (auto simp: page_chunk_decr)

function cpu_physical_memory_write_rom :: "u64 \<Rightarrow> u8 list \<Rightarrow> guest_mem \<Rightarrow> guest_mem" where
  "cpu_physical_memory_write_rom addr buf G =
     (if buf = [] then G
      else
        let l = page_chunk addr (length buf); pd = page_desc G addr;
            G = (if pd AND NOT TARGET_PAGE_MASK \<noteq> IO_MEM_RAM \<and> pd AND NOT TARGET_PAGE_MASK \<noteq> IO_MEM_ROM \<and> pd AND IO_MEM_ROMD = 0
                 then G else ram_store (ram_addr pd addr) (take l buf) G)
        in cpu_physical_memory_write_rom (addr + of_nat l) (drop l buf) G)"
  by pat_completeness auto
termination
  by (relation "measure (\<lambda>(addr, buf, G). length buf)") (auto simp: page_chunk_decr)

declare panda_physical_memory_read.simps [simp del] panda_physical_memory_write.simps [simp del]
  cpu_physical_memory_write_rom.simps [simp del]

section \<open>Virtual addresses\<close>

text \<open>
  The control registers of an x86-64 CPU. \<open>a20_mask\<close> is an \<^verbatim>\<open>int32_t\<close>, sign-extended where it is used, as is the
  \<^verbatim>\<open>int\<close> constant \<^verbatim>\<open>CR0_PG_MASK\<close>.
\<close>

record cpu_x86 =
  cr0 :: u64
  cr3 :: u64
  cr4 :: u64
  hflags :: u32
  a20_mask :: u32

definition CR0_PG_MASK :: u64 where "CR0_PG_MASK = 0xFFFFFFFF80000000"
definition CR4_PSE_MASK :: u64 where "CR4_PSE_MASK = 0x10"
definition CR4_PAE_MASK :: u64 where "CR4_PAE_MASK = 0x20"
definition HF_LMA_MASK :: u32 where "HF_LMA_MASK = 0x4000"
definition PG_PRESENT_MASK :: u64 where "PG_PRESENT_MASK = 1"
definition PG_PSE_MASK :: u64 where "PG_PSE_MASK = 0x80"
definition PG_HI_USER_MASK :: u64 where "PG_HI_USER_MASK = 0x7FF0000000000000"
definition PG_NX_MASK :: u64 where "PG_NX_MASK = 0x8000000000000000"

text \<open>\<open>None\<close> is the return value -1; otherwise the page size and the entry. Bits 47 and up of the address must be equal in long mode.\<close>

definition cpu_get_phys_page_stuff :: "cpu_x86 \<Rightarrow> guest_mem \<Rightarrow> u64 \<Rightarrow> (u64 \<times> u64) option" where
  "cpu_get_phys_page_stuff env G addr =
     (let a20 = scast (a20_mask env) in
      if cr0 env AND CR0_PG_MASK = 0 then Some (4096, addr AND a20)
      else if cr4 env AND CR4_PAE_MASK \<noteq> 0 then
        (case
           (if hflags env AND HF_LMA_MASK \<noteq> 0 then
              let sext = signed_drop_bit 47 addr in
              if sext \<noteq> 0 \<and> sext \<noteq> -1 then None
              else
                let pml4e_addr = ((cr3 env AND NOT 0xFFF) + push_bit 3 (drop_bit 39 addr AND 0x1FF)) AND a20;
                    pml4e = ldq_phys G pml4e_addr
                in if pml4e AND PG_PRESENT_MASK = 0 then None
                   else
                     let pdpe_addr = ((pml4e AND NOT 0xFFF AND NOT (PG_NX_MASK OR PG_HI_USER_MASK))
                           + push_bit 3 (drop_bit 30 addr AND 0x1FF)) AND a20;
                         pdpe = ldq_phys G pdpe_addr
                     in if pdpe AND PG_PRESENT_MASK = 0 then None else Some pdpe
            else
              let pdpe_addr = ((cr3 env AND NOT 0x1F) + (drop_bit 27 addr AND 0x18)) AND a20;
                  pdpe = ldq_phys G pdpe_addr
              in if pdpe AND PG_PRESENT_MASK = 0 then None else Some pdpe) of
           None \<Rightarrow> None
         | Some pdpe \<Rightarrow>
             let pde_addr = ((pdpe AND NOT 0xFFF AND NOT (PG_NX_MASK OR PG_HI_USER_MASK))
                   + push_bit 3 (drop_bit 21 addr AND 0x1FF)) AND a20;
                 pde = ldq_phys G pde_addr
             in if pde AND PG_PRESENT_MASK = 0 then None
                else
                  let (page_size, pte) =
                    (if pde AND PG_PSE_MASK \<noteq> 0
                     then (2048 * 1024, pde AND NOT ((2048 * 1024 - 1) AND NOT 0xFFF))
                     else
                       let pte_addr = ((pde AND NOT 0xFFF AND NOT (PG_NX_MASK OR PG_HI_USER_MASK))
                             + push_bit 3 (drop_bit 12 addr AND 0x1FF)) AND a20
                       in (4096, ldq_phys G pte_addr));
                      pte = pte AND NOT (PG_NX_MASK OR PG_HI_USER_MASK)
                  in if pte AND PG_PRESENT_MASK = 0 then None else Some (page_size, pte))
      else
        let pde_addr = ((cr3 env AND NOT 0xFFF) + (drop_bit 20 addr AND 0xFFC)) AND a20;
            pde = ldl_phys G pde_addr
        in if pde AND 1 = 0 then None
           else if pde AND 0x80 \<noteq> 0 \<and> cr4 env AND CR4_PSE_MASK \<noteq> 0
           then Some (4096 * 1024, ucast (pde AND NOT 0x003FF000) AND a20)
           else
             let pte_addr = (ucast (pde AND NOT 0xFFF) + (drop_bit 10 addr AND 0xFFC)) AND a20;
                 pte = ldl_phys G pte_addr
             in if pte AND 1 = 0 then None else Some (4096, ucast pte AND a20))"

definition cpu_get_phys_page_debug :: "cpu_x86 \<Rightarrow> guest_mem \<Rightarrow> u64 \<Rightarrow> u64" where
  "cpu_get_phys_page_debug env G addr =
     (case cpu_get_phys_page_stuff env G addr of
        Some (page_size, pte) \<Rightarrow>
          let page_offset = ucast ((addr AND TARGET_PAGE_MASK) AND (page_size - 1)) :: u32
          in (pte AND TARGET_PAGE_MASK) + ucast page_offset
      | None \<Rightarrow> -1)"

definition cpu_get_phys_addr :: "cpu_x86 \<Rightarrow> guest_mem \<Rightarrow> u64 \<Rightarrow> u64" where
  "cpu_get_phys_addr env G addr =
     (case cpu_get_phys_page_stuff env G addr of
        Some (page_size, pte) \<Rightarrow>
          let page_offset = ucast (addr AND (page_size - 1)) :: u32
          in (pte AND TARGET_PAGE_MASK) + ucast page_offset
      | None \<Rightarrow> -1)"

definition panda_virt_to_phys :: "cpu_x86 \<Rightarrow> guest_mem \<Rightarrow> u64 \<Rightarrow> u64" where
  "panda_virt_to_phys env G addr =
     (let page = addr AND TARGET_PAGE_MASK;
          phys_addr = cpu_get_phys_page_debug env G page
      in if phys_addr = -1 then -1 else phys_addr + (addr AND NOT TARGET_PAGE_MASK))"

function panda_virtual_memory_read :: "cpu_x86 \<Rightarrow> u64 \<Rightarrow> nat \<Rightarrow> guest_mem \<Rightarrow> int \<times> u8 list \<times> guest_mem" where
  "panda_virtual_memory_read env addr len G =
     (if len = 0 then (0, [], G)
      else
        let page = addr AND TARGET_PAGE_MASK;
            phys_addr = cpu_get_phys_page_debug env G page
        in if phys_addr = -1 then (-1, [], G)
           else
             let l = page_chunk addr len;
                 (ret, bytes, G) = panda_physical_memory_read (phys_addr + (addr AND NOT TARGET_PAGE_MASK)) l G
             in if ret < 0 then (ret, bytes, G)
                else
                  let (ret, bs, G) = panda_virtual_memory_read env (addr + of_nat l) (len - l) G
                  in (ret, bytes @ bs, G))"
  by pat_completeness auto
termination
  by (relation "measure (\<lambda>(env, addr, len, G). len)") (auto simp: page_chunk_decr)

function panda_virtual_memory_write :: "cpu_x86 \<Rightarrow> u64 \<Rightarrow> u8 list \<Rightarrow> guest_mem \<Rightarrow> int \<times> guest_mem" where
  "panda_virtual_memory_write env addr buf G =
     (if buf = [] then (0, G)
      else
        let page = addr AND TARGET_PAGE_MASK;
            phys_addr = cpu_get_phys_page_debug env G page
        in if phys_addr = -1 then (-1, G)
           else
             let l = page_chunk addr (length buf);
                 G = cpu_physical_memory_write_rom (phys_addr + (addr AND NOT TARGET_PAGE_MASK)) (take l buf) G
             in panda_virtual_memory_write env (addr + of_nat l) (drop l buf) G)"
  by pat_completeness auto
termination
  by (relation "measure (\<lambda>(env, addr, buf, G). length buf)") (auto simp: page_chunk_decr)

declare panda_virtual_memory_read.simps [simp del] panda_virtual_memory_write.simps [simp del]

section \<open>The two translations agree\<close>

lemma page_mask_mask: "TARGET_PAGE_MASK = NOT (mask 12)" "NOT TARGET_PAGE_MASK = mask 12" "(0xFFF :: u64) = mask 12"
  by (simp_all add: TARGET_PAGE_MASK_def mask_eq_exp_minus_1)

lemma drop_page: "12 \<le> k \<Longrightarrow> drop_bit k (addr AND TARGET_PAGE_MASK) = drop_bit k addr"
  by (rule bit_word_eqI) (use bit_u64_less [of addr] in \<open>auto simp: page_mask_mask bit_simps\<close>)

lemma sdrop_page: "signed_drop_bit 47 (addr AND TARGET_PAGE_MASK) = signed_drop_bit 47 addr"
  by (rule bit_word_eqI) (auto simp: page_mask_mask bit_simps)

lemma stuff_page:
  assumes "cr0 env AND CR0_PG_MASK \<noteq> 0"
  shows "cpu_get_phys_page_stuff env G (addr AND TARGET_PAGE_MASK) = cpu_get_phys_page_stuff env G addr"
proof -
  have d10: "drop_bit 10 (addr AND TARGET_PAGE_MASK) AND 0xFFC = drop_bit 10 addr AND 0xFFC"
  proof -
    have m: "(0xFFC :: u64) = push_bit 2 (mask 10)" by (simp add: mask_eq_exp_minus_1)
    show ?thesis unfolding m page_mask_mask
      by (rule bit_word_eqI) (use bit_u64_less [of addr] in \<open>auto simp: bit_push_bit_iff bit_and_iff bit_drop_bit_eq bit_not_iff bit_mask_iff\<close>)
  qed
  have d: "drop_bit 39 (addr AND TARGET_PAGE_MASK) = drop_bit 39 addr" "drop_bit 30 (addr AND TARGET_PAGE_MASK) = drop_bit 30 addr"
    "drop_bit 27 (addr AND TARGET_PAGE_MASK) = drop_bit 27 addr" "drop_bit 21 (addr AND TARGET_PAGE_MASK) = drop_bit 21 addr"
    "drop_bit 12 (addr AND TARGET_PAGE_MASK) = drop_bit 12 addr" "drop_bit 20 (addr AND TARGET_PAGE_MASK) = drop_bit 20 addr"
    by (rule drop_page; simp)+
  show ?thesis
    using assms unfolding cpu_get_phys_page_stuff_def Let_def by (simp only: d10 sdrop_page d if_False)
qed

lemma stuff_size:
  assumes "cpu_get_phys_page_stuff env G addr = Some (page_size, pte)"
  obtains p where "page_size - 1 = mask p" and "12 \<le> p" and "p \<le> 22"
proof -
  have "page_size = 4096 \<or> page_size = 2048 * 1024 \<or> page_size = 4096 * 1024"
    using assms unfolding cpu_get_phys_page_stuff_def Let_def by (auto split: if_splits option.splits)
  then have "page_size - 1 = mask 12 \<or> page_size - 1 = mask 21 \<or> page_size - 1 = mask 22"
    by (auto simp: mask_eq_exp_minus_1)
  then show ?thesis using that [of 12] that [of 21] that [of 22] by auto
qed

lemma page_aligned: "((a AND TARGET_PAGE_MASK) + take_bit p (b AND TARGET_PAGE_MASK)) AND mask 12 = (0 :: u64)"
proof -
  let ?x = "a AND TARGET_PAGE_MASK" and ?y = "take_bit p (b AND TARGET_PAGE_MASK)"
  have z: "?x = push_bit 12 (drop_bit 12 ?x)" "?y = push_bit 12 (drop_bit 12 ?y)" unfolding page_mask_mask
    by (rule bit_word_eqI; auto simp: bit_push_bit_iff bit_drop_bit_eq bit_take_bit_iff bit_and_iff bit_not_iff bit_mask_iff)+
  have "?x + ?y = push_bit 12 (drop_bit 12 ?x + drop_bit 12 ?y)" unfolding push_bit_add z [symmetric] ..
  then have "(?x + ?y) AND mask 12 = push_bit 12 (drop_bit 12 ?x + drop_bit 12 ?y) AND mask 12" by (rule arg_cong)
  also have "\<dots> = 0" by (rule bit_word_eqI) (simp add: bit_push_bit_iff bit_and_iff bit_mask_iff)
  finally show ?thesis .
qed

lemma take_page:
  assumes "12 \<le> p"
  shows "take_bit p (addr AND TARGET_PAGE_MASK) + (addr AND mask 12) = take_bit p addr"
proof -
  have "take_bit p addr AND TARGET_PAGE_MASK = take_bit p (addr AND TARGET_PAGE_MASK)" "take_bit p addr AND 0xFFF = addr AND mask 12"
    unfolding page_mask_mask by (rule bit_word_eqI; use assms in \<open>auto simp: bit_simps\<close>)+
  then show ?thesis using page_split [of "take_bit p addr"] by simp
qed

lemma ucast_offset:
  assumes "p \<le> 22"
  shows "(ucast (ucast (w AND mask p) :: u32) :: u64) = take_bit p w"
  by (rule bit_word_eqI) (use assms in \<open>auto simp: bit_simps\<close>)

lemma phys_page_debug_eq:
  "cpu_get_phys_page_debug env G addr = -1 \<and> cpu_get_phys_page_stuff env G addr = None
   \<or> (\<exists>page_size pte p. cpu_get_phys_page_stuff env G addr = Some (page_size, pte) \<and> page_size - 1 = mask p \<and> 12 \<le> p \<and> p \<le> 22
        \<and> cpu_get_phys_page_debug env G addr = (pte AND TARGET_PAGE_MASK) + take_bit p (addr AND TARGET_PAGE_MASK)
        \<and> cpu_get_phys_page_debug env G addr \<noteq> -1)"
proof (cases "cpu_get_phys_page_stuff env G addr")
  case (Some r)
  obtain page_size pte where r: "r = (page_size, pte)" by (cases r)
  then obtain p where p: "page_size - 1 = mask p" "12 \<le> p" "p \<le> 22" using stuff_size [of env G addr] Some by blast
  have e: "cpu_get_phys_page_debug env G addr = (pte AND TARGET_PAGE_MASK) + take_bit p (addr AND TARGET_PAGE_MASK)"
    using Some r p ucast_offset [OF p(3)] by (simp add: cpu_get_phys_page_debug_def)
  moreover have "(pte AND TARGET_PAGE_MASK) + take_bit p (addr AND TARGET_PAGE_MASK) \<noteq> -1"
    using page_aligned [of pte p addr] by (auto simp: mask_eq_exp_minus_1)
  ultimately show ?thesis using Some r p by auto
qed (simp add: cpu_get_phys_page_debug_def)

lemma page_idem: "addr AND TARGET_PAGE_MASK AND TARGET_PAGE_MASK = addr AND TARGET_PAGE_MASK"
  by (simp add: and.assoc)

lemma virt_to_phys_agree: "panda_virt_to_phys env G addr = cpu_get_phys_addr env G addr"
proof -
  let ?page = "addr AND TARGET_PAGE_MASK"
  consider "cpu_get_phys_page_stuff env G ?page = None" "cpu_get_phys_page_stuff env G addr = None"
    | ps pte pte' where "cpu_get_phys_page_stuff env G ?page = Some (ps, pte)" "cpu_get_phys_page_stuff env G addr = Some (ps, pte')"
      "pte AND TARGET_PAGE_MASK = pte' AND TARGET_PAGE_MASK"
  proof (cases "cr0 env AND CR0_PG_MASK = 0")
    case True
    then have s: "cpu_get_phys_page_stuff env G a = Some (4096, a AND scast (a20_mask env))" for a
      by (simp add: cpu_get_phys_page_stuff_def)
    show ?thesis by (rule that(2) [OF s s]) (simp add: ac_simps)
  next
    case False
    show ?thesis
      using that stuff_page [OF False, of G addr] by (cases "cpu_get_phys_page_stuff env G addr") auto
  qed
  then show ?thesis
  proof cases
    case 1
    then show ?thesis by (simp add: panda_virt_to_phys_def cpu_get_phys_page_debug_def cpu_get_phys_addr_def)
  next
    case 2
    from phys_page_debug_eq [of env G ?page] 2(1) obtain p where p: "ps - 1 = mask p" "12 \<le> p" "p \<le> 22"
      "cpu_get_phys_page_debug env G ?page = (pte AND TARGET_PAGE_MASK) + take_bit p (?page AND TARGET_PAGE_MASK)"
      "cpu_get_phys_page_debug env G ?page \<noteq> -1" by auto
    have "panda_virt_to_phys env G addr = (pte AND TARGET_PAGE_MASK) + (take_bit p ?page + (addr AND mask 12))"
      using p(4,5) by (simp add: panda_virt_to_phys_def Let_def page_idem page_mask_mask(2) add.assoc)
    also have "\<dots> = cpu_get_phys_addr env G addr"
      unfolding take_page [OF p(2)] using 2 p(1) ucast_offset [OF p(3)] by (simp add: cpu_get_phys_addr_def)
    finally show ?thesis .
  qed
qed

section \<open>Reading is reading byte by byte\<close>

text \<open>A byte at a physical and at a virtual address, \<open>None\<close> where it cannot be read without a device or is not mapped.\<close>

definition phys_byte :: "guest_mem \<Rightarrow> u64 \<Rightarrow> u8 option" where
  "phys_byte G p = (if is_io_read (page_desc G p) then None else Some (ram G (ram_addr (page_desc G p) p)))"

definition virt_byte :: "cpu_x86 \<Rightarrow> guest_mem \<Rightarrow> u64 \<Rightarrow> u8 option" where
  "virt_byte env G a =
     (let p = cpu_get_phys_page_debug env G (a AND TARGET_PAGE_MASK)
      in if p = -1 then None else phys_byte G (p + (a AND NOT TARGET_PAGE_MASK)))"

definition bytes_read :: "(nat \<Rightarrow> u8 option) \<Rightarrow> nat \<Rightarrow> u8 list" where
  "bytes_read f n = map the (takeWhile (\<lambda>b. b \<noteq> None) (map f [0..<n]))"

lemma bytes_read_simps:
  assumes "l \<le> n" and "\<And>i. i < l \<Longrightarrow> f i = Some (g i)"
  shows "bytes_read f n = map g [0..<l] @ bytes_read (\<lambda>i. f (l + i)) (n - l)"
proof -
  have s: "[0..<n] = [0..<l] @ map (\<lambda>i. i + l) [0..<n - l]"
    using assms(1) upt_add_eq_append [of 0 l "n - l"] map_add_upt [of l "n - l"] by simp
  have t: "takeWhile (\<lambda>b. b \<noteq> None) (map f [0..<l] @ zs) = map (Some \<circ> g) [0..<l] @ takeWhile (\<lambda>b. b \<noteq> None) zs" for zs
    using assms(2) by (subst takeWhile_append2) auto
  show ?thesis unfolding bytes_read_def s map_append t by (simp add: comp_def add.commute)
qed

lemma bytes_read_length: "length (bytes_read f n) \<le> n"
  using length_takeWhile_le [of "\<lambda>b. b \<noteq> None" "map f [0..<n]"] by (simp add: bytes_read_def)

lemma bytes_read_None: "0 < n \<Longrightarrow> f 0 = None \<Longrightarrow> bytes_read f n = []"
  by (simp add: bytes_read_def upt_conv_Cons)

lemma page_step:
  assumes "unat (addr AND 0xFFF :: u64) + i < 4096"
  shows "(addr + of_nat i) AND TARGET_PAGE_MASK = addr AND TARGET_PAGE_MASK"
    and "(addr + of_nat i) AND NOT TARGET_PAGE_MASK = (addr AND NOT TARGET_PAGE_MASK) + of_nat i"
    and "drop_bit 12 (addr + of_nat i) = drop_bit 12 addr"
proof -
  let ?x = "(addr AND 0xFFF) + of_nat i" and ?h = "addr AND TARGET_PAGE_MASK"
  have "unat ?x = unat (addr AND 0xFFF) + i" using assms by (simp add: unat_word_ariths unat_of_nat)
  then have "unat ?x < 2 ^ 12" using assms by simp
  then have "unat (take_bit 12 ?x) = unat ?x" unfolding unsigned_take_bit_eq by (rule take_bit_nat_eq_self)
  then have x: "take_bit 12 ?x = ?x" by (simp only: word_unat_eq_iff)
  have xb: "\<not> bit ?x n" if "12 \<le> n" for n using that bit_take_bit_iff [of 12 ?x n] unfolding x by simp
  have "?h + ?x = (?h + (addr AND 0xFFF)) + of_nat i" by (simp only: add.assoc)
  then have s: "addr + of_nat i = ?h + ?x" unfolding page_split by (rule sym)
  have "?h + ?x = ?h OR ?x"
    by (rule disjunctive_add) (use xb in \<open>auto simp: page_mask_mask bit_and_iff bit_not_iff bit_mask_iff not_less\<close>)
  with s have e: "addr + of_nat i = ?h OR ?x" by (rule trans)
  show h: "(addr + of_nat i) AND TARGET_PAGE_MASK = ?h"
    unfolding e by (rule bit_word_eqI) (use xb in \<open>auto simp: page_mask_mask bit_and_iff bit_or_iff bit_not_iff bit_mask_iff not_less\<close>)
  show "(addr + of_nat i) AND NOT TARGET_PAGE_MASK = (addr AND NOT TARGET_PAGE_MASK) + of_nat i"
  proof -
    have "?h + ((addr + of_nat i) AND 0xFFF) = ?h + ?x"
      using page_split [of "addr + of_nat i"] s unfolding h by (rule trans)
    then show ?thesis unfolding page_mask_mask(2,3) by (rule add_left_imp_eq)
  qed
  show "drop_bit 12 (addr + of_nat i) = drop_bit 12 addr"
    using drop_page [of 12 "addr + of_nat i"] drop_page [of 12 addr] h by simp
qed

lemma page_chunk_step: "i < page_chunk addr n \<Longrightarrow> unat (addr AND 0xFFF) + i < 4096"
  by (auto simp: page_chunk_eq less_diff_conv)

lemma phys_byte_chunk:
  assumes "i < page_chunk addr n"
  shows "page_desc G (addr + of_nat i) = page_desc G addr"
    and "ram_addr pd (addr + of_nat i) = ram_addr pd addr + of_nat i"
    and "phys_byte G (addr + of_nat i) = (if is_io_read (page_desc G addr) then None
      else Some (ram G (ram_addr (page_desc G addr) addr + of_nat i)))"
proof -
  note s = page_step [OF page_chunk_step [OF assms]]
  show d: "page_desc G (addr + of_nat i) = page_desc G addr" by (simp add: page_desc_def s(3))
  show r: "ram_addr pd (addr + of_nat i) = ram_addr pd addr + of_nat i" for pd by (simp add: ram_addr_def s(2) add.assoc)
  show "phys_byte G (addr + of_nat i) = (if is_io_read (page_desc G addr) then None
      else Some (ram G (ram_addr (page_desc G addr) addr + of_nat i)))" by (simp add: phys_byte_def d r)
qed

text \<open>Only events are added to the memory.\<close>

definition mem_same :: "guest_mem \<Rightarrow> guest_mem \<Rightarrow> bool" where
  "mem_same G G' \<longleftrightarrow> (\<exists>ev. G' = G\<lparr>mem_events := ev\<rparr>)"

lemma mem_same_refl [simp]: "mem_same G G"
  by (auto simp: mem_same_def intro!: exI [of _ "mem_events G"])

lemma mem_same_trans: "mem_same G G' \<Longrightarrow> mem_same G' G'' \<Longrightarrow> mem_same G G''"
  by (auto simp: mem_same_def)

lemma mem_same_note [simp]: "mem_same G (note_mem_rw w a l G)"
  unfolding note_mem_rw_def by (simp split: if_split) (auto simp: mem_same_def)

lemma mem_same_eqs:
  assumes "mem_same G G'"
  shows "phys_byte G' = phys_byte G" and "virt_byte env G' = virt_byte env G" and "page_desc G' = page_desc G"
    and "cpu_get_phys_page_debug env G' = cpu_get_phys_page_debug env G" and "ram G' = ram G"
proof -
  obtain ev where G': "G' = G\<lparr>mem_events := ev\<rparr>" using assms by (auto simp: mem_same_def)
  have d: "page_desc G' = page_desc G" by (simp add: G' page_desc_def fun_eq_iff)
  have l: "ldq_phys G' = ldq_phys G" "ldl_phys G' = ldl_phys G"
    unfolding ldq_phys_def ldl_phys_def d ram_bytes_def Let_def by (simp_all add: G' fun_eq_iff)
  have c: "cpu_get_phys_page_debug env G' = cpu_get_phys_page_debug env G" for env
    by (rule ext) (simp only: cpu_get_phys_page_debug_def cpu_get_phys_page_stuff_def l)
  have r: "ram G' = ram G" by (simp add: G')
  have p: "phys_byte G' = phys_byte G" unfolding phys_byte_def [abs_def] d r ..
  show "phys_byte G' = phys_byte G" "page_desc G' = page_desc G" "cpu_get_phys_page_debug env G' = cpu_get_phys_page_debug env G"
    "ram G' = ram G" by (rule p d c r)+
  show "virt_byte env G' = virt_byte env G" unfolding virt_byte_def [abs_def] p c ..
qed

lemma phys_read:
  "panda_physical_memory_read addr len G = (r, bs, G') \<Longrightarrow>
     bs = bytes_read (\<lambda>i. phys_byte G (addr + of_nat i)) len \<and> mem_same G G' \<and> r = (if length bs = len then 0 else -1)"
proof (induction addr len G arbitrary: r bs G' rule: panda_physical_memory_read.induct)
  case (1 addr len G)
  let ?l = "page_chunk addr len" and ?pd = "page_desc G addr"
  let ?G = "note_mem_rw False (ram_addr ?pd addr) ?l G"
  show ?case
  proof (cases "len = 0 \<or> is_io_read ?pd")
    case True
    then show ?thesis
      using 1(2) phys_byte_chunk(3) [of 0 addr len G] page_chunk_pos(1) [of len addr] bytes_read_None [of len "\<lambda>i. phys_byte G (addr + of_nat i)"]
      by (subst (asm) panda_physical_memory_read.simps) (auto simp: Let_def bytes_read_def split: if_splits)
  next
    case False
    obtain r' bs' G2 where rec: "panda_physical_memory_read (addr + of_nat ?l) (len - ?l) ?G = (r', bs', G2)"
      by (cases "panda_physical_memory_read (addr + of_nat ?l) (len - ?l) ?G") auto
    have res: "r = r'" "bs = ram_bytes G (ram_addr ?pd addr) ?l @ bs'" "G' = G2"
      using 1(2) False rec by (subst (asm) panda_physical_memory_read.simps; simp add: Let_def)+
    have ih: "bs' = bytes_read (\<lambda>i. phys_byte ?G (addr + of_nat ?l + of_nat i)) (len - ?l)" "mem_same ?G G2"
      "r' = (if length bs' = len - ?l then 0 else -1)"
      using 1(1) [OF _ refl refl _ refl rec] False by auto
    have "bytes_read (\<lambda>i. phys_byte G (addr + of_nat i)) len
        = map (\<lambda>i. ram G (ram_addr ?pd addr + of_nat i)) [0..<?l] @ bytes_read (\<lambda>i. phys_byte G (addr + of_nat (?l + i))) (len - ?l)"
      by (rule bytes_read_simps) (use page_chunk_pos(2) phys_byte_chunk(3) False in auto)
    then have "bs = bytes_read (\<lambda>i. phys_byte G (addr + of_nat i)) len"
      using res(2) ih(1) by (simp add: ram_bytes_def mem_same_eqs(1) [OF mem_same_note] add.assoc)
    moreover have "mem_same G G'" using ih(2) res(3) mem_same_trans [OF mem_same_note] by blast
    moreover have "length bs = len \<longleftrightarrow> length bs' = len - ?l"
      using res(2) page_chunk_pos(2) [of addr len] by (auto simp: ram_bytes_def)
    ultimately show ?thesis using ih(3) res(1) by simp
  qed
qed

lemma phys_read_chunk:
  assumes "panda_physical_memory_read addr (page_chunk addr n) G = (r, bs, G')" and "0 < n"
  shows "if is_io_read (page_desc G addr) then r = -1 \<and> bs = []
    else r = 0 \<and> bs = map (\<lambda>i. ram G (ram_addr (page_desc G addr) addr + of_nat i)) [0..<page_chunk addr n]"
proof -
  let ?l = "page_chunk addr n"
  have l: "0 < ?l" using page_chunk_pos(1) [OF assms(2)] by simp
  have r: "bs = bytes_read (\<lambda>i. phys_byte G (addr + of_nat i)) ?l" "r = (if length bs = ?l then 0 else -1)"
    using phys_read [OF assms(1)] by blast+
  show ?thesis
  proof (cases "is_io_read (page_desc G addr)")
    case True
    then have "phys_byte G (addr + of_nat 0) = None" by (simp add: phys_byte_def)
    then show ?thesis using True r l bytes_read_None [OF l, of "\<lambda>i. phys_byte G (addr + of_nat i)"] by simp
  next
    case False
    have "bs = map (\<lambda>i. ram G (ram_addr (page_desc G addr) addr + of_nat i)) [0..<?l]
        @ bytes_read (\<lambda>i. phys_byte G (addr + of_nat (?l + i))) (?l - ?l)"
      unfolding r(1) by (rule bytes_read_simps) (use phys_byte_chunk(3) False in auto)
    then show ?thesis using False r(2) by (simp add: bytes_read_def)
  qed
qed

lemma phys_offset:
  fixes env G addr
  defines "p \<equiv> cpu_get_phys_page_debug env G (addr AND TARGET_PAGE_MASK)"
  assumes "p \<noteq> -1"
  shows "page_chunk (p + (addr AND NOT TARGET_PAGE_MASK)) n = page_chunk addr n"
proof -
  have z: "p AND 0xFFF = 0"
    using phys_page_debug_eq [of env G "addr AND TARGET_PAGE_MASK"] assms(2) page_aligned
    unfolding page_mask_mask(3) p_def by metis
  have "unat (p AND 0xFFF) + unat (addr AND 0xFFF) < 4096" using page_offset_less [of addr] z by simp
  from page_step(2) [OF this] have "(p + (addr AND 0xFFF)) AND 0xFFF = addr AND 0xFFF"
    using z unfolding page_mask_mask(2,3) by simp
  then show ?thesis unfolding page_chunk_eq page_mask_mask(2,3) by (rule arg_cong)
qed

lemma virt_byte_chunk:
  assumes "i < page_chunk addr n" and "cpu_get_phys_page_debug env G (addr AND TARGET_PAGE_MASK) \<noteq> -1"
  shows "virt_byte env G (addr + of_nat i)
    = phys_byte G (cpu_get_phys_page_debug env G (addr AND TARGET_PAGE_MASK) + (addr AND NOT TARGET_PAGE_MASK) + of_nat i)"
  using assms(2) page_step [OF page_chunk_step [OF assms(1)]] by (simp add: virt_byte_def Let_def add.assoc)

lemma virt_read:
  "panda_virtual_memory_read env addr len G = (r, bs, G') \<Longrightarrow>
     bs = bytes_read (\<lambda>i. virt_byte env G (addr + of_nat i)) len \<and> mem_same G G' \<and> r = (if length bs = len then 0 else -1)"
proof (induction env addr len G arbitrary: r bs G' rule: panda_virtual_memory_read.induct)
  case (1 env addr len G)
  let ?l = "page_chunk addr len" and ?p = "cpu_get_phys_page_debug env G (addr AND TARGET_PAGE_MASK)"
  let ?a = "?p + (addr AND NOT TARGET_PAGE_MASK)" and ?f = "\<lambda>i. virt_byte env G (addr + of_nat i)"
  show ?case
  proof (cases "len = 0 \<or> ?p = -1")
    case True
    then show ?thesis
      using 1(2) bytes_read_None [of len ?f]
      by (subst (asm) panda_virtual_memory_read.simps) (auto simp: Let_def bytes_read_def virt_byte_def split: if_splits)
  next
    case False
    then have len: "0 < len" and p: "?p \<noteq> -1" by auto
    obtain r1 bs1 G1 where rd: "panda_physical_memory_read ?a ?l G = (r1, bs1, G1)"
      by (cases "panda_physical_memory_read ?a ?l G") auto
    then have "panda_physical_memory_read ?a (page_chunk ?a len) G = (r1, bs1, G1)" by (simp only: phys_offset [OF p])
    from phys_read_chunk [OF this len] have r1: "if is_io_read (page_desc G ?a) then r1 = -1 \<and> bs1 = []
      else r1 = 0 \<and> bs1 = map (\<lambda>i. ram G (ram_addr (page_desc G ?a) ?a + of_nat i)) [0..<?l]" by (simp only: phys_offset [OF p])
    have m: "mem_same G G1" using phys_read [OF rd] by blast
    have f: "?f i = (if is_io_read (page_desc G ?a) then None else Some (ram G (ram_addr (page_desc G ?a) ?a + of_nat i)))"
      if "i < ?l" for i
      using virt_byte_chunk [OF that p] phys_byte_chunk(3) [of i ?a len G] that by (simp only: phys_offset [OF p])
    show ?thesis
    proof (cases "is_io_read (page_desc G ?a)")
      case True
      have "r = -1" "bs = []" "G' = G1"
        using 1(2) False rd r1 True by (subst (asm) panda_virtual_memory_read.simps; simp add: Let_def)+
      moreover have "bytes_read ?f len = []"
        using f [of 0] True page_chunk_pos(1) [OF len] len by (intro bytes_read_None) simp_all
      ultimately show ?thesis using m len by simp
    next
      case io: False
      obtain r' bs' G2 where rec: "panda_virtual_memory_read env (addr + of_nat ?l) (len - ?l) G1 = (r', bs', G2)"
        by (cases "panda_virtual_memory_read env (addr + of_nat ?l) (len - ?l) G1") auto
      have res: "r = r'" "bs = bs1 @ bs'" "G' = G2"
        using 1(2) False rd r1 io rec by (subst (asm) panda_virtual_memory_read.simps; simp add: Let_def)+
      have ih: "bs' = bytes_read (\<lambda>i. virt_byte env G1 (addr + of_nat ?l + of_nat i)) (len - ?l)" "mem_same G1 G2"
        "r' = (if length bs' = len - ?l then 0 else -1)"
        using 1(1) [OF _ refl refl _ refl refl rd [symmetric] refl _ rec] False r1 io by auto
      have "bytes_read ?f len = bs1 @ bytes_read (\<lambda>i. ?f (?l + i)) (len - ?l)"
        using bytes_read_simps [OF page_chunk_pos(2), of addr len ?f] f io r1 by simp
      then have "bs = bytes_read ?f len" using res(2) ih(1) by (simp add: mem_same_eqs(2) [OF m] add.assoc)
      moreover have "length bs = len \<longleftrightarrow> length bs' = len - ?l" using res(2) r1 io page_chunk_pos(2) [of addr len] by auto
      ultimately show ?thesis using ih(2,3) res(1,3) mem_same_trans [OF m] by simp
    qed
  qed
qed

section \<open>Writing\<close>

text \<open>Where in RAM the byte at a physical address is.\<close>

definition ram_loc :: "guest_mem \<Rightarrow> u64 \<Rightarrow> u64" where
  "ram_loc G p = ram_addr (page_desc G p) p"

lemma page_desc_cong: "phys_page_find G' = phys_page_find G \<Longrightarrow> page_desc G' = page_desc G"
  by (simp add: page_desc_def fun_eq_iff)

lemma ram_store_bytes:
  assumes "length bs < 2 ^ 64"
  shows "i < length bs \<Longrightarrow> ram (ram_store a bs G) (a + of_nat i) = bs ! i"
    and "x \<notin> (\<lambda>i. a + of_nat i) ` {..<length bs} \<Longrightarrow> ram (ram_store a bs G) x = ram G x"
    and "phys_page_find (ram_store a bs G) = phys_page_find G"
proof -
  show "ram (ram_store a bs G) (a + of_nat i) = bs ! i" if "i < length bs"
    using that assms by (simp add: ram_store_def ram_upd_def unat_of_nat take_bit_nat_eq_self)
  show "ram (ram_store a bs G) x = ram G x" if x: "x \<notin> (\<lambda>i. a + of_nat i) ` {..<length bs}"
  proof -
    have "x = a + of_nat (unat (x - a))" by simp
    then have "\<not> unat (x - a) < length bs" using x by blast
    then show ?thesis by (simp add: ram_store_def ram_upd_def)
  qed
qed (simp add: ram_store_def)

lemma note_mem_rw_simps [simp]: "ram (note_mem_rw w a l G) = ram G" "phys_page_find (note_mem_rw w a l G) = phys_page_find G"
  by (simp_all add: note_mem_rw_def)

lemma phys_write:
  assumes "panda_physical_memory_write addr buf G = (0, G')"
    and "distinct (map (\<lambda>i. ram_loc G (addr + of_nat i)) [0..<length buf])"
  shows "(\<forall>i < length buf. \<not> is_io_read (page_desc G (addr + of_nat i)) \<and> ram G' (ram_loc G (addr + of_nat i)) = buf ! i)
    \<and> (\<forall>x. x \<notin> (\<lambda>i. ram_loc G (addr + of_nat i)) ` {..<length buf} \<longrightarrow> ram G' x = ram G x)
    \<and> phys_page_find G' = phys_page_find G"
  using assms
proof (induction addr buf G rule: panda_physical_memory_write.induct)
  case (1 addr buf G)
  let ?l = "page_chunk addr (length buf)" and ?pd = "page_desc G addr" and ?loc = "\<lambda>i. ram_loc G (addr + of_nat i)"
  let ?a = "ram_addr ?pd addr"
  let ?G = "note_mem_write addr ?a ?l buf (ram_store ?a (take ?l buf) (note_mem_rw True ?a ?l G))"
  show ?case
  proof (cases "buf = []")
    case True
    with 1(2) show ?thesis by (simp add: panda_physical_memory_write.simps)
  next
    case False
    have ram: "?pd AND NOT TARGET_PAGE_MASK = IO_MEM_RAM"
      and rec: "panda_physical_memory_write (addr + of_nat ?l) (drop ?l buf) ?G = (0, G')"
      using 1(2) False by (subst (asm) panda_physical_memory_write.simps; simp add: Let_def split: if_splits)+
    have l: "?l \<le> length buf" "?l \<le> 4096" "length (take ?l buf) = ?l" using page_chunk_pos(2) [of addr] by (simp_all add: page_chunk_eq)
    have loc: "?loc i = ?a + of_nat i" "page_desc G (addr + of_nat i) = ?pd" if "i < ?l" for i
      using phys_byte_chunk(1,2) [OF that] by (simp_all add: ram_loc_def)
    have f: "phys_page_find ?G = phys_page_find G" "ram ?G = ram (ram_store ?a (take ?l buf) G)"
      by (simp_all add: note_mem_write_def ram_store_def)
    have loc': "ram_loc ?G = ram_loc G" by (simp add: ram_loc_def fun_eq_iff page_desc_cong [OF f(1)])
    have s: "[0..<length buf] = [0..<?l] @ map (\<lambda>i. i + ?l) [0..<length buf - ?l]"
      using l(1) upt_add_eq_append [of 0 ?l "length buf - ?l"] map_add_upt [of ?l "length buf - ?l"] by simp
    have d: "distinct (map (\<lambda>i. ram_loc ?G (addr + of_nat ?l + of_nat i)) [0..<length (drop ?l buf)])"
      "?loc ` {..<?l} \<inter> (\<lambda>i. ?loc (i + ?l)) ` {..<length buf - ?l} = {}"
      using 1(3) unfolding s loc' by (auto simp: comp_def ac_simps lessThan_atLeast0)
    have ih: "\<forall>i < length buf - ?l. \<not> is_io_read (page_desc G (addr + of_nat (i + ?l))) \<and> ram G' (?loc (i + ?l)) = buf ! (i + ?l)"
      "x \<notin> (\<lambda>i. ?loc (i + ?l)) ` {..<length buf - ?l} \<Longrightarrow> ram G' x = ram ?G x" "phys_page_find G' = phys_page_find G" for x
      using 1(1) [OF False refl refl _ refl refl rec d(1)] ram l(1)
      unfolding loc' page_desc_cong [OF f(1)] f(1) by (simp_all add: ac_simps)
    have small: "length (take ?l buf) < 2 ^ 64" using l by simp
    have "\<not> is_io_read (page_desc G (addr + of_nat i)) \<and> ram G' (?loc i) = buf ! i" if i: "i < length buf" for i
    proof (cases "i < ?l")
      case True
      have "?loc i \<notin> (\<lambda>i. ?loc (i + ?l)) ` {..<length buf - ?l}" using d(2) True by blast
      from ih(2) [OF this] have "ram G' (?loc i) = take ?l buf ! i"
        using ram_store_bytes(1) [OF small, of i ?a G] True l loc(1) [OF True] f(2) by simp
      then show ?thesis using True loc(2) [OF True] ram by (simp add: is_io_read_def IO_MEM_RAM_def)
    next
      case False
      then show ?thesis using ih(1) [rule_format, of "i - ?l"] i by simp
    qed
    moreover have "ram G' x = ram G x" if x: "x \<notin> ?loc ` {..<length buf}" for x
    proof -
      have "x \<notin> (\<lambda>i. ?loc (i + ?l)) ` {..<length buf - ?l}" using x by (fastforce simp: image_iff)
      moreover have "x \<noteq> ?a + of_nat i" if "i < ?l" for i using x loc(1) [OF that] that l(1) by (metis imageI lessThan_iff order_less_le_trans)
      then have "x \<notin> (\<lambda>i. ?a + of_nat i) ` {..<length (take ?l buf)}" using l(3) by auto
      ultimately show ?thesis using ih(2) ram_store_bytes(2) [OF small, of x ?a G] f(2) by simp
    qed
    ultimately show ?thesis using ih(3) by blast
  qed
qed

section \<open>Properties\<close>

text \<open>
  C34: The two ways to translate a virtual address agree. Walking the page tables for the page of an address and adding
  the offset, as plugins do, gives the address that the memory callbacks of the emulator compute with the full address,
  in every paging mode and for every page size, and both fail together.
\<close>

theorem virt_to_phys_is_walk: "panda_virt_to_phys env G addr = cpu_get_phys_addr env G addr"
  by (rule virt_to_phys_agree)

text \<open>
  C35: Reading virtual memory page by page is reading byte by byte: the buffer gets the bytes up to the first one that
  is not mapped or would need a device, the result is 0 exactly if there is none, and memory does not change.
\<close>

theorem virtual_read_bytewise:
  "case panda_virtual_memory_read env addr len G of (ret, buf, G') \<Rightarrow>
     buf = map the (takeWhile (\<lambda>b. b \<noteq> None) (map (\<lambda>i. virt_byte env G (addr + of_nat i)) [0..<len]))
     \<and> ret = (if length buf = len then 0 else -1) \<and> ram G' = ram G \<and> virt_byte env G' = virt_byte env G"
proof -
  obtain r bs G' where e: "panda_virtual_memory_read env addr len G = (r, bs, G')"
    by (cases "panda_virtual_memory_read env addr len G") auto
  then have m: "mem_same G G'" using virt_read by blast
  show ?thesis unfolding e using virt_read [OF e] by (simp add: bytes_read_def mem_same_eqs(2,5) [OF m])
qed

text \<open>
  C36: What is written to physical memory is read back. If the bytes of a range lie at different places of RAM and a safe
  write of them succeeds, a safe read of the range succeeds and gives them, and no other byte of RAM has changed.
\<close>

theorem physical_write_read:
  assumes "panda_physical_memory_write addr buf G = (0, G')"
    and "distinct (map (\<lambda>i. ram_loc G (addr + of_nat i)) [0..<length buf])"
  shows "(\<exists>G''. panda_physical_memory_read addr (length buf) G' = (0, buf, G''))
    \<and> (\<forall>x. x \<notin> (\<lambda>i. ram_loc G (addr + of_nat i)) ` {..<length buf} \<longrightarrow> ram G' x = ram G x)"
proof -
  note w = phys_write [OF assms]
  have d: "page_desc G' = page_desc G" by (rule page_desc_cong) (use w in blast)
  have "phys_byte G' (addr + of_nat i) = Some (buf ! i)" if "i < length buf" for i
    using w that by (simp add: phys_byte_def d ram_loc_def)
  then have b: "bytes_read (\<lambda>i. phys_byte G' (addr + of_nat i)) (length buf) = buf"
    using bytes_read_simps [of "length buf" "length buf" "\<lambda>i. phys_byte G' (addr + of_nat i)" "(!) buf"]
    by (simp add: map_nth) (simp add: bytes_read_def)
  obtain r bs G'' where "panda_physical_memory_read addr (length buf) G' = (r, bs, G'')"
    by (cases "panda_physical_memory_read addr (length buf) G'") auto
  moreover from phys_read [OF this] b have "bs = buf" "r = 0" by simp_all
  ultimately show ?thesis using w by blast
qed

definition a_guest :: guest_mem where
  "a_guest = \<lparr>phys_page_find = (\<lambda>p. if p < 4 then Some (push_bit 12 (3 - p)) else None), ram = (\<lambda>_. 0), io_ldl = (\<lambda>_. 0),
     io_ldq = (\<lambda>_. 0), ram_is_dirty = (\<lambda>_. True), mem_replay = False, mem_record = False, mem_events = []\<rparr>"

theorem physical_write_read_witness:
  "\<exists>G' G''. panda_physical_memory_write 0xFFE [1, 2, 3] a_guest = (0, G') \<and> panda_physical_memory_read 0xFFE 3 G' = (0, [1, 2, 3], G'')"
proof -
  have "\<exists>G'. panda_physical_memory_write 0xFFE [1, 2, 3] a_guest = (0, G')"
    by (simp add: panda_physical_memory_write.simps [of _ "_ # _"] panda_physical_memory_write.simps [of _ "[]"] page_chunk_def
      TARGET_PAGE_MASK_def page_desc_def a_guest_def Let_def IO_MEM_RAM_def ram_store_def note_mem_rw_def note_mem_write_def)
  then obtain G' where w: "panda_physical_memory_write 0xFFE [1, 2, 3] a_guest = (0, G')" ..
  have "distinct (map (\<lambda>i. ram_loc a_guest (0xFFE + of_nat i)) [0..<length [1 :: u8, 2, 3]])"
    by (simp add: ram_loc_def ram_addr_def page_desc_def a_guest_def TARGET_PAGE_MASK_def upt_rec)
  from physical_write_read [OF w this] w show ?thesis by (auto simp: numeral_3_eq_3)
qed

end
