(* ===== verification/Taint_Plugin.thy ===== *)
theory Taint_Plugin
  imports Taint_Processor Guest_Memory
begin

text \<open>
  The interface of the taint plugin (\<^verbatim>\<open>panda_plugins/taint2/taint2.cpp\<close>): labelling ranges of guest memory, queries
  and their entries in the plugin log, the queries a guest program makes by hypercall, the notice of a change of
  taint. The guest is x86-64; the plugin log is the list of the entries written.
\<close>

section \<open>State\<close>

text \<open>
  The query of one address in the log (\<^verbatim>\<open>Panda__TaintQuery\<close>), with the contents of a label set when it is
  written for the first time; the entries that the plugin writes.
\<close>

record TaintQuery =
  tq_unique_label_set :: "(nat \<times> u32 list) option"
  tq_ptr :: nat
  tq_tcn :: u32
  tq_offset :: u32

record PandaHypercallStruct =
  phs_magic :: u32
  phs_action :: u32
  phs_buf :: u32
  phs_len :: u32
  phs_label_num :: u32
  phs_src_column :: u32
  phs_src_filename :: u32
  phs_src_linenum :: u32
  phs_src_ast_node_name :: u32
  phs_info :: u32

record SrcInfo =
  si_filename :: u32
  si_astnodename :: u32
  si_linenum :: u32

datatype LogEntry =
    Taint_label u64 u64 u32
  | Taint_query_hypercall u32 u32 u32 "u8 list" SrcInfo "u64 list" "TaintQuery list"
  | Attack_point u32 SrcInfo "u64 list"

record taint2 = Shad +
  taintEnabled :: bool
  taintJustDisabled :: bool
  taint_memlog :: taint2_memlog
  taint_pos_count :: u32
  ls_returned :: "nat set"
  pandalog :: bool
  log_entries :: "LogEntry list"

definition pandalog_write_entry :: "LogEntry \<Rightarrow> 'a taint2_scheme \<Rightarrow> 'a taint2_scheme" where
  "pandalog_write_entry ple s = s\<lparr>log_entries := log_entries s @ [ple]\<rparr>"

section \<open>Callbacks\<close>

definition phys_mem_write_callback :: "u64 \<Rightarrow> 'a taint2_scheme \<Rightarrow> rr_exit + 'a taint2_scheme" where
  "phys_mem_write_callback addr s = bindR (taint_memlog_push addr (taint_memlog s)) (\<lambda>m. Inr (s\<lparr>taint_memlog := m\<rparr>))"

definition phys_mem_read_callback :: "u64 \<Rightarrow> 'a taint2_scheme \<Rightarrow> rr_exit + 'a taint2_scheme" where
  "phys_mem_read_callback addr s = bindR (taint_memlog_push addr (taint_memlog s)) (\<lambda>m. Inr (s\<lparr>taint_memlog := m\<rparr>))"

definition before_block_exec_invalidate_opt :: "bool \<Rightarrow> 'a taint2_scheme \<Rightarrow> bool" where
  "before_block_exec_invalidate_opt has_llvm_tc s = (if taintEnabled s then \<not> has_llvm_tc else False)"

text \<open>What \<^verbatim>\<open>taint_state_changed\<close> passes on to the plugins that want to know; \<^verbatim>\<open>sizeof(target_ulong)\<close> is the word size.\<close>

definition taint_state_changed :: "target \<Rightarrow> shad_id \<Rightarrow> u64 \<Rightarrow> u64 \<Rightarrow> Addr \<times> u64" where
  "taint_state_changed T fast_shad shad_addr sz =
     ((case fast_shad of
         Llv_shad \<Rightarrow> make_laddr (shad_addr div MAXREGSIZE) (shad_addr mod MAXREGSIZE)
       | Ram_shad \<Rightarrow> make_maddr shad_addr
       | Grv_shad \<Rightarrow> make_greg (shad_addr div WORDSIZE T) (ucast (shad_addr mod WORDSIZE T))
       | Gsv_shad \<Rightarrow> \<lparr>addr_typ = GSPEC, addr_val = shad_addr, addr_off = 0, addr_flag = 0\<rparr>
       | Ret_shad \<Rightarrow> \<lparr>addr_typ = RET, addr_val = 0, addr_off = ucast shad_addr, addr_flag = 0\<rparr>), sz)"

section \<open>Labelling\<close>

definition label_byte :: "cpu_x86 \<Rightarrow> guest_mem \<Rightarrow> u64 \<Rightarrow> u32 \<Rightarrow> 'a taint2_scheme \<Rightarrow> rr_exit + 'a taint2_scheme" where
  "label_byte env G virt_addr label_num s =
     (let pa = panda_virt_to_phys env G virt_addr;
          s = (if pandalog s then pandalog_write_entry (Taint_label virt_addr pa label_num) s else s)
      in tp_label_ram TARGET_X86_64 pa label_num s)"

definition taint2_add_taint_ram_pos :: "cpu_x86 \<Rightarrow> guest_mem \<Rightarrow> u64 \<Rightarrow> u32 \<Rightarrow> 'a taint2_scheme \<Rightarrow> rr_exit + 'a taint2_scheme" where
  "taint2_add_taint_ram_pos env G addr len s =
     bindR (foldR (\<lambda>i s.
       let pa = cpu_get_phys_addr env G (addr + of_nat i) in
       if pa = -1 then Inr s
       else label_byte env G (addr + of_nat i) (of_nat i + taint_pos_count s) s) [0..<unat len] s) (\<lambda>s.
     Inr (s\<lparr>taint_pos_count := taint_pos_count s + len\<rparr>))"

definition taint2_add_taint_ram_single_label :: "cpu_x86 \<Rightarrow> guest_mem \<Rightarrow> u64 \<Rightarrow> u32 \<Rightarrow> u64 \<Rightarrow> 'a taint2_scheme
    \<Rightarrow> rr_exit + 'a taint2_scheme" where
  "taint2_add_taint_ram_single_label env G addr len lbl s =
     foldR (\<lambda>i s.
       let pa = cpu_get_phys_addr env G (addr + of_nat i) in
       if pa = -1 then Inr s
       else label_byte env G (addr + of_nat i) (ucast lbl) s) [0..<unat len] s"

section \<open>Queries\<close>

definition taint2_query :: "Addr \<Rightarrow> 'a taint2_scheme \<Rightarrow> rr_exit + u32" where
  "taint2_query a s = bindR (tp_query TARGET_X86_64 a s) (\<lambda>ls. ls_card ls (ts_labels s))"

definition taint2_query_ram :: "u64 \<Rightarrow> 'a taint2_scheme \<Rightarrow> rr_exit + u32" where
  "taint2_query_ram pa s = bindR (tp_query_ram TARGET_X86_64 pa s) (\<lambda>ls. ls_card ls (ts_labels s))"

definition taint2_query_reg :: "u32 \<Rightarrow> u32 \<Rightarrow> 'a taint2_scheme \<Rightarrow> rr_exit + u32" where
  "taint2_query_reg reg_num offset s = bindR (tp_query_reg TARGET_X86_64 reg_num offset s) (\<lambda>ls. ls_card ls (ts_labels s))"

definition taint2_query_llvm :: "u32 \<Rightarrow> u32 \<Rightarrow> 'a taint2_scheme \<Rightarrow> rr_exit + u32" where
  "taint2_query_llvm reg_num offset s = bindR (tp_query_llvm TARGET_X86_64 reg_num offset s) (\<lambda>ls. ls_card ls (ts_labels s))"

definition MAX_EL_ARR_IND :: nat where "MAX_EL_ARR_IND = 1000000"

text \<open>
  The callback of the iteration, which fills the array; \<open>Inl\<close> is a failed assertion, after which nothing happens.
  The array of \<open>n\<close> elements is allocated before.
\<close>

definition collect_query_labels_pandalog :: "nat \<Rightarrow> u32 \<Rightarrow> rr_exit + u32 list \<Rightarrow> int \<times> (rr_exit + u32 list)" where
  "collect_query_labels_pandalog n el stuff =
     (case stuff of
        Inl e \<Rightarrow> (1, Inl e)
      | Inr els \<Rightarrow>
          if \<not> length els < MAX_EL_ARR_IND then (1, Inl (Assert_fail ''el_arr_ind < MAX_EL_ARR_IND''))
          else if \<not> length els < n then (1, Inl Out_of_bounds)
          else (0, Inr (els @ [el])))"

definition taint2_query_pandalog :: "Addr \<Rightarrow> u32 \<Rightarrow> 'a taint2_scheme \<Rightarrow> rr_exit + (TaintQuery option \<times> 'a taint2_scheme)" where
  "taint2_query_pandalog a offset s =
     bindR (tp_query TARGET_X86_64 a s) (\<lambda>ls.
     case ls of
       None \<Rightarrow> Inr (None, s)
     | Some p \<Rightarrow>
         bindR (if p \<in> ls_returned s then Inr (None, s)
                else
                  bindR (ls_card ls (ts_labels s)) (\<lambda>n_label.
                  bindR (tp_ls_iter ls (ts_labels s) (collect_query_labels_pandalog (unat n_label)) (Inr [])) (\<lambda>r.
                  bindR r (\<lambda>els.
                  Inr (Some (p, els), s\<lparr>ls_returned := insert p (ls_returned s)\<rparr>))))) (\<lambda>(tquls, s).
         bindR (tp_query_tcn TARGET_X86_64 a s) (\<lambda>tcn.
         Inr (Some \<lparr>tq_unique_label_set = tquls, tq_ptr = p, tq_tcn = tcn, tq_offset = offset\<rparr>, s))))"

section \<open>Hypercalls\<close>

definition LAVA_TAINT_QUERY_MAX_LEN :: u32 where "LAVA_TAINT_QUERY_MAX_LEN = 32"

text \<open>
  Uninitialised bytes have the values \<open>junk\<close>. The address of a byte is truncated to 32 bits; the terminator of a string is
  looked for at the physical address taken as a virtual one.
\<close>

definition read_byte :: "cpu_x86 \<Rightarrow> guest_mem \<Rightarrow> u64 \<Rightarrow> u8 \<Rightarrow> u8" where
  "read_byte env G addr junk =
     (case panda_virtual_memory_read env addr 1 G of (ret, bs, G') \<Rightarrow> (if bs = [] then junk else hd bs))"

definition phys_u32 :: "cpu_x86 \<Rightarrow> guest_mem \<Rightarrow> u32 \<Rightarrow> u32" where
  "phys_u32 env G va = ucast (panda_virt_to_phys env G (ucast va))"

fun lava_count :: "nat \<Rightarrow> cpu_x86 \<Rightarrow> guest_mem \<Rightarrow> u8 \<Rightarrow> PandaHypercallStruct \<Rightarrow> u32 \<Rightarrow> u32 \<Rightarrow> 'a taint2_scheme \<Rightarrow> rr_exit + (u32 \<times> u32)" where
  "lava_count 0 env G junk phs offset num_tainted s = Inl Endless_loop"
| "lava_count (Suc n) env G junk phs offset num_tainted s =
     (let is_strnlen = (phs_len phs = -1);
          pa = phys_u32 env G (phs_buf phs + offset)
      in if is_strnlen \<and> read_byte env G (ucast pa) junk = 0 then Inr (offset, num_tainted)
         else
           bindR (if pa \<noteq> -1 then bindR (taint2_query (make_maddr (ucast pa)) s) (\<lambda>c. Inr (if c \<noteq> 0 then num_tainted + 1 else num_tainted))
                  else Inr num_tainted) (\<lambda>num_tainted.
           let offset = offset + 1 in
           if \<not> is_strnlen \<and> offset = phs_len phs then Inr (offset, num_tainted)
           else if is_strnlen \<and> offset = LAVA_TAINT_QUERY_MAX_LEN then Inr (offset, num_tainted)
           else lava_count n env G junk phs offset num_tainted s))"

definition pandalog_src_info_create :: "PandaHypercallStruct \<Rightarrow> SrcInfo" where
  "pandalog_src_info_create phs =
     \<lparr>si_filename = phs_src_filename phs, si_astnodename = phs_src_ast_node_name phs, si_linenum = phs_src_linenum phs\<rparr>"

definition lava_queries :: "cpu_x86 \<Rightarrow> guest_mem \<Rightarrow> PandaHypercallStruct \<Rightarrow> u32 \<Rightarrow> 'a taint2_scheme
    \<Rightarrow> rr_exit + (TaintQuery list \<times> 'a taint2_scheme)" where
  "lava_queries env G phs len s =
     foldR (\<lambda>i (tq, s).
       let pa = phys_u32 env G (phs_buf phs + of_nat i) in
       if pa \<noteq> -1 then
         bindR (taint2_query (make_maddr (ucast pa)) s) (\<lambda>c.
         if c \<noteq> 0 then
           bindR (taint2_query_pandalog (make_maddr (ucast pa)) (of_nat i) s) (\<lambda>(q, s).
           case q of None \<Rightarrow> Inl Null_deref | Some q \<Rightarrow> Inr (tq @ [q], s))
         else Inr (tq, s))
       else Inr (tq, s)) [0..<unat len] ([], s)"

text \<open>The call stack comes from another plugin. The counting loop ends after at most \<open>2 ^ 32\<close> rounds.\<close>

definition lava_taint_query :: "cpu_x86 \<Rightarrow> guest_mem \<Rightarrow> u8 \<Rightarrow> u64 list \<Rightarrow> PandaHypercallStruct \<Rightarrow> 'a taint2_scheme
    \<Rightarrow> rr_exit + 'a taint2_scheme" where
  "lava_taint_query env G junk callstack phs s =
     (if pandalog s \<and> taintEnabled s \<and> tp_num_labels_applied s > 0 then
        bindR (lava_count (2 ^ 32) env G junk phs 0 0 s) (\<lambda>(len, num_tainted).
        if num_tainted \<noteq> 0 then
          let n = min len LAVA_TAINT_QUERY_MAX_LEN;
              data = map (\<lambda>i. read_byte env G (ucast (phs_buf phs + of_nat i)) junk) [0..<unat n]
          in bindR (lava_queries env G phs len s) (\<lambda>(tq, s).
             Inr (pandalog_write_entry
               (Taint_query_hypercall (phs_buf phs) len num_tainted data (pandalog_src_info_create phs) callstack tq) s))
        else Inr s)
      else Inr s)"

definition lava_attack_point :: "u64 list \<Rightarrow> PandaHypercallStruct \<Rightarrow> 'a taint2_scheme \<Rightarrow> 'a taint2_scheme" where
  "lava_attack_point callstack phs s =
     (if pandalog s then pandalog_write_entry (Attack_point (phs_info phs) (pandalog_src_info_create phs) callstack) s else s)"

definition phs_of_bytes :: "u8 list \<Rightarrow> PandaHypercallStruct" where
  "phs_of_bytes bs =
     (let f = (\<lambda>i. le_word (take 4 (drop (4 * i) bs)))
      in \<lparr>phs_magic = f 0, phs_action = f 1, phs_buf = f 2, phs_len = f 3, phs_label_num = f 4, phs_src_column = f 5,
          phs_src_filename = f 6, phs_src_linenum = f 7, phs_src_ast_node_name = f 8, phs_info = f 9\<rparr>)"

definition i386_hypercall_callback :: "cpu_x86 \<Rightarrow> guest_mem \<Rightarrow> u8 list \<Rightarrow> u64 list \<Rightarrow> u64 \<Rightarrow> 'a taint2_scheme
    \<Rightarrow> rr_exit + 'a taint2_scheme" where
  "i386_hypercall_callback env G junk callstack eax s =
     (if taintEnabled s \<and> pandalog s then
        if (ucast (panda_virt_to_phys env G eax) :: u32) = -1 then Inr s
        else
          case panda_virtual_memory_read env eax 40 G of (ret, bs, G') \<Rightarrow>
            let phs = phs_of_bytes (bs @ drop (length bs) junk)
            in if phs_magic phs = 0xabcd then
                 if phs_action phs = 11 then lava_taint_query env G (hd junk) callstack phs s
                 else if phs_action phs = 12 then Inr (lava_attack_point callstack phs s)
                 else Inr s
               else Inr s
      else Inr s)"

definition guest_hypercall_callback :: "cpu_x86 \<Rightarrow> guest_mem \<Rightarrow> u8 list \<Rightarrow> u64 list \<Rightarrow> u64 \<Rightarrow> 'a taint2_scheme
    \<Rightarrow> rr_exit + (int \<times> 'a taint2_scheme)" where
  "guest_hypercall_callback env G junk callstack eax s =
     bindR (i386_hypercall_callback env G junk callstack eax s) (\<lambda>s. Inr (1, s))"

section \<open>Labels of a range\<close>

lemma taint2_upd [simp]:
  "cell_ls (s\<lparr>log_entries := es\<rparr>) = cell_ls s" "labels_at (s\<lparr>log_entries := es\<rparr>) = labels_at s" "shad_inv (s\<lparr>log_entries := es\<rparr>) = shad_inv s"
  "cell_ls (s\<lparr>ls_returned := R\<rparr>) = cell_ls s" "labels_at (s\<lparr>ls_returned := R\<rparr>) = labels_at s" "shad_inv (s\<lparr>ls_returned := R\<rparr>) = shad_inv s"
  "cell_ls (s\<lparr>taint_pos_count := c\<rparr>) = cell_ls s" "labels_at (s\<lparr>taint_pos_count := c\<rparr>) = labels_at s"
  "shad_inv (s\<lparr>taint_pos_count := c\<rparr>) = shad_inv s"
proof -
  have td: "td_mem (s\<lparr>log_entries := es\<rparr>) = td_mem s" "td_mem (s\<lparr>ls_returned := R\<rparr>) = td_mem s"
    "td_mem (s\<lparr>taint_pos_count := c\<rparr>) = td_mem s" by (simp_all add: td_mem_def [abs_def])
  show c: "cell_ls (s\<lparr>log_entries := es\<rparr>) = cell_ls s" "cell_ls (s\<lparr>ls_returned := R\<rparr>) = cell_ls s"
    "cell_ls (s\<lparr>taint_pos_count := c\<rparr>) = cell_ls s" by (simp_all add: cell_fun_eq td)
  show "labels_at (s\<lparr>log_entries := es\<rparr>) = labels_at s" "labels_at (s\<lparr>ls_returned := R\<rparr>) = labels_at s"
    "labels_at (s\<lparr>taint_pos_count := c\<rparr>) = labels_at s" by (simp_all add: labels_at_def [abs_def] c)
  show "shad_inv (s\<lparr>log_entries := es\<rparr>) = shad_inv s" "shad_inv (s\<lparr>ls_returned := R\<rparr>) = shad_inv s"
    "shad_inv (s\<lparr>taint_pos_count := c\<rparr>) = shad_inv s" by (simp_all add: shad_inv_def ts_inv_def c)
qed

lemma tp_label_more:
  assumes "tp_label T a l s = Inr s'"
  shows "Shad.more s' = Shad.more s"
  using assms by (auto simp: tp_label_def tp_labelset_put_def label_def upd_shad_def Let_def bindR_Inr_iff
      split: AddrType.splits prod.splits)

lemma taint2_more:
  assumes "Shad.more s' = Shad.more s"
  shows "taint_pos_count s' = taint_pos_count s \<and> ls_returned s' = ls_returned s \<and> pandalog s' = pandalog s
    \<and> taintEnabled s' = taintEnabled s \<and> log_entries s' = log_entries s"
  using assms by (cases s; cases s') simp

lemma label_byte_cell:
  assumes "shad_inv s" and "labels_at s (Shad_cell Ram_shad (panda_virt_to_phys env G a)) \<noteq> None"
  obtains s' where "label_byte env G a l s = Inr s'" and "shad_inv s'" and "taint_pos_count s' = taint_pos_count s"
    and "labels_at s' = (labels_at s)(Shad_cell Ram_shad (panda_virt_to_phys env G a) \<mapsto> {l})"
proof -
  let ?pa = "panda_virt_to_phys env G a"
  let ?s = "if pandalog s then pandalog_write_entry (Taint_label a ?pa l) s else s"
  have s: "shad_inv ?s" "labels_at ?s = labels_at s" "taint_pos_count ?s = taint_pos_count s"
    using assms(1) by (simp_all add: pandalog_write_entry_def)
  have c: "cell_of TARGET_X86_64 (make_maddr ?pa) = Some (Shad_cell Ram_shad ?pa)" by (simp add: cell_of_def make_maddr_def)
  have n: "cell_ls ?s (Shad_cell Ram_shad ?pa) \<noteq> None"
    using assms(2) unfolding s(2) [symmetric] labels_at_def by (metis option.map_disc_iff)
  obtain s' where s': "tp_label TARGET_X86_64 (make_maddr ?pa) l ?s = Inr s'" "shad_inv s'"
    "labels_at s' = (labels_at ?s)(Shad_cell Ram_shad ?pa \<mapsto> {l})"
    by (rule tp_label_cell [OF s(1) c n])
  have "taint_pos_count s' = taint_pos_count ?s" using taint2_more [OF tp_label_more [OF s'(1)]] by blast
  then show ?thesis using that [of s'] s' s by (simp add: label_byte_def tp_label_ram_def Let_def)
qed

lemma label_range:
  fixes env G addr and s :: "'a taint2_scheme"
  defines "pa \<equiv> \<lambda>i. panda_virt_to_phys env G (addr + of_nat i)"
  assumes "shad_inv s" and "\<And>i. i < n \<Longrightarrow> pa i \<noteq> -1 \<and> labels_at s (Shad_cell Ram_shad (pa i)) \<noteq> None" and "inj_on pa {..<n}"
    and "\<And>i s'. taint_pos_count s' = taint_pos_count s \<Longrightarrow> l i s' = m i"
  shows "\<exists>s'. foldR (\<lambda>i s. let pa = cpu_get_phys_addr env G (addr + of_nat i) in
       if pa = -1 then Inr s else label_byte env G (addr + of_nat i) (l i s) s) [0..<n] s = Inr s'
    \<and> shad_inv s' \<and> taint_pos_count s' = taint_pos_count s
    \<and> (\<forall>i < n. labels_at s' (Shad_cell Ram_shad (pa i)) = Some {m i})
    \<and> (\<forall>c. c \<notin> (\<lambda>i. Shad_cell Ram_shad (pa i)) ` {..<n} \<longrightarrow> labels_at s' c = labels_at s c)"
proof -
  let ?Q = "\<lambda>j (s' :: 'a taint2_scheme). shad_inv s' \<and> taint_pos_count s' = taint_pos_count s
    \<and> (\<forall>i < j. labels_at s' (Shad_cell Ram_shad (pa i)) = Some {m i})
    \<and> (\<forall>c. c \<notin> (\<lambda>i. Shad_cell Ram_shad (pa i)) ` {..<j} \<longrightarrow> labels_at s' c = labels_at s c)"
  have "\<exists>s'. foldR (\<lambda>i s. let pa = cpu_get_phys_addr env G (addr + of_nat i) in
       if pa = -1 then Inr s else label_byte env G (addr + of_nat i) (l i s) s) [0..<n] s = Inr s' \<and> ?Q n s'"
  proof (rule foldR_upt_inv)
    fix i and t :: "'a taint2_scheme"
    assume i: "i < n" and q: "?Q i t"
    have ne: "pa i \<noteq> pa j" if "j < i" for j using inj_onD [OF assms(4), of i j] i that by auto
    then have "Shad_cell Ram_shad (pa i) \<notin> (\<lambda>i. Shad_cell Ram_shad (pa i)) ` {..<i}" by auto
    then have n: "labels_at t (Shad_cell Ram_shad (panda_virt_to_phys env G (addr + of_nat i))) \<noteq> None"
      using q assms(3) [OF i] by (simp add: pa_def)
    obtain t' where t': "label_byte env G (addr + of_nat i) (m i) t = Inr t'" "shad_inv t'" "taint_pos_count t' = taint_pos_count t"
      "labels_at t' = (labels_at t)(Shad_cell Ram_shad (panda_virt_to_phys env G (addr + of_nat i)) \<mapsto> {m i})"
      using label_byte_cell [of t env G "addr + of_nat i" "m i"] q n by blast
    have p: "panda_virt_to_phys env G (addr + of_nat i) = pa i" by (simp add: pa_def)
    have "labels_at t' (Shad_cell Ram_shad (pa j)) = Some {m j}" if "j < Suc i" for j
      using q ne [of j] that unfolding t'(4) p by (cases "j = i") auto
    moreover have "labels_at t' c = labels_at s c" if "c \<notin> (\<lambda>i. Shad_cell Ram_shad (pa i)) ` {..<Suc i}" for c
      using q that unfolding t'(4) p by (auto simp: lessThan_Suc)
    ultimately have "?Q (Suc i) t'" using q t'(2,3) by simp
    moreover have "(let pa = cpu_get_phys_addr env G (addr + of_nat i) in
       if pa = -1 then Inr t else label_byte env G (addr + of_nat i) (l i t) t) = Inr t'"
      using t'(1) assms(3) [OF i] assms(5) q by (simp add: pa_def virt_to_phys_agree [symmetric])
    ultimately show "\<exists>s'. (let pa = cpu_get_phys_addr env G (addr + of_nat i) in
       if pa = -1 then Inr t else label_byte env G (addr + of_nat i) (l i t) t) = Inr s' \<and> ?Q (Suc i) s'" by blast
  qed (use assms(2) in simp_all)
  then show ?thesis .
qed

section \<open>Entries of queries\<close>

lemma collect_labels:
  assumes "length els + length xs \<le> MAX_EL_ARR_IND" and "length els + length xs \<le> n"
  shows "iter_until (collect_query_labels_pandalog n) xs (Inr els) = (0, Inr (els @ xs))"
  using assms by (induction xs arbitrary: els) (simp_all add: collect_query_labels_pandalog_def)

lemma labels_collected:
  assumes "card L \<le> MAX_EL_ARR_IND"
  shows "tp_lsr_iter L (collect_query_labels_pandalog (unat (of_nat (card L) :: u32))) (Inr []) = Inr (sorted_list_of_set L)"
proof -
  have "unat (of_nat (card L) :: u32) = card L" using assms by (simp add: unat_of_nat MAX_EL_ARR_IND_def take_bit_nat_eq_self)
  then show ?thesis using assms collect_labels [of "[]" "sorted_list_of_set L" "card L"] by (simp add: tp_lsr_iter_def)
qed

lemma tp_query_tcn_ok:
  assumes "tp_query T a s = Inr ls"
  obtains tcn where "tp_query_tcn T a s = Inr tcn"
  using assms by (cases "addr_typ a")
    (auto simp: tp_query_def tp_labelset_get_def tp_query_tcn_def tp_query_full_def query_def Let_def)

lemma labels_nonempty:
  assumes "ls_inv l" and "ls_valid l ls"
  shows "labels_of l ls = {} \<longleftrightarrow> ls = None"
  using assms by (cases ls) (auto simp: labels_of_def ls_valid_def ls_inv_def split: option.splits)

lemma tp_query_labels:
  assumes "shad_inv s" and "queried T a s = Inr L"
  obtains ls where "tp_query T a s = Inr ls" and "ls_valid (ts_labels s) ls" and "labels_of (ts_labels s) ls = L" and "L = {} \<longleftrightarrow> ls = None"
proof -
  obtain ls where ls: "tp_query T a s = Inr ls" "label_set_render_set ls (ts_labels s) = Inr L" using assms(2) by (auto simp: queried_def)
  have v: "ls_valid (ts_labels s) ls"
    using ls(1) assms(1) unfolding tp_query_def tp_labelset_get_cell shad_inv_def by (auto split: option.splits if_splits)
  then have "labels_of (ts_labels s) ls = L" using ls(2) by (simp add: label_set_render_ok)
  moreover have "ls_inv (ts_labels s)" using assms(1) by (simp add: shad_inv_def ts_inv_def)
  ultimately show ?thesis using that ls(1) v labels_nonempty by blast
qed

lemma query_card:
  assumes "shad_inv s" and "queried TARGET_X86_64 a s = Inr L"
  shows "taint2_query a s = Inr (of_nat (card L))"
  by (rule tp_query_labels [OF assms]) (simp add: taint2_query_def ls_card_def label_set_render_ok)

lemma query_pandalog:
  assumes "shad_inv s" and "queried TARGET_X86_64 a s = Inr L" and "card L \<le> MAX_EL_ARR_IND"
  shows "if L = {} then taint2_query_pandalog a offset s = Inr (None, s)
    else \<exists>p tcn. tp_query TARGET_X86_64 a s = Inr (Some p) \<and> taint2_query_pandalog a offset s = Inr (Some
        \<lparr>tq_unique_label_set = (if p \<in> ls_returned s then None else Some (p, sorted_list_of_set L)),
         tq_ptr = p, tq_tcn = tcn, tq_offset = offset\<rparr>, s\<lparr>ls_returned := insert p (ls_returned s)\<rparr>)"
proof (rule tp_query_labels [OF assms(1,2)])
  fix ls
  assume ls: "tp_query TARGET_X86_64 a s = Inr ls" "ls_valid (ts_labels s) ls" "labels_of (ts_labels s) ls = L" "L = {} \<longleftrightarrow> ls = None"
  obtain tcn where tcn: "tp_query_tcn TARGET_X86_64 a s = Inr tcn" by (rule tp_query_tcn_ok [OF ls(1)])
  have tcn': "tp_query_tcn TARGET_X86_64 a (s\<lparr>ls_returned := R\<rparr>) = Inr tcn" for R
  proof -
    have r: "ts_shad (s\<lparr>ls_returned := R\<rparr>) = ts_shad s" by simp
    show ?thesis using tcn unfolding tp_query_tcn_def tp_query_full_def r .
  qed
  show ?thesis
  proof (cases ls)
    case (Some p)
    have "p \<in> ls_returned s \<Longrightarrow> s\<lparr>ls_returned := insert p (ls_returned s)\<rparr> = s" by (simp add: insert_absorb)
    then show ?thesis
      using Some ls tcn tcn' labels_collected [OF assms(3)]
      by (auto simp: taint2_query_pandalog_def ls_card_def tp_ls_iter_def label_set_render_ok)
  qed (use ls in \<open>simp add: taint2_query_pandalog_def\<close>)
qed

lemma query_pandalog_tainted:
  assumes "shad_inv s" and "queried TARGET_X86_64 a s = Inr L" and "card L \<le> MAX_EL_ARR_IND" and "L \<noteq> {}"
  obtains qu R where "taint2_query_pandalog a offset s = Inr (Some qu, s\<lparr>ls_returned := R\<rparr>)" and "tq_offset qu = offset"
proof -
  from query_pandalog [OF assms(1-3), of offset] assms(4) obtain p tcn where
    "taint2_query_pandalog a offset s = Inr (Some
        \<lparr>tq_unique_label_set = (if p \<in> ls_returned s then None else Some (p, sorted_list_of_set L)),
         tq_ptr = p, tq_tcn = tcn, tq_offset = offset\<rparr>, s\<lparr>ls_returned := insert p (ls_returned s)\<rparr>)" by (auto simp only: if_False)
  then show ?thesis by (rule that) simp
qed

section \<open>Queries of a guest program\<close>

text \<open>The bytes of an extent that are tainted, and the condition that each can be looked up.\<close>

definition byte_labels :: "cpu_x86 \<Rightarrow> guest_mem \<Rightarrow> PandaHypercallStruct \<Rightarrow> 'a taint2_scheme \<Rightarrow> nat \<Rightarrow> u32 set option" where
  "byte_labels env G phs s i =
     (let pa = phys_u32 env G (phs_buf phs + of_nat i)
      in if pa = -1 then Some {} else labels_at s (Shad_cell Ram_shad (ucast pa)))"

definition tainted_bytes :: "cpu_x86 \<Rightarrow> guest_mem \<Rightarrow> PandaHypercallStruct \<Rightarrow> 'a taint2_scheme \<Rightarrow> nat list" where
  "tainted_bytes env G phs s = filter (\<lambda>i. byte_labels env G phs s i \<noteq> Some {}) [0..<unat (phs_len phs)]"

definition extent_ok :: "cpu_x86 \<Rightarrow> guest_mem \<Rightarrow> PandaHypercallStruct \<Rightarrow> 'a taint2_scheme \<Rightarrow> bool" where
  "extent_ok env G phs s \<longleftrightarrow> phs_len phs \<noteq> 0 \<and> phs_len phs \<noteq> -1
     \<and> (\<forall>i < unat (phs_len phs). \<exists>L. byte_labels env G phs s i = Some L \<and> card L \<le> MAX_EL_ARR_IND)"

lemma queried_ram:
  assumes "shad_inv s" and "labels_at s (Shad_cell Ram_shad pa) = Some L"
  shows "queried TARGET_X86_64 (make_maddr pa) s = Inr L"
  using assms by (simp add: queried_cell cell_of_def make_maddr_def)

lemma card_zero:
  fixes L :: "u32 set"
  assumes "card L \<le> MAX_EL_ARR_IND"
  shows "(of_nat (card L) :: u32) = 0 \<longleftrightarrow> L = {}"
proof -
  have "unat (of_nat (card L) :: u32) = card L" using assms by (simp add: unat_of_nat MAX_EL_ARR_IND_def take_bit_nat_eq_self)
  then have "(of_nat (card L) :: u32) = 0 \<longleftrightarrow> card L = 0" by (metis unat_0 unat_eq_0)
  then show ?thesis by simp
qed

lemma byte_query:
  assumes "shad_inv s" and "byte_labels env G phs s i = Some L" and "card L \<le> MAX_EL_ARR_IND"
    and "pa = phys_u32 env G (phs_buf phs + of_nat i)"
  shows "pa = -1 \<Longrightarrow> L = {}"
    and "pa \<noteq> -1 \<Longrightarrow> queried TARGET_X86_64 (make_maddr (ucast pa)) s = Inr L"
    and "pa \<noteq> -1 \<Longrightarrow> taint2_query (make_maddr (ucast pa)) s = Inr (of_nat (card L))"
proof -
  show "pa = -1 \<Longrightarrow> L = {}" using assms by (simp add: byte_labels_def)
  show q: "pa \<noteq> -1 \<Longrightarrow> queried TARGET_X86_64 (make_maddr (ucast pa)) s = Inr L"
    using assms queried_ram by (simp add: byte_labels_def)
  then show "pa \<noteq> -1 \<Longrightarrow> taint2_query (make_maddr (ucast pa)) s = Inr (of_nat (card L))" using query_card [OF assms(1)] by blast
qed

lemma lava_count_ok:
  assumes "shad_inv s" and "extent_ok env G phs s" and "k < unat (phs_len phs)" and "unat (phs_len phs) - k \<le> n"
  shows "lava_count n env G junk phs (of_nat k) t s
    = Inr (phs_len phs, t + of_nat (length (filter (\<lambda>i. byte_labels env G phs s i \<noteq> Some {}) [k..<unat (phs_len phs)])))"
  using assms(3,4)
proof (induction n arbitrary: k t)
  case (Suc n)
  let ?len = "phs_len phs" and ?pa = "phys_u32 env G (phs_buf phs + of_nat k)"
  let ?F = "\<lambda>k. filter (\<lambda>i. byte_labels env G phs s i \<noteq> Some {}) [k..<unat ?len]"
  obtain L where L: "byte_labels env G phs s k = Some L" "card L \<le> MAX_EL_ARR_IND"
    using assms(2) Suc.prems(1) by (auto simp: extent_ok_def)
  note q = byte_query [OF assms(1) L refl]
  let ?t = "if L = {} then t else t + 1"
  have s: "?len \<noteq> -1" using assms(2) by (simp add: extent_ok_def)
  have b: "(if ?pa \<noteq> -1 then bindR (taint2_query (make_maddr (ucast ?pa)) s) (\<lambda>c. Inr (if c \<noteq> 0 then t + 1 else t)) else Inr t) = Inr ?t"
    using q card_zero [OF L(2)] by (cases "?pa = -1") auto
  have "unat ?len < 2 ^ LENGTH(32)" by (rule unsigned_less)
  then have "Suc k < 2 ^ LENGTH(32)" using Suc.prems(1) by linarith
  then have "unat (of_nat (Suc k) :: u32) = Suc k" unfolding unat_of_nat by (rule mod_less)
  then have u: "unat (of_nat k + 1 :: u32) = Suc k" by (simp add: add.commute)
  have e: "lava_count (Suc n) env G junk phs (of_nat k) t s =
      (if of_nat k + 1 = ?len then Inr (of_nat k + 1, ?t) else lava_count n env G junk phs (of_nat k + 1) ?t s)"
    using s b by (simp add: Let_def)
  have F: "?t + of_nat (length (?F (Suc k))) = t + of_nat (length (?F k))"
    using Suc.prems(1) L(1) by (simp add: upt_conv_Cons)
  show ?case
  proof (cases "Suc k = unat ?len")
    case True
    then have "of_nat k + 1 = ?len" using u by (metis word_unat_eq_iff)
    then show ?thesis using e F True by simp
  next
    case False
    then have "of_nat k + 1 \<noteq> ?len" using u by auto
    moreover have "lava_count n env G junk phs (of_nat (Suc k)) ?t s = Inr (?len, ?t + of_nat (length (?F (Suc k))))"
      using False Suc.prems by (intro Suc.IH) simp_all
    ultimately show ?thesis unfolding e F [symmetric] by (simp add: add.commute)
  qed
qed simp

lemma byte_labels_upd [simp]: "byte_labels env G phs (s\<lparr>ls_returned := R\<rparr>) = byte_labels env G phs s"
  by (simp only: byte_labels_def [abs_def] taint2_upd)

lemma lava_queries_ok:
  fixes s :: "'a taint2_scheme"
  assumes "shad_inv s" and "extent_ok env G phs s"
  shows "\<exists>tq R. lava_queries env G phs (phs_len phs) s = Inr (tq, s\<lparr>ls_returned := R\<rparr>)
    \<and> map tq_offset tq = map of_nat (tainted_bytes env G phs s)"
proof -
  let ?Q = "\<lambda>j (tq, t :: 'a taint2_scheme). (\<exists>R. t = s\<lparr>ls_returned := R\<rparr>)
    \<and> map tq_offset tq = map of_nat (filter (\<lambda>i. byte_labels env G phs s i \<noteq> Some {}) [0..<j])"
  let ?body = "\<lambda>i (tq, s :: 'a taint2_scheme).
       let pa = phys_u32 env G (phs_buf phs + of_nat i) in
       if pa \<noteq> -1 then
         bindR (taint2_query (make_maddr (ucast pa)) s) (\<lambda>c.
         if c \<noteq> 0 then
           bindR (taint2_query_pandalog (make_maddr (ucast pa)) (of_nat i) s) (\<lambda>(q, s).
           case q of None \<Rightarrow> Inl Null_deref | Some q \<Rightarrow> Inr (tq @ [q], s))
         else Inr (tq, s))
       else Inr (tq, s)"
  have "\<exists>r. foldR ?body [0..<unat (phs_len phs)] ([], s) = Inr r \<and> ?Q (unat (phs_len phs)) r"
  proof (rule foldR_upt_inv)
    show "?Q 0 ([], s)" by (auto intro: exI [of _ "ls_returned s"])
  next
    fix i and r :: "TaintQuery list \<times> 'a taint2_scheme"
    assume i: "i < unat (phs_len phs)" and q: "?Q i r"
    obtain tq R where r: "r = (tq, s\<lparr>ls_returned := R\<rparr>)" using q by (cases r) auto
    let ?t = "s\<lparr>ls_returned := R\<rparr>" and ?pa = "phys_u32 env G (phs_buf phs + of_nat i)"
    obtain L where L: "byte_labels env G phs ?t i = Some L" "card L \<le> MAX_EL_ARR_IND"
      using assms(2) i by (auto simp: extent_ok_def)
    have inv: "shad_inv ?t" using assms(1) by simp
    note b = byte_query [OF inv L refl]
    show "\<exists>r'. ?body i r = Inr r' \<and> ?Q (Suc i) r'"
    proof (cases "L = {}")
      case True
      have "?body i r = Inr r"
      proof (cases "?pa = -1")
        case pa: False
        have "taint2_query (make_maddr (ucast ?pa)) ?t = Inr 0" using b(3) [OF pa] True by simp
        then show ?thesis using pa by (simp add: r)
      qed (simp add: r)
      moreover have "?Q (Suc i) r" using q L(1) True by (simp add: r)
      ultimately show ?thesis by blast
    next
      case False
      then have pa: "?pa \<noteq> -1" using b(1) by blast
      obtain qu R' where
        qu: "taint2_query_pandalog (make_maddr (ucast ?pa)) (of_nat i) ?t = Inr (Some qu, ?t\<lparr>ls_returned := R'\<rparr>)" "tq_offset qu = of_nat i"
        by (rule query_pandalog_tainted [OF inv b(2) [OF pa] L(2) False])
      have "(of_nat (card L) :: u32) \<noteq> 0" using card_zero [OF L(2)] False by simp
      then have "?body i r = Inr (tq @ [qu], ?t\<lparr>ls_returned := R'\<rparr>)"
        using b(3) [OF pa] pa qu(1) by (simp add: r)
      moreover have "?Q (Suc i) (tq @ [qu], ?t\<lparr>ls_returned := R'\<rparr>)" using q L(1) False qu(2) by (auto simp: r)
      ultimately show ?thesis by blast
    qed
  qed simp
  then show ?thesis unfolding lava_queries_def tainted_bytes_def by auto
qed

section \<open>Properties\<close>

text \<open>
  C38: Positional labels. Where a range of guest memory is mapped to distinct bytes of RAM, \<^verbatim>\<open>taint2_add_taint_ram_pos\<close>
  gives the byte at each position exactly its own label, counted on from the labels given so far, leaves every
  other cell of the shadow memory alone and advances the count by the length of the range.
\<close>

theorem positional_labels:
  assumes "shad_inv s" and "inj_on (\<lambda>i. panda_virt_to_phys env G (addr + of_nat i)) {..<unat len}"
    and "\<And>i. i < unat len \<Longrightarrow> panda_virt_to_phys env G (addr + of_nat i) \<noteq> -1
      \<and> labels_at s (Shad_cell Ram_shad (panda_virt_to_phys env G (addr + of_nat i))) \<noteq> None"
  shows "\<exists>s'. taint2_add_taint_ram_pos env G addr len s = Inr s' \<and> shad_inv s'
    \<and> taint_pos_count s' = taint_pos_count s + len
    \<and> (\<forall>i < unat len. labels_at s' (Shad_cell Ram_shad (panda_virt_to_phys env G (addr + of_nat i))) = Some {of_nat i + taint_pos_count s})
    \<and> (\<forall>c. c \<notin> (\<lambda>i. Shad_cell Ram_shad (panda_virt_to_phys env G (addr + of_nat i))) ` {..<unat len} \<longrightarrow> labels_at s' c = labels_at s c)"
proof -
  from label_range [OF assms(1,3,2), where l = "\<lambda>i s. of_nat i + taint_pos_count s" and m = "\<lambda>i. of_nat i + taint_pos_count s"]
  obtain s' where s': "foldR (\<lambda>i s. let pa = cpu_get_phys_addr env G (addr + of_nat i) in
       if pa = -1 then Inr s else label_byte env G (addr + of_nat i) (of_nat i + taint_pos_count s) s) [0..<unat len] s = Inr s'"
    "shad_inv s'" "taint_pos_count s' = taint_pos_count s"
    "\<forall>i < unat len. labels_at s' (Shad_cell Ram_shad (panda_virt_to_phys env G (addr + of_nat i))) = Some {of_nat i + taint_pos_count s}"
    "\<forall>c. c \<notin> (\<lambda>i. Shad_cell Ram_shad (panda_virt_to_phys env G (addr + of_nat i))) ` {..<unat len} \<longrightarrow> labels_at s' c = labels_at s c"
    by auto
  show ?thesis
    unfolding taint2_add_taint_ram_pos_def s'(1) bindR_simps using s'(2-5)
    by (intro exI [of _ "s'\<lparr>taint_pos_count := taint_pos_count s' + len\<rparr>"]) simp
qed

definition a_taint2 :: taint2 where
  "a_taint2 = Shad.extend a_shad \<lparr>taintEnabled = True, taintJustDisabled = False, taint_memlog = \<lparr>ml_ring = [0, 0], ml_idx = 0\<rparr>,
     taint_pos_count = 5, ls_returned = {}, pandalog = True, log_entries = []\<rparr>"

definition a_cpu_x86 :: cpu_x86 where
  "a_cpu_x86 = \<lparr>cr0 = 0, cr3 = 0, cr4 = 0, hflags = 0, a20_mask = -1\<rparr>"

lemma a_taint2_shad: "shad_inv a_taint2" "taint_pos_count a_taint2 = 5" "pandalog a_taint2"
  "labels_at a_taint2 (Shad_cell Ram_shad a) = (if unat a < 4096 then Some {} else None)"
proof -
  have td: "td_mem a_taint2 = td_mem a_shad" by (simp add: a_taint2_def Shad.defs td_mem_def [abs_def])
  have c: "cell_ls a_taint2 = cell_ls a_shad" by (simp add: cell_fun_eq td) (simp add: a_taint2_def Shad.defs)
  have i: "ts_inv a_taint2 = ts_inv a_shad" by (simp add: a_taint2_def Shad.defs ts_inv_def)
  show "shad_inv a_taint2" using a_shad_ok(1) unfolding shad_inv_def i c by (simp add: a_taint2_def Shad.defs)
  show "taint_pos_count a_taint2 = 5" "pandalog a_taint2" by (simp_all add: a_taint2_def Shad.defs)
  have "fs_ok (ts_shad a_shad Ram_shad)" using a_shad_ok(1) by (simp add: shad_inv_def ts_inv_def)
  then show "labels_at a_taint2 (Shad_cell Ram_shad a) = (if unat a < 4096 then Some {} else None)"
    using td_mem_eq [of a_shad Ram_shad a] a_shad_ok(4,5) [of Ram_shad] unfolding labels_at_def c
    by (simp add: Let_def TaintData_empty_def)
qed

lemma a_cpu_phys: "panda_virt_to_phys a_cpu_x86 G a = a"
proof -
  have "(ucast (ucast (a AND 4095) :: u32) :: u64) = a AND 0xFFF"
    unfolding page_mask_mask(3) using ucast_offset [of 12 a] by (simp add: take_bit_eq_mask mask_eq_exp_minus_1)
  then show ?thesis
    using page_split [of a] by (simp add: virt_to_phys_agree cpu_get_phys_addr_def cpu_get_phys_page_stuff_def a_cpu_x86_def)
qed

theorem positional_labels_witness:
  "\<exists>s'. taint2_add_taint_ram_pos a_cpu_x86 a_guest 100 2 a_taint2 = Inr s' \<and> labels_at s' (Shad_cell Ram_shad 101) = Some {6}"
proof -
  have r2: "{..<unat (2 :: u32)} = {0, 1}" by auto
  have "\<exists>s'. taint2_add_taint_ram_pos a_cpu_x86 a_guest 100 2 a_taint2 = Inr s' \<and> shad_inv s'
    \<and> taint_pos_count s' = taint_pos_count a_taint2 + 2
    \<and> (\<forall>i < unat (2 :: u32). labels_at s' (Shad_cell Ram_shad (panda_virt_to_phys a_cpu_x86 a_guest (100 + of_nat i)))
         = Some {of_nat i + taint_pos_count a_taint2})
    \<and> (\<forall>c. c \<notin> (\<lambda>i. Shad_cell Ram_shad (panda_virt_to_phys a_cpu_x86 a_guest (100 + of_nat i))) ` {..<unat (2 :: u32)}
         \<longrightarrow> labels_at s' c = labels_at a_taint2 c)"
  proof (rule positional_labels [OF a_taint2_shad(1)])
    show "inj_on (\<lambda>i. panda_virt_to_phys a_cpu_x86 a_guest (100 + of_nat i)) {..<unat (2 :: u32)}"
      unfolding r2 by (simp add: a_cpu_phys)
    fix i
    assume "i < unat (2 :: u32)"
    then have "i = 0 \<or> i = 1" by auto
    then show "panda_virt_to_phys a_cpu_x86 a_guest (100 + of_nat i) \<noteq> -1
      \<and> labels_at a_taint2 (Shad_cell Ram_shad (panda_virt_to_phys a_cpu_x86 a_guest (100 + of_nat i))) \<noteq> None"
      by (auto simp: a_cpu_phys a_taint2_shad(4))
  qed
  then obtain s' where "taint2_add_taint_ram_pos a_cpu_x86 a_guest 100 2 a_taint2 = Inr s'"
    "\<forall>i < unat (2 :: u32). labels_at s' (Shad_cell Ram_shad (panda_virt_to_phys a_cpu_x86 a_guest (100 + of_nat i)))
         = Some {of_nat i + taint_pos_count a_taint2}" by blast
  then show ?thesis by (intro exI [of _ s']) (auto simp: a_cpu_phys a_taint2_shad(2) dest: spec [of _ 1])
qed

text \<open>
  The address in the notice of a taint change selects the cell that changed, for RAM, LLVM values and registers, and
  for the return value at offsets of 16 bits. For the rest of the CPU state it does not: the number of registers,
  which every query subtracts, has not been added.
\<close>

theorem taint_change_reported:
  "cell_of T (fst (taint_state_changed T k x n)) = Some (Shad_cell k
     (case k of Gsv_shad \<Rightarrow> x - NUMREGS T | Ret_shad \<Rightarrow> take_bit 16 x | _ \<Rightarrow> x))
   \<and> x - NUMREGS T \<noteq> x"
proof -
  have m: "x mod 4 = take_bit 2 x" "x mod 8 = take_bit 3 x" "x mod 16 = take_bit 4 x" by (simp_all add: take_bit_eq_mod)
  have u: "(ucast (ucast (take_bit i x) :: u16) :: u64) = take_bit i x" if "i \<le> 16" for i
    by (rule bit_word_eqI) (use that in \<open>auto simp: bit_simps\<close>)
  have r: "(ucast (ucast x :: u16) :: u64) = take_bit 16 x" by (rule bit_word_eqI) (auto simp: bit_simps)
  have d: "x div 4 * 4 + x mod 4 = x" "x div 8 * 8 + x mod 8 = x" "x div 16 * 16 + x mod 16 = x" by (rule div_mult_mod_eq)+
  show ?thesis
    using d u [of 2] u [of 3] u [of 4] r
    by (cases k; cases T) (simp_all add: taint_state_changed_def cell_of_def make_maddr_def make_laddr_def make_greg_def MAXREGSIZE_def m)
qed

text \<open>
  C39: The log entry of a query. An untainted address has none. For a tainted one the entry names the label set by its
  pointer; the labels themselves, all of them in increasing order, are in the entry exactly if this set was not
  written before, and the set counts as written from then on.
\<close>

theorem query_entry_once:
  assumes "shad_inv s" and "queried TARGET_X86_64 a s = Inr L" and "card L \<le> MAX_EL_ARR_IND"
  shows "(L = {} \<and> taint2_query_pandalog a offset s = Inr (None, s))
    \<or> (\<exists>p tcn. L \<noteq> {} \<and> tp_query TARGET_X86_64 a s = Inr (Some p) \<and> taint2_query_pandalog a offset s = Inr (Some
        \<lparr>tq_unique_label_set = (if p \<in> ls_returned s then None else Some (p, sorted_list_of_set L)),
         tq_ptr = p, tq_tcn = tcn, tq_offset = offset\<rparr>, s\<lparr>ls_returned := insert p (ls_returned s)\<rparr>))"
  using query_pandalog [OF assms, of offset] by (cases "L = {}") (auto simp only: if_True if_False)

lemma labelled_taint2:
  obtains s where "tp_label TARGET_X86_64 (make_maddr 7) 9 a_taint2 = Inr s" and "shad_inv s" and "labels_applied s = {9}"
    and "\<And>a. labels_at s (Shad_cell Ram_shad a) = (if a = 7 then Some {9} else labels_at a_taint2 (Shad_cell Ram_shad a))"
    and "ls_returned s = {}" and "pandalog s" and "taintEnabled s" and "log_entries s = []"
proof -
  have c: "cell_of TARGET_X86_64 (make_maddr 7) = Some (Shad_cell Ram_shad 7)" by (simp add: cell_of_def make_maddr_def)
  have "labels_at a_taint2 (Shad_cell Ram_shad 7) \<noteq> None" by (simp add: a_taint2_shad(4))
  then have n: "cell_ls a_taint2 (Shad_cell Ram_shad 7) \<noteq> None" unfolding labels_at_def by (metis option.map_disc_iff)
  obtain s where s: "tp_label TARGET_X86_64 (make_maddr 7) 9 a_taint2 = Inr s" "shad_inv s"
    "labels_applied s = insert 9 (labels_applied a_taint2)" "labels_at s = (labels_at a_taint2)(Shad_cell Ram_shad 7 \<mapsto> {9})"
    by (rule tp_label_cell [OF a_taint2_shad(1) c n])
  have "ls_returned s = ls_returned a_taint2" "pandalog s = pandalog a_taint2" "taintEnabled s = taintEnabled a_taint2"
    "log_entries s = log_entries a_taint2"
    using taint2_more [OF tp_label_more [OF s(1)]] by blast+
  moreover have "labels_applied a_taint2 = {}" using a_shad_ok(2) by (simp add: a_taint2_def Shad.defs)
  ultimately show ?thesis using that [OF s(1,2)] s(3,4) by (simp add: a_taint2_def Shad.defs)
qed

theorem query_entry_once_witness:
  "\<exists>s s' p tcn. tp_label TARGET_X86_64 (make_maddr 7) 9 a_taint2 = Inr s
    \<and> taint2_query_pandalog (make_maddr 7) 3 s
      = Inr (Some \<lparr>tq_unique_label_set = Some (p, [9]), tq_ptr = p, tq_tcn = tcn, tq_offset = 3\<rparr>, s')"
proof (rule labelled_taint2)
  fix s
  assume s: "tp_label TARGET_X86_64 (make_maddr 7) 9 a_taint2 = Inr s" "shad_inv s" "ls_returned s = {}"
    "\<And>a. labels_at s (Shad_cell Ram_shad a) = (if a = 7 then Some {9} else labels_at a_taint2 (Shad_cell Ram_shad a))"
  have q: "queried TARGET_X86_64 (make_maddr 7) s = Inr {9}" by (rule queried_ram [OF s(2)]) (simp add: s(4))
  have m: "card {9 :: u32} \<le> MAX_EL_ARR_IND" by (simp add: MAX_EL_ARR_IND_def)
  from query_entry_once [OF s(2) q m, of 3] s(1,3) show ?thesis by auto
qed


definition a_phs :: PandaHypercallStruct where
  "a_phs = \<lparr>phs_magic = 0xabcd, phs_action = 11, phs_buf = 6, phs_len = 2, phs_label_num = 0, phs_src_column = 0,
     phs_src_filename = 0, phs_src_linenum = 12, phs_src_ast_node_name = 0, phs_info = 0\<rparr>"


end
