(* ===== verification/Memory_Dump.thy ===== *)
theory Memory_Dump
  imports Guest_Memory
begin

text \<open>
  The dump of physical memory for plugins (\<^verbatim>\<open>panda_memsavep\<close> of \<^verbatim>\<open>qemu/panda_plugin.c\<close>). The file is
  the bytes written to it so far; the loop, which compares 64-bit addresses, may run for ever.
\<close>

definition TARGET_PAGE_SIZE :: nat where "TARGET_PAGE_SIZE = 4096"

partial_function (option) memsave_loop :: "u64 \<Rightarrow> u64 \<Rightarrow> u8 list \<Rightarrow> guest_mem \<Rightarrow> (u8 list \<times> guest_mem) option" where
  "memsave_loop ram_size addr f G =
     (if addr < ram_size then
        case panda_physical_memory_read addr TARGET_PAGE_SIZE G of (res, mem_buf, G) \<Rightarrow>
        memsave_loop ram_size (addr + of_nat TARGET_PAGE_SIZE)
          (f @ (if res = - 1 then replicate TARGET_PAGE_SIZE 0 else mem_buf)) G
      else Some (f, G))"

definition panda_memsavep :: "u64 \<Rightarrow> u8 list option \<Rightarrow> guest_mem \<Rightarrow> (u8 list option \<times> guest_mem) option" where
  "panda_memsavep ram_size f G =
     (case f of
        None \<Rightarrow> Some (None, G)
      | Some f \<Rightarrow> map_option (map_prod Some id) (memsave_loop ram_size 0 f G))"

section \<open>A page\<close>

text \<open>The byte of a dump: that of RAM, or zero where a device is.\<close>

definition dumped :: "guest_mem \<Rightarrow> nat \<Rightarrow> u8" where
  "dumped G i = (case phys_byte G (of_nat i) of None \<Rightarrow> 0 | Some b \<Rightarrow> b)"

lemma page_start: "(of_nat (TARGET_PAGE_SIZE * k) :: u64) AND 0xFFF = 0"
proof -
  have "(0xFFF :: u64) = mask 12" by (simp add: mask_eq_exp_minus_1)
  then have "(of_nat (TARGET_PAGE_SIZE * k) :: u64) AND 0xFFF = take_bit 12 (of_nat (2 ^ 12 * k))"
    by (simp add: take_bit_eq_mask TARGET_PAGE_SIZE_def)
  also have "\<dots> = of_nat (take_bit 12 (2 ^ 12 * k))" by (simp only: take_bit_of_nat)
  also have "take_bit 12 (2 ^ 12 * k) = (0 :: nat)" by (simp only: take_bit_eq_mod mod_mult_self1_is_0)
  finally show ?thesis by simp
qed

lemma page_dumped:
  obtains r bs G' where "panda_physical_memory_read (of_nat (TARGET_PAGE_SIZE * k)) TARGET_PAGE_SIZE G = (r, bs, G')"
    and "mem_same G G'"
    and "(if r = - 1 then replicate TARGET_PAGE_SIZE 0 else bs)
      = map (dumped G) [TARGET_PAGE_SIZE * k..<TARGET_PAGE_SIZE * Suc k]"
proof -
  let ?a = "of_nat (TARGET_PAGE_SIZE * k) :: u64" and ?n = TARGET_PAGE_SIZE
  have c: "page_chunk ?a ?n = ?n" unfolding page_chunk_eq page_start by (simp add: TARGET_PAGE_SIZE_def)
  obtain r bs G' where rd: "panda_physical_memory_read ?a ?n G = (r, bs, G')"
    by (cases "panda_physical_memory_read ?a ?n G") auto
  have pos: "0 < ?n" by (simp add: TARGET_PAGE_SIZE_def)
  from rd have rc: "if is_io_read (page_desc G ?a) then r = - 1 \<and> bs = []
    else r = 0 \<and> bs = map (\<lambda>i. ram G (ram_addr (page_desc G ?a) ?a + of_nat i)) [0..<?n]"
    using phys_read_chunk [of ?a ?n G r bs G'] pos unfolding c by blast
  have b: "dumped G (?n * k + i) = (if is_io_read (page_desc G ?a) then 0 else ram G (ram_addr (page_desc G ?a) ?a + of_nat i))"
    if "i < ?n" for i
    using phys_byte_chunk(3) [of i ?a ?n G] that unfolding c by (simp add: dumped_def)
  have "map (dumped G) [?n * k..<?n * Suc k] = map (\<lambda>i. dumped G (?n * k + i)) [0..<?n]"
    by (rule nth_equalityI) simp_all
  also have "\<dots> = map (\<lambda>i. if is_io_read (page_desc G ?a) then 0 else ram G (ram_addr (page_desc G ?a) ?a + of_nat i)) [0..<?n]"
    using b by (intro map_cong) auto
  also have "\<dots> = (if r = - 1 then replicate ?n 0 else bs)"
    using rc by (auto simp: map_replicate_trivial split: if_splits)
  finally show ?thesis using phys_read [OF rd] by (intro that [OF rd]) simp_all
qed

section \<open>The loop\<close>

lemma dumped_same: "mem_same G G' \<Longrightarrow> dumped G' = dumped G"
  unfolding dumped_def [abs_def] by (simp only: mem_same_eqs)

lemma unat_small: "i < 2 ^ 64 \<Longrightarrow> unat (of_nat i :: u64) = i"
  by (simp add: unat_of_nat take_bit_eq_mod)

lemma memsave_loop_image:
  assumes "unat ram_size + TARGET_PAGE_SIZE \<le> 2 ^ 64" and "unat ram_size \<le> TARGET_PAGE_SIZE * n"
    and "TARGET_PAGE_SIZE * n < unat ram_size + TARGET_PAGE_SIZE" and "m \<le> n"
  shows "\<exists>G'. memsave_loop ram_size (of_nat (TARGET_PAGE_SIZE * (n - m))) f G
      = Some (f @ map (dumped G) [TARGET_PAGE_SIZE * (n - m)..<TARGET_PAGE_SIZE * n], G') \<and> mem_same G G'"
  using assms(4)
proof (induction m arbitrary: f G)
  case 0
  have "unat (of_nat (TARGET_PAGE_SIZE * n) :: u64) = TARGET_PAGE_SIZE * n"
    using assms(1,3) by (intro unat_small) simp
  then have "\<not> (of_nat (TARGET_PAGE_SIZE * n) :: u64) < ram_size" using assms(2) by (simp only: word_less_nat_alt)
  then show ?case by (subst memsave_loop.simps) (simp del: of_nat_mult)
next
  case (Suc m)
  let ?k = "n - Suc m" and ?n = TARGET_PAGE_SIZE
  have "Suc ?k \<le> n" using Suc.prems by simp
  then have k: "n - m = Suc ?k" "?n * Suc ?k \<le> ?n * n" using Suc.prems mult_le_mono2 [of "Suc ?k" n ?n] by simp_all
  then have lt: "?n * ?k < unat ram_size" using assms(3) by simp
  then have "unat (of_nat (?n * ?k) :: u64) = ?n * ?k" using assms(1) by (intro unat_small) simp
  then have less: "(of_nat (?n * ?k) :: u64) < ram_size" using lt by (simp only: word_less_nat_alt)
  obtain r bs G1 where rd: "panda_physical_memory_read (of_nat (?n * ?k)) ?n G = (r, bs, G1)" "mem_same G G1"
    "(if r = - 1 then replicate ?n 0 else bs) = map (dumped G) [?n * ?k..<?n * Suc ?k]"
    by (rule page_dumped)
  have next_addr: "(of_nat (?n * ?k) :: u64) + of_nat ?n = of_nat (?n * (n - m))" by (simp add: k(1) algebra_simps)
  obtain G' where ih: "memsave_loop ram_size (of_nat (?n * (n - m))) (f @ map (dumped G) [?n * ?k..<?n * Suc ?k]) G1
      = Some ((f @ map (dumped G) [?n * ?k..<?n * Suc ?k]) @ map (dumped G1) [?n * (n - m)..<?n * n], G')" "mem_same G1 G'"
    using Suc.IH Suc.prems by (meson Suc_leD)
  have app: "map (dumped G) [?n * ?k..<?n * Suc ?k] @ map (dumped G1) [?n * (n - m)..<?n * n] = map (dumped G) [?n * ?k..<?n * n]"
    unfolding dumped_same [OF rd(2)] k(1) map_append [symmetric]
    using upt_add_eq_append [of "?n * ?k" "?n * Suc ?k" "?n * n - ?n * Suc ?k"] k(2) by simp
  have "memsave_loop ram_size (of_nat (?n * ?k)) f G = Some (f @ map (dumped G) [?n * ?k..<?n * n], G')"
    unfolding memsave_loop.simps [of ram_size "of_nat (?n * ?k)"] if_P [OF less] rd(1) prod.case rd(3) next_addr ih(1) append_assoc app ..
  then show ?case using mem_same_trans [OF rd(2) ih(2)] by blast
qed

section \<open>Properties\<close>

text \<open>
  C37: A memory dump is the image of physical memory. If the size of RAM does not come within a page
  of the end of the address space, the dump ends; every whole page of the range has been written
  in order, byte by byte what a plugin reads there, with zeroes for the pages of devices, and
  memory is unchanged.
\<close>

theorem memsavep_image:
  assumes "unat ram_size + TARGET_PAGE_SIZE \<le> 2 ^ 64"
  shows "\<exists>G'. panda_memsavep ram_size (Some f) G = Some (Some (f @ map (\<lambda>i. case phys_byte G (of_nat i) of None \<Rightarrow> 0 | Some b \<Rightarrow> b)
      [0..<TARGET_PAGE_SIZE * ((unat ram_size + 4095) div TARGET_PAGE_SIZE)]), G') \<and> ram G' = ram G"
proof -
  let ?n = "(unat ram_size + 4095) div TARGET_PAGE_SIZE"
  have "unat ram_size \<le> TARGET_PAGE_SIZE * ?n" "TARGET_PAGE_SIZE * ?n < unat ram_size + TARGET_PAGE_SIZE"
    unfolding TARGET_PAGE_SIZE_def by linarith+
  from memsave_loop_image [OF assms this order_refl] obtain G' where
    "memsave_loop ram_size 0 f G = Some (f @ map (dumped G) [0..<TARGET_PAGE_SIZE * ?n], G')" "mem_same G G'" by auto
  then show ?thesis using mem_same_eqs(5) by (auto simp: panda_memsavep_def dumped_def)
qed

theorem memsavep_image_witness:
  "\<exists>G'. panda_memsavep 0x3000 (Some []) a_guest = Some (Some (map (\<lambda>i. case phys_byte a_guest (of_nat i) of None \<Rightarrow> 0 | Some b \<Rightarrow> b)
      [0..<12288]), G') \<and> ram G' = ram a_guest"
  using memsavep_image [of "0x3000" "[]" a_guest] by (simp add: TARGET_PAGE_SIZE_def)

end
