(* ===== verification/Spec2Isabelle.thy ===== *)
theory Spec2Isabelle
  imports RR_Watchdog Label_Set Shad_Dir_32 Shad_Dir_64 Taint_Masks Taint_Plugin Memory_Dump
begin

text \<open>
  PANDA is an emulator built on QEMU that records the nondeterministic inputs of a whole machine
  and replays them, and that lets plugins observe the replay. This library models four groups of
  its parts: record and replay, plugins and their callbacks, the CPU loop that ties both to the
  emulator, and dynamic taint analysis (plugin \<^verbatim>\<open>taint2\<close>) with its access to guest memory.
  File names are relative to \<^verbatim>\<open>src/qemu/\<close>. The configuration is a system emulator for x86
  (the shadow memory for x86, x86-64 and ARM) on a 64-bit host.

  \<^bold>\<open>Conventions.\<close> Global variables and structures are records that are passed and returned. Code
  that can fail returns \<open>rr_exit + 'a\<close>: failed assertions, calls of \<^verbatim>\<open>abort\<close>, null pointers, reads of
  freed memory, accesses outside an array and undefined arithmetic are different values of
  \<open>rr_exit\<close> (theory \<open>Panda_Prelude\<close>). Machine integers are words. Linked lists that the code
  frees or shares are heaps from addresses to nodes. Files are byte lists with a position.
  Effects on parts that are not modelled are appended to a list of effects or events.

  \<^bold>\<open>Record and replay.\<close>
  \<^item> \<open>RR_Types\<close>: log entries and their enumerations (\<^verbatim>\<open>rr_log_all.h\<close>, \<^verbatim>\<open>rr_log.h\<close>).
  \<^item> \<open>RR_Codec\<close>: \<^verbatim>\<open>rr_write_item\<close> and \<^verbatim>\<open>rr_read_item\<close> of \<^verbatim>\<open>rr_log.c\<close>, byte by byte. Every entry that is
    written is read back.
  \<^item> \<open>RR_Queue\<close>: the queue of entries read ahead and the list of entries to be reused. The locale
    \<open>fifo\<close> is what the replay relies on; the pointer structure implements it.
  \<^item> \<open>RR_State\<close>: the globals, the program point and its comparison.
  \<^item> \<open>RR_Record\<close>, \<open>RR_Replay\<close>, \<open>RR_Loops\<close>: the \<^verbatim>\<open>rr_record_*\<close> and \<^verbatim>\<open>rr_replay_*\<close> functions, filling the
    queue, skipped calls; what is delivered, where, and that the loops end.
  \<^item> \<open>RR_Manage\<close>: begin and end of a session, the requests of the monitor and of the main loop
    (\<^verbatim>\<open>vl.c\<close>), the functions that record or replay according to the mode, and the macro
    \<^verbatim>\<open>RR_DO_RECORD_OR_REPLAY\<close>. The relation \<open>rr_step\<close> collects them; its reachable states satisfy
    an invariant.
  \<^item> \<open>RR_Session\<close>: whole sessions, on which the main property below rests.

  \<^bold>\<open>Plugins.\<close>
  \<^item> \<open>Panda_Callbacks\<close>: the callback lists of \<^verbatim>\<open>panda_plugin.c\<close> on their links, with the locale
    \<open>cb_registry\<close> for those who call them.
  \<^item> \<open>Panda_Args\<close>: the option \<^verbatim>\<open>-panda\<close> of \<^verbatim>\<open>vl.c\<close> and the functions that read a plugin's arguments;
    what is written on the command line is what the plugins read.
  \<^item> \<open>Panda_Plugins\<close>: loading and unloading. The libraries are a parameter (\<open>plugin_lib\<close>): opening
    one, its entry and its exit function. Properties that need a well-behaved plugin say so
    (\<open>loadable\<close>, \<open>quiet\<close>) and are shown for an example.

  \<^bold>\<open>The CPU loop.\<close>
  \<^item> \<open>RR_Cpu_Loop\<close>: \<^verbatim>\<open>cpu_exec\<close> of \<^verbatim>\<open>cpu-exec.c\<close>. A \<^verbatim>\<open>longjmp\<close> is the value \<open>None\<close>. The translator, the
    translated code, the delivery of interrupts and the other threads are the record \<open>cpu_code\<close>;
    what is relied on of them is \<open>plain_code\<close>. A replay that has only its last entry left reaches
    its end.
  \<^item> \<open>RR_Watchdog\<close>: a replay that is stuck is aborted.

  \<^bold>\<open>Taint analysis.\<close>
  \<^item> \<open>Label_Set\<close>: shared label sets with memoised unions (\<^verbatim>\<open>label_set.cpp\<close>), locale \<open>label_sets_spec\<close>.
  \<^item> \<open>Shad_Dir\<close>, \<open>Shad_Dir_32\<close>, \<open>Shad_Dir_64\<close>: the shadow directories; one locale (\<open>sd_node\<close>) serves the
    pages and every level of tables. They implement finite maps.
  \<^item> \<open>Fast_Shad\<close>, \<open>Taint_Ops\<close>, \<open>Taint_Propagation\<close>, \<open>Taint_Masks\<close>: shadow arrays, the taint operations,
    which labels they leave, and the soundness of the masks of known bits.
  \<^item> \<open>Taint_Processor\<close>: the shadow memory of a machine (\<^verbatim>\<open>taint_processor.cpp\<close>).
  \<^item> \<open>Guest_Memory\<close>, \<open>Memory_Dump\<close>: the page-table walk (\<^verbatim>\<open>target-i386/helper.c\<close>), plugins' access to
    memory (\<^verbatim>\<open>exec.c\<close>) and the dump of memory (\<^verbatim>\<open>panda_plugin.c\<close>).
  \<^item> \<open>Taint_Plugin\<close>: labels, queries and log entries on request of the guest (\<^verbatim>\<open>taint2.cpp\<close>).

  \<^bold>\<open>Loops and fuel.\<close> Loops over data are structural or have a termination proof. The loop over
  skipped calls has as fuel one more than the number of entries that are left in queue and log;
  a property shows that this is enough on every log. \<^verbatim>\<open>panda_unload_plugins\<close> and the memory dump
  are partial functions, and the properties state that they return. \<^verbatim>\<open>cpu_exec\<close> does not end by
  itself; it takes the number of passes it may make, and the properties state a number from
  which on the result is the same: five more than the instructions that are left, or 22 for a
  replay that is stuck.

  \<^bold>\<open>Not modelled.\<close> The binary translators, devices, block and network layers and user interfaces
  of QEMU, which are parameters where the modelled code calls them. In \<^verbatim>\<open>cpu_exec\<close>, the code for
  other targets and for user mode, and the conversion of the flags of x86. The LLVM pass of the
  taint plugin and turning LLVM on and off: they work on data structures of the LLVM library.
  The plugin log, packed by generated code. Functions that only print (\<^verbatim>\<open>rr_spit_*\<close>, \<^verbatim>\<open>rr_print.c\<close>),
  only release memory (\<^verbatim>\<open>panda_free_args\<close>) or parse floating point numbers
  (\<^verbatim>\<open>panda_parse_double\<close>). The \<^verbatim>\<open>scissors\<close> plugin, which copies files and snapshots, and the other
  plugins, which are clients of the interfaces above and in large part generated tables.
\<close>

section \<open>Properties that span the components\<close>


definition example_events :: "u8 \<Rightarrow> rr_event list" where
  "example_events b = [(\<lparr>pc = 4096, secondary = 0, guest_instr_count = 3\<rparr>, 1, In_1 b),
     (\<lparr>pc = 4100, secondary = 0, guest_instr_count = 9\<rparr>, 2, Interrupt 2),
     (\<lparr>pc = 4108, secondary = 0, guest_instr_count = 12\<rparr>, 1, In_8 77)]"



end
